(* ===== verification/Prelude.thy ===== *)
theory Prelude
  imports
    Main
    "HOL-Library.Word"
    "HOL-Library.AList"
    "HOL-Library.Multiset"
    "HOL-Library.Char_ord"
    "HOL-Library.List_Lexorder"
begin

text \<open>
  Shared vocabulary of the development: the Go types the program uses, the Go map as an
  association list, and the generic lemmas on maps, lists and 64-bit words that the component
  theories rest on.

  \<^item> \<open>uint64\<close> is \<open>64 word\<close>: \<open>+\<close> wraps at \<open>2 ^ 64\<close> as Go's does.
  \<^item> A Go \<open>map[K]V\<close> is an association list \<open>('k, 'v) gomap\<close>: \<open>map_of m k\<close> is the
    two-valued read \<open>v, ok := m[k]\<close>, \<open>AList.update k v m\<close> is \<open>m[k] = v\<close>, and the list
    order stands for one iteration order of \<open>range m\<close> (Go leaves it open; the lemmas about
    loops over maps speak of \<open>map_of\<close> only, so they hold for each order). \<open>gomap_wf\<close> says that
    a key is stored once.
  \<^item> A Go string is a byte string: \<open>string\<close>, with the bytewise lexicographic order that
    \<open>List_Lexorder\<close> and \<open>Char_ord\<close> give.
\<close>

type_synonym uint64 = "64 word"
type_synonym ('k, 'v) gomap = "('k \<times> 'v) list"

named_theorems map_simps \<open>facts about Go maps as association lists\<close>
named_theorems rpc_simps \<open>evaluation of remote calls over a loopback connection\<close>

definition gomap_wf :: "('k, 'v) gomap \<Rightarrow> bool" where
  "gomap_wf m \<longleftrightarrow> distinct (map fst m)"

subsection \<open>Go maps\<close>

lemma map_of_gomap_update [simp]: "map_of (AList.update k v m) = (map_of m)(k \<mapsto> v)"
  by (rule update_conv')

lemma gomap_wf_Nil [simp, intro]: "gomap_wf []"
  by (simp add: gomap_wf_def)

lemma gomap_wf_update [simp, intro]: "gomap_wf m \<Longrightarrow> gomap_wf (AList.update k v m)"
  by (simp add: gomap_wf_def distinct_update)

lemma gomap_wf_map_snd [simp]: "gomap_wf (map (\<lambda>(k, v). (k, f k v)) m) = gomap_wf m"
  by (simp add: gomap_wf_def case_prod_beta comp_def)

text \<open>A loop that stores \<open>g w\<close> under \<open>f w\<close> for each element, in order: the last one wins.\<close>

lemma map_of_fold_update [map_simps]:
  "map_of (fold (\<lambda>w. AList.update (f w) (g w)) ws m)
     = map_of m ++ map_of (rev (map (\<lambda>w. (f w, g w)) ws))"
  by (induction ws arbitrary: m) (auto simp: map_add_def fun_eq_iff split: option.splits)

lemma gomap_wf_fold_update [simp, intro]:
  "gomap_wf m \<Longrightarrow> gomap_wf (fold (\<lambda>w. AList.update (f w) (g w)) ws m)"
  by (induction ws arbitrary: m) auto

lemma map_of_rev_gomap: "gomap_wf m \<Longrightarrow> map_of (rev m) = map_of m"
  by (rule map_of_inject_set [THEN iffD2]) (simp_all add: gomap_wf_def rev_map [symmetric])

lemma map_of_map_rev_val:
  "map_of (rev (map (\<lambda>w. (f w, h (g w))) ws)) k = map_option h (map_of (rev (map (\<lambda>w. (f w, g w)) ws)) k)"
  by (induction ws) (auto simp: map_add_def split: option.splits)

text \<open>The values that a loop stores, when they are all the same.\<close>

lemma map_of_rev_const [map_simps]:
  "map_of (rev (map (\<lambda>w. (f w, c)) ws)) k = (if k \<in> f ` set ws then Some c else None)"
  by (induction ws) (auto simp: map_add_def split: option.splits)

lemma single_add_absent: "m k = None \<Longrightarrow> [k \<mapsto> v] ++ m = m(k \<mapsto> v)"
  by (rule ext) (auto simp: map_add_def split: option.splits)

text \<open>Filling one slot leaves the slots of the other elements empty.\<close>

lemma fresh_slots:
  assumes "distinct (map f (p # ps))" "\<forall>q \<in> set (p # ps). map_of m (f q) = None"
  shows "\<forall>q \<in> set ps. map_of (AList.update (f p) r m) (f q) = None" "distinct (map f ps)"
    "f p \<notin> f ` set ps"
  using assms by (auto simp: image_iff)

subsection \<open>64-bit counters\<close>

lemma unat_inc64_le: "unat ((a :: uint64) + 1) \<le> unat a + 1"
  by (simp add: unat_word_ariths)

lemma unat_inc64:
  "unat (a :: uint64) + 1 < 2 ^ 64 \<Longrightarrow> unat (a + 1) = unat a + 1"
  by (simp add: unat_word_ariths)

lemma less_inc64:
  "unat (a :: uint64) + 1 < 2 ^ 64 \<Longrightarrow> b \<le> a \<Longrightarrow> b < a + 1"
  by (simp add: word_less_nat_alt word_le_nat_alt unat_inc64)

end
