(* ===== verification/GoStd.thy ===== *)
theory GoStd
  imports Prelude
begin

text \<open>
  The parts of Go's standard library that the program uses on strings and numbers.

  \<^item> \<open>fmt_d\<close>: the verb \<open>%d\<close> on a \<open>uint64\<close>; \<open>Itoa\<close>, \<open>Atoi\<close>: \<open>strconv.Itoa\<close> and
    \<open>strconv.Atoi\<close>, with both of \<open>Atoi\<close>'s errors and the value each of them returns. A Go
    \<open>int\<close> (64 bits) is an \<open>int\<close> with \<open>wrap64\<close> written out where the code computes with it.
  \<^item> \<open>fmt_q\<close>: the verb \<open>%q\<close> on a string: quotes, backslash escapes and hexadecimal escapes
    of ASCII control characters. Bytes of \<open>0x80\<close> and above are copied, which is what Go does
    with a printable rune in UTF-8.
  \<^item> \<open>sortSlice_spec\<close>: what \<open>sort.Slice\<close> promises. It is not stable, so the order of equal
    elements is left open and the code that calls it takes the sort as an argument.
\<close>

subsection \<open>Decimal numerals\<close>

definition digit_char :: "nat \<Rightarrow> char" where
  "digit_char d = char_of (48 + d)"

definition digit_val :: "char \<Rightarrow> nat option" where
  "digit_val c = (if 48 \<le> (of_char c :: nat) \<and> (of_char c :: nat) \<le> 57
                  then Some (of_char c - 48) else None)"

fun decimal :: "nat \<Rightarrow> string" where
  "decimal n = (if n < 10 then [digit_char n] else decimal (n div 10) @ [digit_char (n mod 10)])"

declare decimal.simps [simp del]

definition fmt_d :: "uint64 \<Rightarrow> string" where
  "fmt_d n = decimal (unat n)"

definition Itoa :: "int \<Rightarrow> string" where
  "Itoa i = (if i < 0 then ''-'' @ decimal (nat (- i)) else decimal (nat i))"

definition wrap64 :: "int \<Rightarrow> int" where
  "wrap64 i = (i + 2 ^ 63) mod 2 ^ 64 - 2 ^ 63"

datatype num_error = ErrSyntax | ErrRange

text \<open>The digit loop of \<open>strconv.ParseUint\<close> in base 10: it stops at the first bad character or
  at the first digit that does not fit, whichever comes first.\<close>

fun parse_digits :: "nat \<Rightarrow> string \<Rightarrow> nat \<times> num_error option" where
  "parse_digits n [] = (n, None)"
| "parse_digits n (c # cs) =
     (case digit_val c of
        None \<Rightarrow> (0, Some ErrSyntax)
      | Some d \<Rightarrow> if n * 10 + d \<ge> 2 ^ 64 then (2 ^ 64 - 1, Some ErrRange)
                  else parse_digits (n * 10 + d) cs)"

definition ParseUint :: "string \<Rightarrow> nat \<times> num_error option" where
  "ParseUint s = (if s = [] then (0, Some ErrSyntax) else parse_digits 0 s)"

definition Atoi :: "string \<Rightarrow> int \<times> num_error option" where
  "Atoi s =
     (if s = [] then (0, Some ErrSyntax)
      else
        let neg = (hd s = CHR ''-'');
            body = (if hd s = CHR ''+'' \<or> neg then tl s else s);
            (un, err) = ParseUint body
        in if err = Some ErrSyntax then (0, Some ErrSyntax)
           else if \<not> neg \<and> un \<ge> 2 ^ 63 then (2 ^ 63 - 1, Some ErrRange)
           else if neg \<and> un > 2 ^ 63 then (- (2 ^ 63), Some ErrRange)
           else (if neg then - int un else int un, None))"

subsection \<open>Quoting\<close>

definition hex_char :: "nat \<Rightarrow> char" where
  "hex_char d = (if d < 10 then char_of (48 + d) else char_of (87 + d))"

definition quote_char :: "char \<Rightarrow> string" where
  "quote_char c =
     (let n = of_char c :: nat in
      if n = 34 \<or> n = 92 then [char_of (92 :: nat), c]
      else if n = 7 then [char_of (92 :: nat), CHR ''a'']
      else if n = 8 then [char_of (92 :: nat), CHR ''b'']
      else if n = 12 then [char_of (92 :: nat), CHR ''f'']
      else if n = 10 then [char_of (92 :: nat), CHR ''n'']
      else if n = 13 then [char_of (92 :: nat), CHR ''r'']
      else if n = 9 then [char_of (92 :: nat), CHR ''t'']
      else if n = 11 then [char_of (92 :: nat), CHR ''v'']
      else if n < 32 \<or> n = 127
        then [char_of (92 :: nat), CHR ''x'', hex_char (n div 16), hex_char (n mod 16)]
      else [c])"

definition fmt_q :: "string \<Rightarrow> string" where
  "fmt_q s = [char_of (34 :: nat)] @ concat (map quote_char s) @ [char_of (34 :: nat)]"

subsection \<open>Sorting\<close>

definition sortSlice_spec :: "('a \<Rightarrow> 'k::linorder) \<Rightarrow> ('a list \<Rightarrow> 'a list) \<Rightarrow> bool" where
  "sortSlice_spec key srt \<longleftrightarrow> (\<forall>xs. mset (srt xs) = mset xs \<and> sorted (map key (srt xs)))"

subsection \<open>Facts\<close>

lemma digit_val_digit_char [simp]: "d < 10 \<Longrightarrow> digit_val (digit_char d) = Some d"
  by (simp add: digit_val_def digit_char_def)

lemma digit_char_not_sign:
  "d < 10 \<Longrightarrow> digit_char d \<noteq> CHR ''-''" "d < 10 \<Longrightarrow> digit_char d \<noteq> CHR ''+''"
proof -
  assume "d < 10"
  then have "digit_val (digit_char d) \<noteq> None" by simp
  moreover have "digit_val CHR ''-'' = None" "digit_val CHR ''+'' = None"
    by (simp_all add: digit_val_def)
  ultimately show "digit_char d \<noteq> CHR ''-''" "digit_char d \<noteq> CHR ''+''" by auto
qed

lemma decimal_nonempty [simp]: "decimal n \<noteq> []"
  by (subst decimal.simps) simp

lemma hd_decimal: "\<exists>d < 10. hd (decimal n) = digit_char d"
proof (induction n rule: decimal.induct)
  case (1 n)
  then show ?case by (cases "n < 10") (auto simp: decimal.simps [of n])
qed

lemma parse_digits_snoc:
  "parse_digits a (xs @ ys) =
     (case parse_digits a xs of (n, None) \<Rightarrow> parse_digits n ys | (n, Some e) \<Rightarrow> (n, Some e))"
  by (induction xs arbitrary: a) (auto split: option.splits)

lemma parse_decimal: "n < 2 ^ 64 \<Longrightarrow> parse_digits 0 (decimal n) = (n, None)"
proof (induction n rule: decimal.induct)
  case (1 n)
  show ?case
  proof (cases "n < 10")
    case True
    then show ?thesis by (simp add: decimal.simps [of n])
  next
    case False
    with "1" have "parse_digits 0 (decimal (n div 10)) = (n div 10, None)" by simp
    moreover have "n div 10 * 10 + n mod 10 = n" by simp
    ultimately show ?thesis using False "1.prems"
      by (simp add: decimal.simps [of n] parse_digits_snoc)
  qed
qed

lemma ParseUint_decimal: "n < 2 ^ 64 \<Longrightarrow> ParseUint (decimal n) = (n, None)"
  by (simp add: ParseUint_def parse_decimal)

lemma decimal_inj: "decimal m = decimal n \<Longrightarrow> m = n"
proof (induction m arbitrary: n rule: decimal.induct)
  case (1 m)
  have digit: "digit_char (a mod 10) = digit_char (b mod 10) \<Longrightarrow> a mod 10 = b mod 10" for a b :: nat
    by (metis digit_val_digit_char mod_less_divisor option.inject zero_less_numeral)
  show ?case
  proof (cases "m < 10"; cases "n < 10")
    assume "m < 10" "n < 10"
    with "1.prems" digit [of m n] show ?thesis by (simp add: decimal.simps [of m] decimal.simps [of n])
  next
    assume "m < 10" "\<not> n < 10"
    with "1.prems" show ?thesis by (auto simp: decimal.simps [of m] decimal.simps [of n] Cons_eq_append_conv)
  next
    assume "\<not> m < 10" "n < 10"
    with "1.prems" show ?thesis by (simp add: decimal.simps [of m] decimal.simps [of n])
  next
    assume big: "\<not> m < 10" "\<not> n < 10"
    with "1.prems" have "decimal (m div 10) = decimal (n div 10)" "m mod 10 = n mod 10"
      using digit by (auto simp: decimal.simps [of m] decimal.simps [of n])
    then have "m div 10 = n div 10" "m mod 10 = n mod 10" using "1.IH" big by auto
    then show ?thesis by (metis div_mult_mod_eq)
  qed
qed

lemma fmt_d_inj: "fmt_d a = fmt_d b \<longleftrightarrow> a = b"
  by (auto simp: fmt_d_def word_unat_eq_iff dest!: decimal_inj)

lemma fmt_q_nonempty [simp]: "fmt_q s \<noteq> []"
  by (simp add: fmt_q_def)

lemma Atoi_Itoa:
  assumes "- (2 ^ 63) \<le> i" "i < 2 ^ 63"
  shows "Atoi (Itoa i) = (i, None)"
proof (cases "i < 0")
  case True
  then have "nat (- i) < 2 ^ 64" "nat (- i) \<le> 2 ^ 63" using assms by auto
  with True show ?thesis by (simp add: Itoa_def Atoi_def ParseUint_decimal)
next
  case False
  then have n: "nat i < 2 ^ 64" "nat i < 2 ^ 63" using assms by auto
  obtain d where "d < 10" "hd (decimal (nat i)) = digit_char d" using hd_decimal by blast
  then have "hd (decimal (nat i)) \<noteq> CHR ''-''" "hd (decimal (nat i)) \<noteq> CHR ''+''"
    using digit_char_not_sign by auto
  with False n show ?thesis by (simp add: Itoa_def Atoi_def ParseUint_decimal)
qed

lemma wrap64_id [simp]: "- (2 ^ 63) \<le> i \<Longrightarrow> i < 2 ^ 63 \<Longrightarrow> wrap64 i = i"
  by (simp add: wrap64_def)

text \<open>Two sorts of the same batch agree when no key occurs twice.\<close>

lemma sortSlice_unique:
  assumes "sortSlice_spec key srt" "sortSlice_spec key srt'"
    and "mset xs = mset ys" and dist: "distinct (map key xs)"
  shows "srt xs = srt' ys"
proof -
  have m: "mset (srt xs) = mset xs" "mset (srt' ys) = mset xs"
    and srt: "sorted (map key (srt xs))" "sorted (map key (srt' ys))"
    using assms(1-3) by (simp_all add: sortSlice_spec_def)
  have d: "distinct (map key (srt xs))" "distinct (map key (srt' ys))"
    using dist m by (metis mset_map mset_eq_imp_distinct_iff)+
  have s: "set (srt xs) = set xs" "set (srt' ys) = set xs"
    using m by (auto dest: mset_eq_setD)
  show ?thesis
    by (rule map_sorted_distinct_set_unique [OF _ srt(1) d(1) srt(2) d(2)])
       (use s dist in \<open>auto simp: distinct_map\<close>)
qed

lemma sortSlice_sort_key: "sortSlice_spec key (sort_key key)"
  by (simp add: sortSlice_spec_def)

subsection \<open>How a command ends\<close>

text \<open>A \<open>main\<close> function, or a part of one, ends in \<open>log.Fatalf\<close> with a message, in a panic, or with a result.\<close>

datatype 'a boot = Fatal string | Panicked string | Up 'a

end
