(* ===== verification/Types.thy ===== *)
theory Types
  imports GoStd
begin

text \<open>
  The records of \<open>src/pkg/types/types.go\<close>: what the execution layer sends to the certifier
  (\<open>TxnRequest\<close>), what the certifier sends to storage (\<open>CommitRecord\<close>), and the answers of both
  (\<open>TxnResult\<close>, \<open>ReadResult\<close>). Field names carry the struct's initials because Isabelle's record
  selectors are global.
\<close>

record ReadEntry =
  re_Key :: string
  re_VersionSeen :: uint64

record WriteEntry =
  we_Key :: string
  we_Value :: string

record TxnRequest =
  tr_TxnID :: string
  tr_ReadSet :: "ReadEntry list"
  tr_WriteSet :: "WriteEntry list"

record CommitWrite =
  cw_Key :: string
  cw_Value :: string
  cw_NewVersion :: uint64

record CommitRecord =
  cr_CommitSeq :: uint64
  cr_TxnID :: string
  cr_Writes :: "CommitWrite list"

record TxnResult =
  res_TxnID :: string
  res_Committed :: bool
  res_CommitSeq :: uint64
  res_Reason :: string

record ReadResult =
  rr_Value :: string
  rr_Version :: uint64
  rr_Found :: bool

text \<open>\<open>types.TxnResult{TxnID: id, Reason: why}\<close> and \<open>types.TxnResult{TxnID: id, Committed: true,
  CommitSeq: n}\<close>: the fields a composite literal leaves out are zero.\<close>

abbreviation aborted_result :: "string \<Rightarrow> string \<Rightarrow> TxnResult" where
  "aborted_result i why \<equiv>
     \<lparr>res_TxnID = i, res_Committed = False, res_CommitSeq = 0, res_Reason = why\<rparr>"

abbreviation committed_result :: "string \<Rightarrow> uint64 \<Rightarrow> TxnResult" where
  "committed_result i n \<equiv>
     \<lparr>res_TxnID = i, res_Committed = True, res_CommitSeq = n, res_Reason = ''''\<rparr>"

end
