(* ===== verification/Storage.thy ===== *)
theory Storage
  imports Types
begin

text \<open>
  The storage layer, \<open>src/pkg/storage/storage.go\<close>.

  \<^item> \<open>'s Store\<close> is the Go interface \<open>Store\<close>: the four methods as functions on a state \<open>'s\<close>. A
    method that returns an error has an \<open>apply_outcome\<close>: \<open>nil\<close>, an error with its message, or a
    panic (the epoch certifier recovers from one).
  \<^item> \<open>MemStore\<close> is the in-memory implementation. Each method holds the store's mutex for its
    whole body, so each is one atomic function of the state (theory \<open>Locking\<close> proves this).
  \<^item> \<open>store_contract\<close> is what the certifiers and the engine rely on, over an abstract view
    \<open>string \<rightharpoonup> string \<times> uint64\<close> of the keys' values and versions. \<open>mem\<close> interprets it on
    \<open>MemStore\<close>; the gRPC client of \<open>Rpc\<close> is the other implementation.
\<close>

subsection \<open>The Store interface\<close>

datatype apply_outcome = ApplyOk | ApplyErr string | ApplyPanic string

record 's Store =
  Store_Get :: "'s \<Rightarrow> string \<Rightarrow> ReadResult \<times> 's"
  Store_ApplyCommit :: "'s \<Rightarrow> CommitRecord \<Rightarrow> apply_outcome \<times> 's"
  Store_LoadInitialData :: "'s \<Rightarrow> (string, string) gomap \<Rightarrow> 's"
  Store_DumpState :: "'s \<Rightarrow> (string, ReadResult) gomap \<times> 's"

subsection \<open>MemStore\<close>

record entry =
  e_value :: string
  e_version :: uint64

record MemStore =
  ms_data :: "(string, entry) gomap"

definition NewMemStore :: MemStore where
  "NewMemStore = \<lparr>ms_data = []\<rparr>"

definition MemStore_Get :: "MemStore \<Rightarrow> string \<Rightarrow> ReadResult" where
  "MemStore_Get s key =
     (case map_of (ms_data s) key of
        None \<Rightarrow> \<lparr>rr_Value = '''', rr_Version = 0, rr_Found = False\<rparr>
      | Some e \<Rightarrow> \<lparr>rr_Value = e_value e, rr_Version = e_version e, rr_Found = True\<rparr>)"

definition monotonicity_error :: "string \<Rightarrow> uint64 \<Rightarrow> uint64 \<Rightarrow> string" where
  "monotonicity_error key new cur =
     ''version monotonicity violation on key '' @ fmt_q key @ '': new version '' @ fmt_d new
       @ '' <= current version '' @ fmt_d cur"

text \<open>The validation loop of \<open>ApplyCommit\<close>: the error of the first offending write.\<close>

fun check_monotonic :: "(string, entry) gomap \<Rightarrow> CommitWrite list \<Rightarrow> string option" where
  "check_monotonic d [] = None"
| "check_monotonic d (w # ws) =
     (case map_of d (cw_Key w) of
        Some existing \<Rightarrow>
          if cw_NewVersion w \<le> e_version existing
          then Some (monotonicity_error (cw_Key w) (cw_NewVersion w) (e_version existing))
          else check_monotonic d ws
      | None \<Rightarrow> check_monotonic d ws)"

definition write_entries :: "CommitWrite list \<Rightarrow> (string, entry) gomap \<Rightarrow> (string, entry) gomap" where
  "write_entries ws d =
     fold (\<lambda>w. AList.update (cw_Key w) \<lparr>e_value = cw_Value w, e_version = cw_NewVersion w\<rparr>) ws d"

definition MemStore_ApplyCommit :: "MemStore \<Rightarrow> CommitRecord \<Rightarrow> apply_outcome \<times> MemStore" where
  "MemStore_ApplyCommit s record =
     (case check_monotonic (ms_data s) (cr_Writes record) of
        Some err \<Rightarrow> (ApplyErr err, s)
      | None \<Rightarrow> (ApplyOk, s\<lparr>ms_data := write_entries (cr_Writes record) (ms_data s)\<rparr>))"

definition MemStore_LoadInitialData :: "MemStore \<Rightarrow> (string, string) gomap \<Rightarrow> MemStore" where
  "MemStore_LoadInitialData s input =
     s\<lparr>ms_data := fold (\<lambda>kv. AList.update (fst kv) \<lparr>e_value = snd kv, e_version = 1\<rparr>) input (ms_data s)\<rparr>"

definition MemStore_DumpState :: "MemStore \<Rightarrow> (string, ReadResult) gomap" where
  "MemStore_DumpState s =
     fold (\<lambda>ke. AList.update (fst ke)
                  \<lparr>rr_Value = e_value (snd ke), rr_Version = e_version (snd ke), rr_Found = True\<rparr>)
          (ms_data s) []"

definition MemStore_ops :: "MemStore Store" where
  "MemStore_ops =
     \<lparr>Store_Get = (\<lambda>s k. (MemStore_Get s k, s)),
      Store_ApplyCommit = MemStore_ApplyCommit,
      Store_LoadInitialData = MemStore_LoadInitialData,
      Store_DumpState = (\<lambda>s. (MemStore_DumpState s, s))\<rparr>"

lemma MemStore_ops_sel:
  "Store_Get MemStore_ops s k = (MemStore_Get s k, s)"
  "Store_ApplyCommit MemStore_ops s r = MemStore_ApplyCommit s r"
  "Store_LoadInitialData MemStore_ops s d = MemStore_LoadInitialData s d"
  "Store_DumpState MemStore_ops s = (MemStore_DumpState s, s)"
  by (simp_all add: MemStore_ops_def)

subsection \<open>The abstract view\<close>

type_synonym kv_view = "string \<rightharpoonup> string \<times> uint64"

definition view_result :: "(string \<times> uint64) option \<Rightarrow> ReadResult" where
  "view_result q =
     (case q of
        None \<Rightarrow> \<lparr>rr_Value = '''', rr_Version = 0, rr_Found = False\<rparr>
      | Some (v, n) \<Rightarrow> \<lparr>rr_Value = v, rr_Version = n, rr_Found = True\<rparr>)"

definition view_writes :: "CommitWrite list \<Rightarrow> kv_view \<Rightarrow> kv_view" where
  "view_writes ws m = m ++ map_of (rev (map (\<lambda>w. (cw_Key w, (cw_Value w, cw_NewVersion w))) ws))"

definition advances :: "kv_view \<Rightarrow> CommitWrite list \<Rightarrow> bool" where
  "advances m ws \<longleftrightarrow> (\<forall>w \<in> set ws. \<forall>v n. m (cw_Key w) = Some (v, n) \<longrightarrow> n < cw_NewVersion w)"

definition mem_view :: "MemStore \<Rightarrow> kv_view" where
  "mem_view s k = map_option (\<lambda>e. (e_value e, e_version e)) (map_of (ms_data s) k)"

definition mem_wf :: "MemStore \<Rightarrow> bool" where
  "mem_wf s \<longleftrightarrow> gomap_wf (ms_data s)"

text \<open>
  The laws of a store. \<open>view\<close> is what a reader sees, \<open>ok\<close> the invariant of the representation.
\<close>

locale store_contract =
  fixes ops :: "'s Store"
    and view :: "'s \<Rightarrow> kv_view"
    and ok :: "'s \<Rightarrow> bool"
  assumes get: "ok s \<Longrightarrow> \<exists>s'. Store_Get ops s k = (view_result (view s k), s') \<and> ok s' \<and> view s' = view s"
    and apply_ok: "ok s \<Longrightarrow> advances (view s) (cr_Writes r) \<Longrightarrow>
          \<exists>s'. Store_ApplyCommit ops s r = (ApplyOk, s') \<and> ok s' \<and> view s' = view_writes (cr_Writes r) (view s)"
    and apply_err: "ok s \<Longrightarrow> \<not> advances (view s) (cr_Writes r) \<Longrightarrow>
          \<exists>e s'. Store_ApplyCommit ops s r = (ApplyErr e, s') \<and> e \<noteq> [] \<and> ok s' \<and> view s' = view s"
    and load: "ok s \<Longrightarrow> gomap_wf d \<Longrightarrow>
          ok (Store_LoadInitialData ops s d) \<and>
          view (Store_LoadInitialData ops s d) = view s ++ (\<lambda>k. map_option (\<lambda>v. (v, 1)) (map_of d k))"
    and dump: "ok s \<Longrightarrow> \<exists>d s'. Store_DumpState ops s = (d, s') \<and> ok s' \<and> view s' = view s \<and> gomap_wf d \<and>
          map_of d = (\<lambda>k. map_option (\<lambda>p. view_result (Some p)) (view s k))"

abbreviation store_with :: "string \<Rightarrow> string \<Rightarrow> uint64 \<Rightarrow> MemStore" where
  "store_with k v n \<equiv> \<lparr>ms_data = [(k, \<lparr>e_value = v, e_version = n\<rparr>)]\<rparr>"

subsection \<open>Facts about MemStore\<close>

lemma mem_view_store_with [simp]: "mem_view (store_with k v n) = [k \<mapsto> (v, n)]"
  by (auto simp: mem_view_def)

lemma mem_wf_store_with [simp]: "mem_wf (store_with k v n)"
  by (simp add: mem_wf_def gomap_wf_def)

lemma MemStore_Get_view: "MemStore_Get s k = view_result (mem_view s k)"
  by (simp add: MemStore_Get_def view_result_def mem_view_def split: option.splits)

lemma check_monotonic_None:
  "check_monotonic (ms_data s) ws = None \<longleftrightarrow> advances (mem_view s) ws"
  by (induction ws) (auto simp: advances_def mem_view_def not_le split: option.splits)

lemma check_monotonic_Some: "check_monotonic d ws = Some e \<Longrightarrow> e \<noteq> []"
  by (induction ws) (auto simp: monotonicity_error_def split: option.splits if_splits)

lemma mem_view_write_entries:
  "mem_view (s\<lparr>ms_data := write_entries ws (ms_data s)\<rparr>) = view_writes ws (mem_view s)"
  by (rule ext)
     (simp add: mem_view_def view_writes_def write_entries_def map_of_fold_update map_add_def
        map_of_map_rev_val [where h = "\<lambda>e. (e_value e, e_version e)" and
          g = "\<lambda>w. \<lparr>e_value = cw_Value w, e_version = cw_NewVersion w\<rparr>", simplified]
        split: option.splits)

lemma mem_wf_NewMemStore [simp]: "mem_wf NewMemStore"
  by (simp add: mem_wf_def NewMemStore_def)

lemma mem_view_NewMemStore [simp]: "mem_view NewMemStore = Map.empty"
  by (simp add: mem_view_def NewMemStore_def fun_eq_iff)

lemma mem_view_load:
  "gomap_wf d \<Longrightarrow>
   mem_view (MemStore_LoadInitialData s d) = mem_view s ++ (\<lambda>k. map_option (\<lambda>v. (v, 1)) (map_of d k))"
  by (rule ext)
     (simp add: mem_view_def MemStore_LoadInitialData_def map_of_fold_update map_add_def
        map_of_map_rev_val [where h = "\<lambda>v. \<lparr>e_value = v, e_version = 1\<rparr>" and g = snd and f = fst, simplified]
        map_of_rev_gomap option.map_comp comp_def split: option.splits)

lemma map_of_MemStore_DumpState:
  "mem_wf s \<Longrightarrow>
   map_of (MemStore_DumpState s) = (\<lambda>k. map_option (\<lambda>p. view_result (Some p)) (mem_view s k))"
  by (rule ext)
     (simp add: mem_view_def mem_wf_def MemStore_DumpState_def map_of_fold_update view_result_def
        map_of_map_rev_val [where h = "\<lambda>e. \<lparr>rr_Value = e_value e, rr_Version = e_version e, rr_Found = True\<rparr>"
          and g = snd and f = fst, simplified]
        map_of_rev_gomap option.map_comp comp_def)

lemma mem_wf_ops:
  assumes "mem_wf s"
  shows "mem_wf (snd (MemStore_ApplyCommit s r))"
    and "mem_wf (MemStore_LoadInitialData s d)"
    and "gomap_wf (MemStore_DumpState s)"
  using assms
  by (auto simp: mem_wf_def MemStore_ApplyCommit_def MemStore_LoadInitialData_def MemStore_DumpState_def
      write_entries_def split: option.splits)

interpretation mem: store_contract MemStore_ops mem_view mem_wf
proof unfold_locales
  fix s :: MemStore and k r d
  assume wf: "mem_wf s"
  show "\<exists>s'. Store_Get MemStore_ops s k = (view_result (mem_view s k), s') \<and> mem_wf s' \<and> mem_view s' = mem_view s"
    using wf by (simp add: MemStore_ops_def MemStore_Get_view)
  show "\<exists>s'. Store_ApplyCommit MemStore_ops s r = (ApplyOk, s') \<and> mem_wf s' \<and>
          mem_view s' = view_writes (cr_Writes r) (mem_view s)" if "advances (mem_view s) (cr_Writes r)"
    using wf that mem_wf_ops(1) [OF wf, of r]
    by (simp add: MemStore_ops_def MemStore_ApplyCommit_def check_monotonic_None [symmetric] mem_view_write_entries)
  show "\<exists>e s'. Store_ApplyCommit MemStore_ops s r = (ApplyErr e, s') \<and> e \<noteq> [] \<and> mem_wf s' \<and>
          mem_view s' = mem_view s" if "\<not> advances (mem_view s) (cr_Writes r)"
    using wf that
    by (auto simp: MemStore_ops_def MemStore_ApplyCommit_def check_monotonic_None [symmetric]
        dest: check_monotonic_Some)
  show "mem_wf (Store_LoadInitialData MemStore_ops s d) \<and>
        mem_view (Store_LoadInitialData MemStore_ops s d) = mem_view s ++ (\<lambda>k. map_option (\<lambda>v. (v, 1)) (map_of d k))"
    if "gomap_wf d"
    using wf that by (simp add: MemStore_ops_def mem_wf_ops mem_view_load)
  show "\<exists>d s'. Store_DumpState MemStore_ops s = (d, s') \<and> mem_wf s' \<and> mem_view s' = mem_view s \<and> gomap_wf d \<and>
          map_of d = (\<lambda>k. map_option (\<lambda>p. view_result (Some p)) (mem_view s k))"
    using wf by (simp add: MemStore_ops_def mem_wf_ops map_of_MemStore_DumpState)
qed

end
