(* ===== verification/Certifier.thy ===== *)
theory Certifier
  imports Storage
begin

text \<open>
  What the two certifiers of \<open>src/pkg/ccaas\<close> have in common: the version map and the commit
  counter they rebuild from storage, and the specification of optimistic certification that both
  refine.

  \<^item> \<open>ImmediateCertifier\<close> holds the fields \<open>latestVersion\<close> and \<open>commitSeq\<close>; the record of the
    epoch certifier extends it, so \<open>coherent\<close> speaks of both.
  \<^item> \<open>coherent m c\<close>: the certifier \<open>c\<close> knows exactly the versions of the store view \<open>m\<close>, and no
    version is above its counter.
  \<^item> \<open>occ_spec\<close>: certify a request against a view in one step, with no version map.
\<close>

record ImmediateCertifier =
  latestVersion :: "(string, uint64) gomap"
  commitSeq :: uint64

text \<open>The loop over \<open>store.DumpState()\<close> in the constructors and in \<open>SyncFromStorage\<close>.\<close>

definition load_versions :: "(string, ReadResult) gomap \<Rightarrow> (string, uint64) gomap \<times> uint64" where
  "load_versions state =
     fold (\<lambda>(key, result) (lv, maxVersion).
             (AList.update key (rr_Version result) lv,
              if rr_Version result > maxVersion then rr_Version result else maxVersion))
          state ([], 0)"

subsection \<open>Specification\<close>

definition ver_of :: "kv_view \<Rightarrow> string \<Rightarrow> uint64" where
  "ver_of m k = (case m k of None \<Rightarrow> 0 | Some (v, n) \<Rightarrow> n)"

definition val_of :: "kv_view \<Rightarrow> string \<Rightarrow> string" where
  "val_of m k = (case m k of None \<Rightarrow> '''' | Some (v, n) \<Rightarrow> v)"

definition reads_current :: "kv_view \<Rightarrow> ReadEntry list \<Rightarrow> bool" where
  "reads_current m rs \<longleftrightarrow> (\<forall>r \<in> set rs. re_VersionSeen r = ver_of m (re_Key r))"

definition stamp :: "uint64 \<Rightarrow> WriteEntry list \<Rightarrow> CommitWrite list" where
  "stamp n ws = map (\<lambda>w. \<lparr>cw_Key = we_Key w, cw_Value = we_Value w, cw_NewVersion = n\<rparr>) ws"

definition occ_spec :: "kv_view \<Rightarrow> uint64 \<Rightarrow> TxnRequest \<Rightarrow> bool \<times> kv_view \<times> uint64" where
  "occ_spec m n req =
     (if reads_current m (tr_ReadSet req)
      then (True, view_writes (stamp (n + 1) (tr_WriteSet req)) m, n + 1)
      else (False, m, n))"

definition versions_in :: "kv_view \<Rightarrow> uint64 \<Rightarrow> bool" where
  "versions_in m n \<longleftrightarrow> (\<forall>k v i. m k = Some (v, i) \<longrightarrow> 0 < i \<and> i \<le> n)"

definition view_pos :: "kv_view \<Rightarrow> bool" where
  "view_pos m \<longleftrightarrow> (\<forall>k v i. m k = Some (v, i) \<longrightarrow> 0 < i)"

definition coherent :: "kv_view \<Rightarrow> 'a ImmediateCertifier_scheme \<Rightarrow> bool" where
  "coherent m c \<longleftrightarrow>
     map_of (latestVersion c) = (\<lambda>k. map_option snd (m k)) \<and> versions_in m (commitSeq c)"

definition seq_room :: "uint64 \<Rightarrow> bool" where
  "seq_room n \<longleftrightarrow> unat n + 1 < 2 ^ 64"

subsection \<open>Facts about the specification\<close>

lemma view_writes_stamp:
  "view_writes (stamp n ws) m k =
     (case map_of (rev (map (\<lambda>w. (we_Key w, we_Value w)) ws)) k of Some v \<Rightarrow> Some (v, n) | None \<Rightarrow> m k)"
  using map_of_map_rev_val [where h = "\<lambda>v. (v, n)" and f = we_Key and g = we_Value, of ws k]
  by (simp add: view_writes_def stamp_def map_add_def comp_def split: option.splits)

lemma in_write_keys:
  "(map_of (rev (map (\<lambda>w. (we_Key w, we_Value w)) ws)) k = None) \<longleftrightarrow> k \<notin> we_Key ` set ws"
  by (simp add: map_of_eq_None_iff image_image)

lemma versions_in_advances:
  assumes "versions_in m n" "seq_room n"
  shows "advances m (stamp (n + 1) ws)"
  using assms less_inc64 by (auto simp: versions_in_def advances_def stamp_def seq_room_def)

lemma versions_in_commit:
  assumes "versions_in m n" "seq_room n"
  shows "versions_in (view_writes (stamp (n + 1) ws) m) (n + 1)"
proof -
  have "0 < n + 1" using assms(2) less_inc64 [of n 0] by (simp add: seq_room_def)
  moreover have "i \<le> n + 1" if "i \<le> n" for i
    using that assms(2) less_inc64 [of n i] by (simp add: seq_room_def)
  ultimately show ?thesis
    using assms(1) by (auto simp: versions_in_def view_writes_stamp split: option.splits)
qed

lemma ver_of_commit:
  "ver_of (view_writes (stamp n ws) m) k = (if k \<in> we_Key ` set ws then n else ver_of m k)"
  using in_write_keys [of ws k] by (auto simp: ver_of_def view_writes_stamp split: option.splits)

lemma ver_of_le: "versions_in m n \<Longrightarrow> ver_of m k \<le> n"
  by (auto simp: versions_in_def ver_of_def split: option.splits)

lemma ver_of_0: "versions_in m n \<Longrightarrow> ver_of m k = 0 \<longleftrightarrow> m k = None"
  by (force simp: versions_in_def ver_of_def split: option.splits)

lemma coherent_ver_of:
  "coherent m c \<Longrightarrow> ver_of m k = (case map_of (latestVersion c) k of None \<Rightarrow> 0 | Some n \<Rightarrow> n)"
  by (auto simp: coherent_def ver_of_def split: option.splits)

lemma coherent_commit:
  assumes "coherent m c" "seq_room (commitSeq c)"
    and "map_of (latestVersion c') = map_of (latestVersion c) ++ map_of (rev (map (\<lambda>w. (we_Key w, commitSeq c + 1)) ws))"
    and "commitSeq c' = commitSeq c + 1"
  shows "coherent (view_writes (stamp (commitSeq c + 1) ws) m) c'"
proof -
  have "map_of (latestVersion c') k = map_option snd (view_writes (stamp (commitSeq c + 1) ws) m k)" for k
    using assms(1,3) in_write_keys [of ws k]
    by (auto simp: coherent_def view_writes_stamp map_add_def map_of_rev_const split: option.splits)
  then show ?thesis using assms by (auto simp: coherent_def versions_in_commit)
qed

subsection \<open>Concrete requests and certifiers\<close>

abbreviation request :: "string \<Rightarrow> (string \<times> uint64) list \<Rightarrow> (string \<times> string) list \<Rightarrow> TxnRequest" where
  "request i rs ws \<equiv> \<lparr>tr_TxnID = i, tr_ReadSet = map (\<lambda>(k, n). \<lparr>re_Key = k, re_VersionSeen = n\<rparr>) rs,
                      tr_WriteSet = map (\<lambda>(k, v). \<lparr>we_Key = k, we_Value = v\<rparr>) ws\<rparr>"

lemma coherent_store_with:
  "coherent [k \<mapsto> (v, n)] c \<longleftrightarrow> map_of (latestVersion c) = [k \<mapsto> n] \<and> 0 < n \<and> n \<le> commitSeq c"
  by (auto simp: coherent_def versions_in_def fun_eq_iff)

subsection \<open>Rebuilding the version map\<close>

lemma load_versions_fold:
  "fold (\<lambda>(key, result) (lv, maxVersion).
             (AList.update key (rr_Version result) lv,
              if rr_Version result > maxVersion then rr_Version result else maxVersion)) state (lv, mx)
   = (fold (\<lambda>kr. AList.update (fst kr) (rr_Version (snd kr))) state lv,
      fold max (map (\<lambda>kr. rr_Version (snd kr)) state) mx)"
  by (induction state arbitrary: lv mx) (auto simp: max_def)

lemma fold_max_ge: "(mx :: uint64) \<le> fold max xs mx \<and> (\<forall>x \<in> set xs. x \<le> fold max xs mx)"
  by (induction xs arbitrary: mx) (auto, meson max.boundedE, meson max.boundedE)

lemma fold_max_mem: "fold max xs (mx :: uint64) \<in> insert mx (set xs)"
  by (induction xs arbitrary: mx) (auto simp: max_def)

lemma load_versions_lookup:
  assumes "gomap_wf state"
  shows "map_of (fst (load_versions state)) = (\<lambda>k. map_option rr_Version (map_of state k))"
    and "map_of state k = Some r \<Longrightarrow> rr_Version r \<le> snd (load_versions state)"
proof -
  show "map_of (fst (load_versions state)) = (\<lambda>k. map_option rr_Version (map_of state k))"
    using assms map_of_map_rev_val [where h = rr_Version and f = fst and g = snd, of state]
    by (simp add: load_versions_def load_versions_fold map_of_fold_update map_of_rev_gomap fun_eq_iff)
  show "rr_Version r \<le> snd (load_versions state)" if "map_of state k = Some r"
    using map_of_SomeD [OF that] fold_max_ge [of 0 "map (\<lambda>kr. rr_Version (snd kr)) state"]
    by (force simp: load_versions_def load_versions_fold)
qed

lemma load_versions_coherent:
  assumes "gomap_wf state" "map_of state = (\<lambda>k. map_option (\<lambda>p. view_result (Some p)) (m k))"
    and "view_pos m"
    and "latestVersion c = fst (load_versions state)" "snd (load_versions state) \<le> commitSeq c"
  shows "coherent m c"
proof -
  have "i \<le> commitSeq c" if "m k = Some (v, i)" for k v i
    using load_versions_lookup(2) [OF assms(1), of k "view_result (Some (v, i))"] assms(2,5) that
    by (simp add: view_result_def)
  with assms(3) show ?thesis
    by (auto simp: coherent_def versions_in_def view_pos_def load_versions_lookup(1) [OF assms(1)] assms(2,4)
        view_result_def option.map_comp comp_def fun_eq_iff split_beta intro!: option.map_cong)
qed

end
