(* ===== verification/Immediate.thy ===== *)
theory Immediate
  imports Certifier
begin

text \<open>
  The immediate certifier, \<open>src/pkg/ccaas/immediate.go\<close>. \<open>SubmitCommit\<close> and \<open>SyncFromStorage\<close>
  hold the certifier's mutex for their whole body, so each is one function of the certifier, the
  store it holds and the request. A panic of the store is \<open>Inl\<close>, a returned result \<open>Inr\<close>.

  The lemmas are proved once for any store that keeps \<open>store_contract\<close>; the properties at the end
  state them for \<open>MemStore\<close> through its interpretation.
\<close>

definition NewImmediateCertifier :: "'s Store \<Rightarrow> 's \<Rightarrow> ImmediateCertifier \<times> 's" where
  "NewImmediateCertifier ops s =
     (let (state, s') = Store_DumpState ops s;
          (lv, maxVersion) = load_versions state
      in (\<lparr>latestVersion = lv, commitSeq = maxVersion\<rparr>, s'))"

definition ImmediateCertifier_SyncFromStorage ::
    "'s Store \<Rightarrow> ImmediateCertifier \<Rightarrow> 's \<Rightarrow> ImmediateCertifier \<times> 's" where
  "ImmediateCertifier_SyncFromStorage ops c s =
     (let (state, s') = Store_DumpState ops s;
          (lv, maxVersion) = load_versions state
      in (c\<lparr>latestVersion := lv,
            commitSeq := (if maxVersion > commitSeq c then maxVersion else commitSeq c)\<rparr>, s'))"

text \<open>The read-validation loop: the reason of the first stale read.\<close>

fun validate_reads :: "(string, uint64) gomap \<Rightarrow> ReadEntry list \<Rightarrow> string option" where
  "validate_reads lv [] = None"
| "validate_reads lv (read # rest) =
     (case map_of lv (re_Key read) of
        Some currentVersion \<Rightarrow>
          if currentVersion \<noteq> re_VersionSeen read
          then Some (''stale read on key '' @ re_Key read @ '': expected version ''
                     @ fmt_d (re_VersionSeen read) @ '', found '' @ fmt_d currentVersion)
          else validate_reads lv rest
      | None \<Rightarrow>
          if re_VersionSeen read \<noteq> 0
          then Some (''stale read on key '' @ re_Key read @ '': expected version ''
                     @ fmt_d (re_VersionSeen read) @ '', found 0'')
          else validate_reads lv rest)"

definition commit_record :: "uint64 \<Rightarrow> TxnRequest \<Rightarrow> CommitRecord" where
  "commit_record n req =
     \<lparr>cr_CommitSeq = n, cr_TxnID = tr_TxnID req,
      cr_Writes = map (\<lambda>w. \<lparr>cw_Key = we_Key w, cw_Value = we_Value w, cw_NewVersion = n\<rparr>) (tr_WriteSet req)\<rparr>"

definition ImmediateCertifier_SubmitCommit ::
    "'s Store \<Rightarrow> ImmediateCertifier \<Rightarrow> 's \<Rightarrow> TxnRequest \<Rightarrow> (string + TxnResult) \<times> ImmediateCertifier \<times> 's" where
  "ImmediateCertifier_SubmitCommit ops c s req =
     (case validate_reads (latestVersion c) (tr_ReadSet req) of
        Some why \<Rightarrow> (Inr (aborted_result (tr_TxnID req) why), c, s)
      | None \<Rightarrow>
          let n = commitSeq c + 1;
              c' = c\<lparr>commitSeq := n,
                     latestVersion := fold (\<lambda>w. AList.update (we_Key w) n) (tr_WriteSet req) (latestVersion c)\<rparr>
          in (case Store_ApplyCommit ops s (commit_record n req) of
                (ApplyErr err, s') \<Rightarrow> (Inr (aborted_result (tr_TxnID req) err), c', s')
              | (ApplyPanic p, s') \<Rightarrow> (Inl p, c', s')
              | (ApplyOk, s') \<Rightarrow> (Inr (committed_result (tr_TxnID req) n), c', s')))"

subsection \<open>Read validation\<close>

lemma validate_reads_None:
  "validate_reads lv rs = None \<longleftrightarrow>
     (\<forall>r \<in> set rs. re_VersionSeen r = (case map_of lv (re_Key r) of None \<Rightarrow> 0 | Some n \<Rightarrow> n))"
  by (induction rs) (auto split: option.splits)

lemma validate_reads_coherent:
  "coherent m c \<Longrightarrow> validate_reads (latestVersion c) rs = None \<longleftrightarrow> reads_current m rs"
  by (simp add: validate_reads_None reads_current_def coherent_ver_of)

lemma validate_reads_reason: "validate_reads lv rs = Some why \<Longrightarrow> why \<noteq> []"
  by (induction rs) (auto split: option.splits if_splits)

lemma commit_record_writes [simp]: "cr_Writes (commit_record n req) = stamp n (tr_WriteSet req)"
  by (simp add: commit_record_def stamp_def)

lemma fold_max_bound: "\<forall>x \<in> set xs. x \<le> b \<Longrightarrow> mx \<le> b \<Longrightarrow> fold max xs (mx :: uint64) \<le> b"
  by (induction xs arbitrary: mx) auto

context store_contract
begin

text \<open>A certifier starts at the highest version it finds.\<close>

lemma dump_seq_bound:
  assumes "ok s" "\<forall>k v n. view s k = Some (v, n) \<longrightarrow> n \<le> b"
  shows "snd (load_versions (fst (Store_DumpState ops s))) \<le> b"
proof -
  obtain d s' where d: "Store_DumpState ops s = (d, s')" "gomap_wf d"
    "map_of d = (\<lambda>k. map_option (\<lambda>p. view_result (Some p)) (view s k))" using dump [OF assms(1)] by blast
  have "rr_Version (snd kr) \<le> b" if "kr \<in> set d" for kr
  proof -
    have "map_of d (fst kr) = Some (snd kr)" using that d(2) by (simp add: gomap_wf_def)
    with d(3) assms(2) show ?thesis by (cases kr) (auto simp: view_result_def)
  qed
  then show ?thesis
    using fold_max_bound [of "map (\<lambda>kr. rr_Version (snd kr)) d" b 0] by (simp add: d(1) load_versions_def load_versions_fold)
qed

lemma dump_coherent:
  assumes "ok s" "view_pos (view s)"
  shows "\<exists>d s'. Store_DumpState ops s = (d, s') \<and> ok s' \<and> view s' = view s \<and>
           (\<forall>c :: 'a ImmediateCertifier_scheme. latestVersion c = fst (load_versions d) \<longrightarrow>
              snd (load_versions d) \<le> commitSeq c \<longrightarrow> coherent (view s) c)"
  using dump [OF assms(1)] load_versions_coherent [OF _ _ assms(2)] by blast

lemma new_coherent:
  assumes "ok s" "view_pos (view s)"
  shows "\<exists>c s'. NewImmediateCertifier ops s = (c, s') \<and> ok s' \<and> view s' = view s \<and> coherent (view s) c"
  using dump_coherent [OF assms, where 'a = unit] by (auto simp: NewImmediateCertifier_def split_beta)

lemma sync_coherent:
  assumes "ok s" "view_pos (view s)"
  shows "\<exists>c' s'. ImmediateCertifier_SyncFromStorage ops c s = (c', s') \<and> ok s' \<and> view s' = view s \<and>
           coherent (view s) c' \<and> commitSeq c \<le> commitSeq c'"
  using dump_coherent [OF assms, where 'a = unit]
  by (auto simp: ImmediateCertifier_SyncFromStorage_def split_beta)

text \<open>One submission implements one step of the specification.\<close>

lemma submit_refines:
  assumes "ok s" "coherent (view s) c" "seq_room (commitSeq c)"
  shows "\<exists>r c' s'. ImmediateCertifier_SubmitCommit ops c s req = (Inr r, c', s') \<and> ok s' \<and>
           coherent (view s') c' \<and> res_TxnID r = tr_TxnID req \<and>
           occ_spec (view s) (commitSeq c) req = (res_Committed r, view s', commitSeq c') \<and>
           res_CommitSeq r = (if res_Committed r then commitSeq c' else 0) \<and>
           (res_Reason r = [] \<longleftrightarrow> res_Committed r)"
proof (cases "validate_reads (latestVersion c) (tr_ReadSet req)")
  case (Some why)
  with assms show ?thesis
    by (auto simp: ImmediateCertifier_SubmitCommit_def occ_spec_def validate_reads_reason
        simp flip: validate_reads_coherent)
next
  case None
  let ?n = "commitSeq c + 1"
  have "advances (view s) (cr_Writes (commit_record ?n req))"
    using assms by (simp add: versions_in_advances coherent_def)
  then obtain s' where "Store_ApplyCommit ops s (commit_record ?n req) = (ApplyOk, s')" "ok s'"
    "view s' = view_writes (stamp ?n (tr_WriteSet req)) (view s)"
    using apply_ok [OF assms(1)] by force
  with None assms show ?thesis
    by (auto simp: ImmediateCertifier_SubmitCommit_def occ_spec_def Let_def map_simps
        simp flip: validate_reads_coherent intro!: coherent_commit)
qed

end

subsection \<open>Properties\<close>

text \<open>\<^bold>\<open>C5.\<close> One submission to the immediate certifier refines optimistic certification: from a
  certifier that agrees with its in-memory store and has a sequence number left, \<open>SubmitCommit\<close>
  commits exactly the requests whose reads are all current; it then installs every write under the
  next sequence number and returns that number, and otherwise changes nothing and gives a reason.
  The store never refuses the record, and certifier and store agree again afterwards.\<close>

theorem immediate_submit_refines:
  assumes "mem_wf s" "coherent (mem_view s) c" "seq_room (commitSeq c)"
  shows "\<exists>r c' s'. ImmediateCertifier_SubmitCommit MemStore_ops c s req = (Inr r, c', s') \<and> mem_wf s' \<and>
           coherent (mem_view s') c' \<and> res_TxnID r = tr_TxnID req \<and>
           occ_spec (mem_view s) (commitSeq c) req = (res_Committed r, mem_view s', commitSeq c') \<and>
           res_CommitSeq r = (if res_Committed r then commitSeq c' else 0) \<and>
           (res_Reason r = [] \<longleftrightarrow> res_Committed r)"
  using assms by (rule mem.submit_refines)

theorem immediate_submit_refines_witness:
  "\<exists>r c' s'. ImmediateCertifier_SubmitCommit MemStore_ops \<lparr>latestVersion = [(''x'', 3)], commitSeq = 3\<rparr>
       (store_with ''x'' ''a'' 3) (request ''t'' [(''x'', 3)] [(''x'', ''b'')]) = (Inr r, c', s') \<and>
     coherent (mem_view s') c' \<and> res_Committed r \<and> res_CommitSeq r = 4 \<and> mem_view s' = [''x'' \<mapsto> (''b'', 4)]"
  using immediate_submit_refines [of "store_with ''x'' ''a'' 3" "\<lparr>latestVersion = [(''x'', 3)], commitSeq = 3\<rparr>"
      "request ''t'' [(''x'', 3)] [(''x'', ''b'')]"]
  by (auto simp: coherent_store_with seq_room_def occ_spec_def reads_current_def ver_of_def view_writes_def stamp_def
      split: if_splits)

text \<open>\<^bold>\<open>C27.\<close> Loading data and then calling \<open>SyncFromStorage\<close> brings any certifier into agreement with
  the store, whatever its version map held before, and never lowers its sequence counter, although
  loading resets the version of every loaded key to 1.\<close>

theorem load_then_sync_coherent:
  assumes "mem_wf s" "view_pos (mem_view s)" "gomap_wf d"
  shows "\<exists>c' s'. ImmediateCertifier_SyncFromStorage MemStore_ops c (MemStore_LoadInitialData s d) = (c', s') \<and>
           mem_wf s' \<and> coherent (mem_view s') c' \<and> commitSeq c \<le> commitSeq c' \<and>
           mem_view s' = mem_view s ++ (\<lambda>k. map_option (\<lambda>v. (v, 1)) (map_of d k))"
proof -
  let ?s = "MemStore_LoadInitialData s d"
  have "mem_wf ?s" using assms(1) by (rule mem_wf_ops)
  moreover have "view_pos (mem_view ?s)"
    using assms(2) by (auto simp: view_pos_def mem_view_load [OF assms(3)] map_add_def split: option.splits)
  ultimately show ?thesis
    using mem.sync_coherent [of ?s c] by (auto simp: mem_view_load [OF assms(3)])
qed

theorem load_then_sync_coherent_witness:
  "\<exists>c' s'. ImmediateCertifier_SyncFromStorage MemStore_ops \<lparr>latestVersion = [(''y'', 9)], commitSeq = 9\<rparr>
       (MemStore_LoadInitialData (store_with ''x'' ''a'' 3) [(''x'', ''b''), (''z'', ''c'')]) = (c', s') \<and>
     coherent (mem_view s') c' \<and> 9 \<le> commitSeq c' \<and> mem_view s' = [''x'' \<mapsto> (''b'', 1), ''z'' \<mapsto> (''c'', 1)]"
proof -
  have "view_pos (mem_view (store_with ''x'' ''a'' 3))" by (simp add: view_pos_def)
  moreover have "mem_view (store_with ''x'' ''a'' 3) ++
      (\<lambda>k. map_option (\<lambda>v. (v, 1)) (map_of [(''x'', ''b''), (''z'', ''c'')] k)) = [''x'' \<mapsto> (''b'', 1), ''z'' \<mapsto> (''c'', 1)]"
    by (auto simp: map_add_def fun_eq_iff)
  ultimately show ?thesis
    using load_then_sync_coherent [of "store_with ''x'' ''a'' 3" "[(''x'', ''b''), (''z'', ''c'')]"
        "\<lparr>latestVersion = [(''y'', 9)], commitSeq = 9\<rparr>"]
    by (auto simp: gomap_wf_def)
qed

lemma submit_other_keys:
  assumes "k \<notin> we_Key ` set (tr_WriteSet req)"
  shows "map_of (latestVersion (fst (snd (ImmediateCertifier_SubmitCommit ops c s req)))) k = map_of (latestVersion c) k"
proof -
  have "map_of (rev (map (\<lambda>w. (we_Key w, n)) (tr_WriteSet req))) k = None" for n :: uint64
    using assms by (simp add: map_of_eq_None_iff image_image)
  then show ?thesis
    by (auto simp: ImmediateCertifier_SubmitCommit_def Let_def map_simps map_add_def split: option.splits prod.splits apply_outcome.splits)
qed

lemma submits_other_keys:
  assumes "\<forall>(s, req) \<in> set later. k \<notin> we_Key ` set (tr_WriteSet req)"
  shows "map_of (latestVersion (fold (\<lambda>(s, req) c. fst (snd (ImmediateCertifier_SubmitCommit ops c s req))) later c)) k
    = map_of (latestVersion c) k"
  using assms by (induction later arbitrary: c) (auto simp: submit_other_keys)

text \<open>\<^bold>\<open>C39.\<close> A commit that the store refuses leaves the immediate certifier ahead of the store: it
  reports an abort, but its version map already carries the refused sequence number for every key of the
  write set. After any further requests that do not write such a key, a request that read it at another
  version than that number is aborted as stale, whatever the store has become; so a key whose version in
  the store is at most the counter cannot be read and committed. A blind write of the key that the store
  accepts, or \<open>SyncFromStorage\<close>, ends this.\<close>

theorem immediate_store_error_strands_key:
  assumes "validate_reads (latestVersion c) (tr_ReadSet req) = None"
    and "Store_ApplyCommit ops s (commit_record (commitSeq c + 1) req) = (ApplyErr e, s')"
    and "k \<in> we_Key ` set (tr_WriteSet req)"
    and "\<forall>(s, r) \<in> set later. k \<notin> we_Key ` set (tr_WriteSet r)"
    and "rd \<in> set (tr_ReadSet req')" "re_Key rd = k" "re_VersionSeen rd \<noteq> commitSeq c + 1"
  shows "\<exists>c' c''. ImmediateCertifier_SubmitCommit ops c s req = (Inr (aborted_result (tr_TxnID req) e), c', s') \<and>
    c'' = fold (\<lambda>(s, r) c. fst (snd (ImmediateCertifier_SubmitCommit ops c s r))) later c' \<and>
    (\<exists>why. ImmediateCertifier_SubmitCommit ops c'' s'' req' = (Inr (aborted_result (tr_TxnID req') why), c'', s''))"
proof -
  let ?c = "c\<lparr>commitSeq := commitSeq c + 1, latestVersion :=
    fold (\<lambda>w. AList.update (we_Key w) (commitSeq c + 1)) (tr_WriteSet req) (latestVersion c)\<rparr>"
  let ?c' = "fold (\<lambda>(s, r) c. fst (snd (ImmediateCertifier_SubmitCommit ops c s r))) later ?c"
  have "map_of (latestVersion ?c') k = Some (commitSeq c + 1)"
    unfolding submits_other_keys [OF assms(4)] using assms(3) by (simp add: map_simps)
  then have "validate_reads (latestVersion ?c') (tr_ReadSet req') \<noteq> None"
    using assms(5-7) by (auto simp: validate_reads_None simp del: map_of_gomap_update intro!: bexI [of _ rd])
  then have "\<exists>why. ImmediateCertifier_SubmitCommit ops ?c' s'' req' = (Inr (aborted_result (tr_TxnID req') why), ?c', s'')"
    by (auto simp: ImmediateCertifier_SubmitCommit_def)
  moreover have "ImmediateCertifier_SubmitCommit ops c s req = (Inr (aborted_result (tr_TxnID req) e), ?c, s')"
    using assms(1,2) by (simp add: ImmediateCertifier_SubmitCommit_def Let_def)
  ultimately show ?thesis by blast
qed

theorem immediate_store_error_strands_key_witness:
  "\<exists>e c' why. ImmediateCertifier_SubmitCommit MemStore_ops \<lparr>latestVersion = [], commitSeq = 0\<rparr>
       (store_with ''x'' ''a'' 5) (request ''t'' [] [(''x'', ''b'')])
         = (Inr (aborted_result ''t'' e), c', store_with ''x'' ''a'' 5) \<and>
     ImmediateCertifier_SubmitCommit MemStore_ops c' (store_with ''x'' ''a'' 5) (request ''u'' [(''x'', 5)] [(''x'', ''c'')])
         = (Inr (aborted_result ''u'' why), c', store_with ''x'' ''a'' 5)"
proof -
  have "\<exists>e. Store_ApplyCommit MemStore_ops (store_with ''x'' ''a'' 5) (commit_record 1 (request ''t'' [] [(''x'', ''b'')]))
       = (ApplyErr e, store_with ''x'' ''a'' 5)"
    by (simp add: MemStore_ops_def MemStore_ApplyCommit_def stamp_def)
  then show ?thesis
    using immediate_store_error_strands_key [of "\<lparr>latestVersion = [], commitSeq = 0\<rparr>" "request ''t'' [] [(''x'', ''b'')]"
        MemStore_ops "store_with ''x'' ''a'' 5" _ "store_with ''x'' ''a'' 5" "''x''" "[]" "\<lparr>re_Key = ''x'', re_VersionSeen = 5\<rparr>"
        "request ''u'' [(''x'', 5)] [(''x'', ''c'')]" "store_with ''x'' ''a'' 5"]
    by fastforce
qed

end
