(* ===== verification/Epoch.thy ===== *)
theory Epoch
  imports Immediate
begin

text \<open>
  The epoch certifier, \<open>src/pkg/ccaas/epoch.go\<close>.

  \<^item> \<open>EpochCertifier\<close> extends the record of the immediate certifier by the pending batch and the
    state of the ticker, the two signalling channels and the background goroutine.
  \<^item> A result channel (\<open>make(chan TxnResult, 1)\<close>) is a number; \<open>chans\<close> maps it to the value its
    buffer of one slot holds. A send to a full buffer blocks; a send under \<open>select\<close> with a
    \<open>default\<close> is dropped instead.
  \<^item> \<open>sort.Slice\<close> is the argument \<open>srt\<close> of \<open>processEpoch\<close>, with \<open>sortSlice_spec\<close> as what Go
    promises about it.
  \<^item> \<open>processEpoch\<close> is the whole body: the swap of the batch, the sort, the loop, and the deferred
    recovery that answers every submitter when the store panics.
\<close>

record pendingTxn =
  p_req :: TxnRequest
  p_resultCh :: nat

record EpochCertifier = ImmediateCertifier +
  currentBatch :: "pendingTxn list"
  epochDuration :: int
  ticker :: "bool option"
  stopCh_closed :: bool
  doneCh_closed :: bool
  runners :: nat

type_synonym chans = "(nat, TxnResult) gomap"

definition NewEpochCertifier :: "'s Store \<Rightarrow> 's \<Rightarrow> int \<Rightarrow> EpochCertifier \<times> 's" where
  "NewEpochCertifier ops s duration =
     (let (state, s') = Store_DumpState ops s;
          (lv, maxVersion) = load_versions state
      in (\<lparr>latestVersion = lv, commitSeq = maxVersion, currentBatch = [], epochDuration = duration,
           ticker = None, stopCh_closed = False, doneCh_closed = False, runners = 0\<rparr>, s'))"

definition EpochCertifier_SyncFromStorage ::
    "'s Store \<Rightarrow> EpochCertifier \<Rightarrow> 's \<Rightarrow> EpochCertifier \<times> 's" where
  "EpochCertifier_SyncFromStorage ops c s =
     (let (state, s') = Store_DumpState ops s;
          (lv, maxVersion) = load_versions state
      in (c\<lparr>latestVersion := lv,
            commitSeq := (if maxVersion > commitSeq c then maxVersion else commitSeq c)\<rparr>, s'))"

text \<open>\<open>time.NewTicker\<close> panics on a duration that is not positive; \<open>Stop\<close> panics before \<open>Start\<close>
  (the ticker is \<open>nil\<close>) and when it is called twice (the channel is closed).\<close>

definition EpochCertifier_Start :: "EpochCertifier \<Rightarrow> string + EpochCertifier" where
  "EpochCertifier_Start c =
     (if epochDuration c \<le> 0 then Inl ''non-positive interval for NewTicker''
      else Inr (c\<lparr>ticker := Some True, runners := runners c + 1\<rparr>))"

text \<open>The part of \<open>Stop\<close> before it waits for \<open>doneCh\<close>.\<close>

definition EpochCertifier_Stop :: "EpochCertifier \<Rightarrow> string + EpochCertifier" where
  "EpochCertifier_Stop c =
     (case ticker c of
        None \<Rightarrow> Inl ''invalid memory address or nil pointer dereference''
      | Some _ \<Rightarrow>
          if stopCh_closed c then Inl ''close of closed channel''
          else Inr (c\<lparr>ticker := Some False, stopCh_closed := True\<rparr>))"

text \<open>\<open>SubmitCommit\<close> up to the point where it blocks on its channel \<open>ch\<close>, and its last line, the
  receive, which is enabled once the buffer holds a result.\<close>

definition EpochCertifier_Submit :: "EpochCertifier \<Rightarrow> nat \<Rightarrow> TxnRequest \<Rightarrow> EpochCertifier" where
  "EpochCertifier_Submit c ch req =
     c\<lparr>currentBatch := currentBatch c @ [\<lparr>p_req = req, p_resultCh = ch\<rparr>]\<rparr>"

definition EpochCertifier_Receive :: "chans \<Rightarrow> nat \<Rightarrow> TxnResult option" where
  "EpochCertifier_Receive chs ch = map_of chs ch"

fun epoch_validate :: "(string, uint64) gomap \<Rightarrow> ReadEntry list \<Rightarrow> string option" where
  "epoch_validate lv [] = None"
| "epoch_validate lv (read # rest) =
     (case map_of lv (re_Key read) of
        Some currentVersion \<Rightarrow>
          if currentVersion \<noteq> re_VersionSeen read
          then Some (''stale read on key '' @ re_Key read @ '': expected version ''
                     @ fmt_d (re_VersionSeen read) @ '', found '' @ fmt_d currentVersion)
          else epoch_validate lv rest
      | None \<Rightarrow>
          if re_VersionSeen read \<noteq> 0
          then Some (''stale read on key '' @ re_Key read @ '': expected version ''
                     @ fmt_d (re_VersionSeen read) @ '', found 0'')
          else epoch_validate lv rest)"

fun write_conflict :: "(string, string) gomap \<Rightarrow> string \<Rightarrow> WriteEntry list \<Rightarrow> string option" where
  "write_conflict claimed txn [] = None"
| "write_conflict claimed txn (write # rest) =
     (case map_of claimed (we_Key write) of
        Some winner \<Rightarrow>
          if winner \<noteq> txn
          then Some (''write-write conflict on key '' @ we_Key write @ '': claimed by '' @ winner)
          else write_conflict claimed txn rest
      | None \<Rightarrow> write_conflict claimed txn rest)"

definition certifyTxn ::
    "'s Store \<Rightarrow> 'a ImmediateCertifier_scheme \<Rightarrow> (string, string) gomap \<Rightarrow> 's \<Rightarrow> TxnRequest \<Rightarrow>
       (string + TxnResult) \<times> 'a ImmediateCertifier_scheme \<times> (string, string) gomap \<times> 's" where
  "certifyTxn ops c claimed s req =
     (case epoch_validate (latestVersion c) (tr_ReadSet req) of
        Some why \<Rightarrow> (Inr (aborted_result (tr_TxnID req) why), c, claimed, s)
      | None \<Rightarrow>
          (case write_conflict claimed (tr_TxnID req) (tr_WriteSet req) of
             Some why \<Rightarrow> (Inr (aborted_result (tr_TxnID req) why), c, claimed, s)
           | None \<Rightarrow>
               let n = commitSeq c + 1;
                   claimed' = fold (\<lambda>w. AList.update (we_Key w) (tr_TxnID req)) (tr_WriteSet req) claimed;
                   (writes, lv) =
                     fold (\<lambda>w (writes, lv).
                             (writes @ [\<lparr>cw_Key = we_Key w, cw_Value = we_Value w, cw_NewVersion = n\<rparr>],
                              AList.update (we_Key w) n lv))
                          (tr_WriteSet req) ([], latestVersion c);
                   c' = c\<lparr>commitSeq := n, latestVersion := lv\<rparr>
               in (case Store_ApplyCommit ops s
                          \<lparr>cr_CommitSeq = n, cr_TxnID = tr_TxnID req, cr_Writes = writes\<rparr> of
                     (ApplyPanic p, s') \<Rightarrow> (Inl p, c', claimed', s')
                   | (_, s') \<Rightarrow> (Inr (committed_result (tr_TxnID req) n), c', claimed', s'))))"

datatype loop_end = LoopDone | LoopPanic string | LoopBlocked

fun epoch_loop ::
    "'s Store \<Rightarrow> 'a ImmediateCertifier_scheme \<Rightarrow> (string, string) gomap \<Rightarrow> 's \<Rightarrow> chans \<Rightarrow> pendingTxn list \<Rightarrow>
       loop_end \<times> 'a ImmediateCertifier_scheme \<times> 's \<times> chans" where
  "epoch_loop ops c claimed s chs [] = (LoopDone, c, s, chs)"
| "epoch_loop ops c claimed s chs (p # ps) =
     (case certifyTxn ops c claimed s (p_req p) of
        (Inl pmsg, c', claimed', s') \<Rightarrow> (LoopPanic pmsg, c', s', chs)
      | (Inr result, c', claimed', s') \<Rightarrow>
          if map_of chs (p_resultCh p) \<noteq> None then (LoopBlocked, c', s', chs)
          else epoch_loop ops c' claimed' s' (AList.update (p_resultCh p) result chs) ps)"

text \<open>The deferred recovery: a non-blocking send to every submitter of the batch.\<close>

definition recover_sends :: "string \<Rightarrow> pendingTxn list \<Rightarrow> chans \<Rightarrow> chans" where
  "recover_sends pmsg batch chs =
     fold (\<lambda>p chs. if map_of chs (p_resultCh p) = None
                   then AList.update (p_resultCh p)
                          (aborted_result (tr_TxnID (p_req p)) (''epoch panic: '' @ pmsg)) chs
                   else chs) batch chs"

definition processEpoch ::
    "'s Store \<Rightarrow> (pendingTxn list \<Rightarrow> pendingTxn list) \<Rightarrow> EpochCertifier \<Rightarrow> 's \<Rightarrow> chans \<Rightarrow>
       loop_end \<times> EpochCertifier \<times> 's \<times> chans" where
  "processEpoch ops srt c s chs =
     (let batch = currentBatch c; c0 = c\<lparr>currentBatch := []\<rparr> in
      if batch = [] then (LoopDone, c0, s, chs)
      else
        let sorted_batch = srt batch in
        (case epoch_loop ops c0 [] s chs sorted_batch of
           (LoopPanic pmsg, c', s', chs') \<Rightarrow>
             (LoopDone, c', s', recover_sends pmsg sorted_batch chs')
         | res \<Rightarrow> res))"

abbreviation txn_key :: "pendingTxn \<Rightarrow> string" where
  "txn_key p \<equiv> tr_TxnID (p_req p)"

subsection \<open>Specification of an epoch\<close>

text \<open>\<open>unclaimed cl i ws\<close>: no key of \<open>ws\<close> was claimed in this epoch by another transaction.
  \<open>epoch_spec\<close> certifies a list of requests in order against a view, with the claims as a map.\<close>

definition unclaimed :: "(string \<rightharpoonup> string) \<Rightarrow> string \<Rightarrow> WriteEntry list \<Rightarrow> bool" where
  "unclaimed cl i ws \<longleftrightarrow> (\<forall>w \<in> set ws. \<forall>j. cl (we_Key w) = Some j \<longrightarrow> j = i)"

definition claim :: "string \<Rightarrow> WriteEntry list \<Rightarrow> (string \<rightharpoonup> string) \<Rightarrow> (string \<rightharpoonup> string)" where
  "claim i ws cl = (\<lambda>k. if k \<in> we_Key ` set ws then Some i else cl k)"

fun epoch_spec ::
    "kv_view \<Rightarrow> uint64 \<Rightarrow> (string \<rightharpoonup> string) \<Rightarrow> TxnRequest list \<Rightarrow> bool list \<times> kv_view \<times> uint64" where
  "epoch_spec m n cl [] = ([], m, n)"
| "epoch_spec m n cl (req # rest) =
     (if reads_current m (tr_ReadSet req) \<and> unclaimed cl (tr_TxnID req) (tr_WriteSet req)
      then let (_, m', n') = occ_spec m n req;
               (ds, res) = epoch_spec m' n' (claim (tr_TxnID req) (tr_WriteSet req) cl) rest
           in (True # ds, res)
      else let (ds, res) = epoch_spec m n cl rest in (False # ds, res))"

subsection \<open>The life of a certifier\<close>

text \<open>
  The state is the certifier, its store and the result channels. \<open>Tick\<close> is one turn of the loop in
  \<open>run\<close> on the ticker, \<open>Drain\<close> its last turn on \<open>stopCh\<close>, after which the goroutine closes
  \<open>doneCh\<close> and returns. A tick may still sit in the ticker's channel when \<open>Stop\<close> is called, so a
  \<open>Tick\<close> is possible as long as the goroutine lives.
\<close>

datatype life_event = Start | Submit nat TxnRequest | Tick | Stop | Drain

type_synonym 's life_state = "EpochCertifier \<times> 's \<times> chans"

inductive epoch_life ::
    "'s Store \<Rightarrow> (pendingTxn list \<Rightarrow> pendingTxn list) \<Rightarrow> 's life_state \<Rightarrow> life_event \<Rightarrow> 's life_state \<Rightarrow> bool"
  for ops srt where
  life_start: "EpochCertifier_Start c = Inr c' \<Longrightarrow> epoch_life ops srt (c, s, chs) Start (c', s, chs)"
| life_submit: "ch \<notin> p_resultCh ` set (currentBatch c) \<Longrightarrow> map_of chs ch = None \<Longrightarrow>
    epoch_life ops srt (c, s, chs) (Submit ch req) (EpochCertifier_Submit c ch req, s, chs)"
| life_tick: "0 < runners c \<Longrightarrow> processEpoch ops srt c s chs = (LoopDone, c', s', chs') \<Longrightarrow>
    epoch_life ops srt (c, s, chs) Tick (c', s', chs')"
| life_stop: "EpochCertifier_Stop c = Inr c' \<Longrightarrow> epoch_life ops srt (c, s, chs) Stop (c', s, chs)"
| life_drain: "0 < runners c \<Longrightarrow> stopCh_closed c \<Longrightarrow> \<not> doneCh_closed c \<Longrightarrow>
    processEpoch ops srt c s chs = (LoopDone, c', s', chs') \<Longrightarrow>
    epoch_life ops srt (c, s, chs) Drain (c'\<lparr>runners := runners c' - 1, doneCh_closed := True\<rparr>, s', chs')"

inductive_cases life_submitE: "epoch_life ops srt (c, s, chs) (Submit ch req) t"

inductive epoch_runs ::
    "'s Store \<Rightarrow> (pendingTxn list \<Rightarrow> pendingTxn list) \<Rightarrow> 's life_state \<Rightarrow> life_event list \<Rightarrow> 's life_state \<Rightarrow> bool"
  for ops srt where
  runs_nil: "epoch_runs ops srt x [] x"
| runs_snoc: "epoch_runs ops srt x es y \<Longrightarrow> epoch_life ops srt y e z \<Longrightarrow> epoch_runs ops srt x (es @ [e]) z"

subsection \<open>One transaction\<close>

lemma epoch_validate_eq: "epoch_validate lv rs = validate_reads lv rs"
  by (induction rs) (auto split: option.splits)

lemma write_conflict_None: "write_conflict claimed i ws = None \<longleftrightarrow> unclaimed (map_of claimed) i ws"
  by (induction ws) (auto simp: unclaimed_def split: option.splits)

lemma write_conflict_reason: "write_conflict claimed i ws = Some why \<Longrightarrow> why \<noteq> []"
  by (induction ws) (auto split: option.splits if_splits)

lemma map_of_claimed:
  "map_of (fold (\<lambda>w. AList.update (we_Key w) i) ws claimed) = claim i ws (map_of claimed)"
  by (auto simp: map_simps claim_def map_add_def fun_eq_iff)

lemma commit_loop_eq:
  "fold (\<lambda>w (writes, lv).
           (writes @ [\<lparr>cw_Key = we_Key w, cw_Value = we_Value w, cw_NewVersion = n\<rparr>],
            AList.update (we_Key w) n lv)) ws (acc, lv)
   = (acc @ stamp n ws, fold (\<lambda>w. AList.update (we_Key w) n) ws lv)"
  by (induction ws arbitrary: acc lv) (auto simp: stamp_def)

lemma certifyTxn_id:
  "certifyTxn ops c cl s req = (Inr r, c', cl', s') \<Longrightarrow> res_TxnID r = tr_TxnID req"
  by (auto simp: certifyTxn_def Let_def split: option.splits prod.splits apply_outcome.splits)

lemma certifyTxn_abort:
  assumes "\<not> (epoch_validate (latestVersion c) (tr_ReadSet req) = None \<and>
              write_conflict cl (tr_TxnID req) (tr_WriteSet req) = None)"
  shows "\<exists>why. why \<noteq> [] \<and> certifyTxn ops c cl s req = (Inr (aborted_result (tr_TxnID req) why), c, cl, s)"
  using assms
  by (cases "epoch_validate (latestVersion c) (tr_ReadSet req)")
     (auto simp: certifyTxn_def epoch_validate_eq validate_reads_reason write_conflict_reason)

context store_contract
begin

lemma certify_refines:
  assumes "ok s" "coherent (view s) c" "seq_room (commitSeq c)"
  shows "\<exists>r c' cl' s'. certifyTxn ops c cl s req = (Inr r, c', cl', s') \<and> ok s' \<and> coherent (view s') c' \<and>
           (res_Committed r \<longleftrightarrow> reads_current (view s) (tr_ReadSet req) \<and>
              unclaimed (map_of cl) (tr_TxnID req) (tr_WriteSet req)) \<and>
           (if res_Committed r
            then occ_spec (view s) (commitSeq c) req = (True, view s', commitSeq c') \<and>
                 map_of cl' = claim (tr_TxnID req) (tr_WriteSet req) (map_of cl) \<and> res_CommitSeq r = commitSeq c'
            else c' = c \<and> cl' = cl \<and> s' = s \<and> res_Reason r \<noteq> [])"
proof (cases "epoch_validate (latestVersion c) (tr_ReadSet req) = None \<and>
              write_conflict cl (tr_TxnID req) (tr_WriteSet req) = None")
  case False
  then obtain why where "why \<noteq> []"
    "certifyTxn ops c cl s req = (Inr (aborted_result (tr_TxnID req) why), c, cl, s)"
    using certifyTxn_abort [OF False, of ops s] by blast
  moreover have "\<not> (reads_current (view s) (tr_ReadSet req) \<and>
      unclaimed (map_of cl) (tr_TxnID req) (tr_WriteSet req))"
    using False assms(2) by (simp add: epoch_validate_eq validate_reads_coherent write_conflict_None)
  ultimately show ?thesis using assms by (intro exI conjI) auto
next
  case True
  let ?n = "commitSeq c + 1"
  let ?rec = "\<lparr>cr_CommitSeq = ?n, cr_TxnID = tr_TxnID req, cr_Writes = stamp ?n (tr_WriteSet req)\<rparr>"
  have "advances (view s) (cr_Writes ?rec)"
    using assms by (simp add: versions_in_advances coherent_def)
  then obtain s' where "Store_ApplyCommit ops s ?rec = (ApplyOk, s')" "ok s'"
    "view s' = view_writes (stamp ?n (tr_WriteSet req)) (view s)"
    using apply_ok [OF assms(1)] by force
  moreover have "reads_current (view s) (tr_ReadSet req)"
    "unclaimed (map_of cl) (tr_TxnID req) (tr_WriteSet req)"
    using True assms(2) by (simp_all add: epoch_validate_eq validate_reads_coherent write_conflict_None)
  ultimately show ?thesis using True assms
    by (simp add: certifyTxn_def occ_spec_def Let_def commit_loop_eq map_of_claimed)
       (simp add: coherent_commit map_simps)
qed

lemma new_epoch_coherent:
  assumes "ok s" "view_pos (view s)"
  shows "\<exists>c s'. NewEpochCertifier ops s duration = (c, s') \<and> ok s' \<and> view s' = view s \<and> coherent (view s) c"
  using dump_coherent [OF assms, where 'a = "unit EpochCertifier_ext"]
  by (auto simp: NewEpochCertifier_def split_beta)

lemma sync_epoch_coherent:
  assumes "ok s" "view_pos (view s)"
  shows "\<exists>c' s'. EpochCertifier_SyncFromStorage ops c s = (c', s') \<and> ok s' \<and> view s' = view s \<and>
           coherent (view s) c' \<and> commitSeq c \<le> commitSeq c' \<and> currentBatch c' = currentBatch c"
  using dump_coherent [OF assms, where 'a = "unit EpochCertifier_ext"]
  by (auto simp: EpochCertifier_SyncFromStorage_def split_beta)

text \<open>The whole loop: the decisions, the store and the counter are those of \<open>epoch_spec\<close>.\<close>

lemma loop_refines:
  assumes "ok s" "coherent (view s) c" "unat (commitSeq c) + length ps < 2 ^ 64"
    and "distinct (map p_resultCh ps)" "\<forall>p \<in> set ps. map_of chs (p_resultCh p) = None"
  shows "\<exists>c' s' chs'. epoch_loop ops c cl s chs ps = (LoopDone, c', s', chs') \<and> ok s' \<and> coherent (view s') c' \<and>
           (\<forall>ch. ch \<notin> p_resultCh ` set ps \<longrightarrow> map_of chs' ch = map_of chs ch) \<and>
           epoch_spec (view s) (commitSeq c) (map_of cl) (map p_req ps)
             = (map (\<lambda>p. res_Committed (the (map_of chs' (p_resultCh p)))) ps, view s', commitSeq c')"
  using assms
proof (induction ps arbitrary: s c cl chs)
  case Nil
  then show ?case by simp
next
  case (Cons p ps)
  let ?req = "p_req p"
  have room: "seq_room (commitSeq c)" using Cons.prems(3) by (simp add: seq_room_def)
  obtain r c1 cl1 s1 where step: "certifyTxn ops c cl s ?req = (Inr r, c1, cl1, s1)" "ok s1" "coherent (view s1) c1"
    and dec: "res_Committed r \<longleftrightarrow> reads_current (view s) (tr_ReadSet ?req) \<and>
                unclaimed (map_of cl) (tr_TxnID ?req) (tr_WriteSet ?req)"
    and eff: "if res_Committed r
              then occ_spec (view s) (commitSeq c) ?req = (True, view s1, commitSeq c1) \<and>
                   map_of cl1 = claim (tr_TxnID ?req) (tr_WriteSet ?req) (map_of cl) \<and> res_CommitSeq r = commitSeq c1
              else c1 = c \<and> cl1 = cl \<and> s1 = s \<and> res_Reason r \<noteq> []"
    using certify_refines [OF Cons.prems(1,2) room, of cl ?req] by blast
  let ?chs = "AList.update (p_resultCh p) r chs"
  have "unat (commitSeq c1) \<le> unat (commitSeq c) + 1"
    using eff unat_inc64_le [of "commitSeq c"] by (auto simp: occ_spec_def split: if_splits)
  then have "unat (commitSeq c1) + length ps < 2 ^ 64" using Cons.prems(3) by simp
  note slots = fresh_slots [OF Cons.prems(4,5)]
  with \<open>unat (commitSeq c1) + length ps < 2 ^ 64\<close> obtain c' s' chs' where IH: "epoch_loop ops c1 cl1 s1 ?chs ps = (LoopDone, c', s', chs')"
    "ok s'" "coherent (view s') c'" "\<forall>ch. ch \<notin> p_resultCh ` set ps \<longrightarrow> map_of chs' ch = map_of ?chs ch"
    "epoch_spec (view s1) (commitSeq c1) (map_of cl1) (map p_req ps)
       = (map (\<lambda>p. res_Committed (the (map_of chs' (p_resultCh p)))) ps, view s', commitSeq c')"
    using Cons.IH [OF step(2,3)] by blast
  from IH(4) slots(3) have "map_of chs' (p_resultCh p) = Some r" by simp
  with IH dec eff step(1) Cons.prems(5) show ?case
    by (cases "res_Committed r") (auto split: prod.splits)
qed

end

subsection \<open>Every submitter of a batch is answered\<close>

text \<open>This holds for any store, one that fails or panics included.\<close>

lemma epoch_loop_answers:
  assumes "distinct (map p_resultCh ps)" "\<forall>p \<in> set ps. map_of chs (p_resultCh p) = None"
    and "epoch_loop ops c cl s chs ps = (e, c', s', chs')"
  shows "e \<noteq> LoopBlocked"
    and "\<forall>p \<in> set ps. \<forall>r. map_of chs' (p_resultCh p) = Some r \<longrightarrow> res_TxnID r = txn_key p"
    and "e = LoopDone \<Longrightarrow> \<forall>p \<in> set ps. map_of chs' (p_resultCh p) \<noteq> None"
    and "\<forall>ch. ch \<notin> p_resultCh ` set ps \<longrightarrow> map_of chs' ch = map_of chs ch"
proof -
  have "e \<noteq> LoopBlocked \<and>
    (\<forall>p \<in> set ps. \<forall>r. map_of chs' (p_resultCh p) = Some r \<longrightarrow> res_TxnID r = txn_key p) \<and>
    (e = LoopDone \<longrightarrow> (\<forall>p \<in> set ps. map_of chs' (p_resultCh p) \<noteq> None)) \<and>
    (\<forall>ch. ch \<notin> p_resultCh ` set ps \<longrightarrow> map_of chs' ch = map_of chs ch)"
    using assms
  proof (induction ps arbitrary: c cl s chs)
    case Nil
    then show ?case by simp
  next
    case (Cons p ps)
    obtain o1 c1 cl1 s1 where step: "certifyTxn ops c cl s (p_req p) = (o1, c1, cl1, s1)" by (metis prod_cases4)
    show ?case
    proof (cases o1)
      case (Inl pmsg)
      with step Cons.prems show ?thesis by auto
    next
      case (Inr r)
      let ?chs = "AList.update (p_resultCh p) r chs"
      have rest: "epoch_loop ops c1 cl1 s1 ?chs ps = (e, c', s', chs')"
        using Cons.prems(2,3) step Inr by simp
      note slots = fresh_slots [OF Cons.prems(1,2)]
      note IH = Cons.IH [OF slots(2,1) rest]
      with slots(3) have "map_of chs' (p_resultCh p) = Some r" by simp
      with IH certifyTxn_id [OF step [unfolded Inr]] show ?thesis by auto
    qed
  qed
  then show "e \<noteq> LoopBlocked"
    and "\<forall>p \<in> set ps. \<forall>r. map_of chs' (p_resultCh p) = Some r \<longrightarrow> res_TxnID r = txn_key p"
    and "e = LoopDone \<Longrightarrow> \<forall>p \<in> set ps. map_of chs' (p_resultCh p) \<noteq> None"
    and "\<forall>ch. ch \<notin> p_resultCh ` set ps \<longrightarrow> map_of chs' ch = map_of chs ch"
    by blast+
qed

lemma recover_sends_lookup:
  assumes "distinct (map p_resultCh ps)"
  shows "map_of (recover_sends pmsg ps chs) ch =
    (if map_of chs ch = None \<and> ch \<in> p_resultCh ` set ps
     then Some (aborted_result (txn_key (the (find (\<lambda>p. p_resultCh p = ch) ps))) (''epoch panic: '' @ pmsg))
     else map_of chs ch)"
  using assms by (induction ps arbitrary: chs) (auto simp: recover_sends_def)

lemma find_distinct:
  "distinct (map f ps) \<Longrightarrow> p \<in> set ps \<Longrightarrow> find (\<lambda>q. f q = f p) ps = Some p"
  by (induction ps) auto

subsection \<open>Frame\<close>

text \<open>Certification writes the version map and the counter and nothing else.\<close>

lemma certifyTxn_frame:
  "certifyTxn ops c cl s req = (r, c', cl', s') \<Longrightarrow>
   c' = c\<lparr>commitSeq := commitSeq c', latestVersion := latestVersion c'\<rparr>"
  by (auto simp: certifyTxn_def Let_def split: option.splits prod.splits apply_outcome.splits)

lemma epoch_loop_frame:
  "epoch_loop ops c cl s chs ps = (e, c', s', chs') \<Longrightarrow>
   c' = c\<lparr>commitSeq := commitSeq c', latestVersion := latestVersion c'\<rparr>"
proof (induction ps arbitrary: c cl s chs)
  case Nil
  then show ?case by simp
next
  case (Cons p ps)
  obtain o1 c1 cl1 s1 where step: "certifyTxn ops c cl s (p_req p) = (o1, c1, cl1, s1)" by (metis prod_cases4)
  have "c' = c1\<lparr>commitSeq := commitSeq c', latestVersion := latestVersion c'\<rparr>"
    using Cons step by (auto split: sum.splits if_splits)
  moreover have "c1 = c\<lparr>commitSeq := commitSeq c1, latestVersion := latestVersion c1\<rparr>"
    by (rule certifyTxn_frame [OF step])
  ultimately show ?case by (metis ImmediateCertifier.update_convs ImmediateCertifier.surjective)
qed

lemma processEpoch_frame:
  "processEpoch ops srt c s chs = (e, c', s', chs') \<Longrightarrow>
   c' = c\<lparr>currentBatch := [], commitSeq := commitSeq c', latestVersion := latestVersion c'\<rparr>"
proof (cases "currentBatch c = []")
  case False
  assume "processEpoch ops srt c s chs = (e, c', s', chs')"
  moreover obtain e1 c1 s1 chs1 where
    run: "epoch_loop ops (c\<lparr>currentBatch := []\<rparr>) [] s chs (srt (currentBatch c)) = (e1, c1, s1, chs1)"
    by (metis prod_cases4)
  ultimately have "c' = c1" using False by (auto simp: processEpoch_def split: loop_end.splits)
  with epoch_loop_frame [OF run] show ?thesis by simp
qed (auto simp: processEpoch_def)

lemma processEpoch_batch: "processEpoch ops srt c s chs = (e, c', s', chs') \<Longrightarrow> currentBatch c' = []"
  by (drule processEpoch_frame, drule arg_cong [where f = currentBatch], simp)

lemma processEpoch_runners: "processEpoch ops srt c s chs = (e, c', s', chs') \<Longrightarrow> runners c' = runners c"
  by (drule processEpoch_frame, drule arg_cong [where f = runners], simp)

lemma sorted_batch_facts:
  assumes "sortSlice_spec txn_key srt"
  shows "set (srt xs) = set xs" "length (srt xs) = length xs"
    "distinct (map p_resultCh (srt xs)) \<longleftrightarrow> distinct (map p_resultCh xs)"
proof -
  have m: "mset (srt xs) = mset xs" using assms by (simp add: sortSlice_spec_def)
  then show "set (srt xs) = set xs" by (rule mset_eq_setD)
  from m show "length (srt xs) = length xs" by (rule mset_eq_length)
  from m show "distinct (map p_resultCh (srt xs)) \<longleftrightarrow> distinct (map p_resultCh xs)"
    by (metis mset_map mset_eq_imp_distinct_iff)
qed

subsection \<open>Claims within an epoch\<close>

abbreviation answered_commit :: "chans \<Rightarrow> pendingTxn \<Rightarrow> bool" where
  "answered_commit chs p \<equiv> \<exists>r. map_of chs (p_resultCh p) = Some r \<and> res_Committed r"

abbreviation write_keys :: "pendingTxn \<Rightarrow> string set" where
  "write_keys p \<equiv> we_Key ` set (tr_WriteSet (p_req p))"

lemma certifyTxn_claims:
  "certifyTxn ops c cl s req = (Inr r, c', cl', s') \<Longrightarrow>
   if res_Committed r then unclaimed (map_of cl) (tr_TxnID req) (tr_WriteSet req) \<and>
     map_of cl' = claim (tr_TxnID req) (tr_WriteSet req) (map_of cl)
   else cl' = cl"
  by (auto simp: certifyTxn_def Let_def write_conflict_None map_of_claimed
      split: option.splits prod.splits apply_outcome.splits)

lemma unclaimed_claim_disjoint:
  assumes "unclaimed (claim i ws cl) j ws'" "i \<noteq> j"
  shows "we_Key ` set ws \<inter> we_Key ` set ws' = {}"
proof -
  have "we_Key w \<notin> we_Key ` set ws" if "w \<in> set ws'" for w
    using assms that by (auto simp: unclaimed_def claim_def)
  then have "\<forall>k \<in> we_Key ` set ws'. k \<notin> we_Key ` set ws" by simp
  then show ?thesis by blast
qed

lemma unclaimed_claim_mono:
  assumes "unclaimed (claim i ws cl) j ws'" "unclaimed cl i ws"
  shows "unclaimed cl j ws'"
  using assms unfolding unclaimed_def claim_def by (smt (verit) image_iff option.inject)

lemma epoch_loop_claims:
  assumes "distinct (map p_resultCh ps)" "\<forall>p \<in> set ps. map_of chs (p_resultCh p) = None"
    and "epoch_loop ops c cl s chs ps = (e, c', s', chs')"
  shows "(\<forall>p \<in> set ps. answered_commit chs' p \<longrightarrow> unclaimed (map_of cl) (txn_key p) (tr_WriteSet (p_req p))) \<and>
    (\<forall>p \<in> set ps. \<forall>q \<in> set ps. answered_commit chs' p \<longrightarrow> answered_commit chs' q \<longrightarrow>
       txn_key p \<noteq> txn_key q \<longrightarrow> write_keys p \<inter> write_keys q = {})"
  using assms
proof (induction ps arbitrary: c cl s chs)
  case Nil
  then show ?case by simp
next
  case (Cons p ps)
  obtain o1 c1 cl1 s1 where step: "certifyTxn ops c cl s (p_req p) = (o1, c1, cl1, s1)" by (metis prod_cases4)
  show ?case
  proof (cases o1)
    case (Inl pmsg)
    with step Cons.prems show ?thesis by auto
  next
    case (Inr r)
    let ?chs = "AList.update (p_resultCh p) r chs"
    have rest: "epoch_loop ops c1 cl1 s1 ?chs ps = (e, c', s', chs')"
      using Cons.prems(2,3) step Inr by simp
    note slots = fresh_slots [OF Cons.prems(1,2)]
    note IH = Cons.IH [OF slots(2,1) rest]
    have p: "map_of chs' (p_resultCh p) = Some r"
      using epoch_loop_answers(4) [OF slots(2,1) rest] slots(3) by simp
    note cl = certifyTxn_claims [OF step [unfolded Inr]]
    have tail: "unclaimed (map_of cl) (txn_key q) (tr_WriteSet (p_req q))" if "q \<in> set ps" "answered_commit chs' q" for q
      using IH that cl by (cases "res_Committed r") (auto intro: unclaimed_claim_mono)
    have head: "write_keys p \<inter> write_keys q = {}"
      if "q \<in> set ps" "answered_commit chs' q" "res_Committed r" "txn_key p \<noteq> txn_key q" for q
      using IH that cl unclaimed_claim_disjoint [of "txn_key p" "tr_WriteSet (p_req p)" "map_of cl" "txn_key q"] by auto
    show ?thesis using IH p cl tail head by (auto simp: Int_commute)
  qed
qed

subsection \<open>Concrete batches\<close>

abbreviation pending :: "string \<Rightarrow> (string \<times> uint64) list \<Rightarrow> (string \<times> string) list \<Rightarrow> nat \<Rightarrow> pendingTxn" where
  "pending i rs ws ch \<equiv> \<lparr>p_req = request i rs ws, p_resultCh = ch\<rparr>"

abbreviation epoch_with :: "(string, uint64) gomap \<Rightarrow> uint64 \<Rightarrow> pendingTxn list \<Rightarrow> EpochCertifier" where
  "epoch_with lv n b \<equiv> \<lparr>latestVersion = lv, commitSeq = n, currentBatch = b, epochDuration = 10, ticker = Some True,
     stopCh_closed = False, doneCh_closed = False, runners = 1\<rparr>"

text \<open>A loop that ends has added one answer per transaction, in the order of the batch.\<close>

lemma update_fresh: "map_of m k = None \<Longrightarrow> AList.update k v m = m @ [(k, v)]"
  by (induction m) (auto split: if_splits)

lemma epoch_loop_appends:
  assumes "distinct (map p_resultCh ps)" "\<forall>p \<in> set ps. map_of chs (p_resultCh p) = None"
    and "epoch_loop ops c cl s chs ps = (LoopDone, c', s', chs')"
  shows "\<exists>rs. chs' = chs @ rs \<and> map fst rs = map p_resultCh ps \<and> map (\<lambda>x. res_TxnID (snd x)) rs = map txn_key ps"
  using assms
proof (induction ps arbitrary: c cl s chs)
  case Nil
  then show ?case by simp
next
  case (Cons p ps)
  obtain o1 c1 cl1 s1 where step: "certifyTxn ops c cl s (p_req p) = (o1, c1, cl1, s1)" by (metis prod_cases4)
  with Cons.prems(3) obtain r where r: "o1 = Inr r" by (cases o1) auto
  note slots = fresh_slots [OF Cons.prems(1,2)]
  have "epoch_loop ops c1 cl1 s1 (AList.update (p_resultCh p) r chs) ps = (LoopDone, c', s', chs')"
    using Cons.prems(2,3) step r by simp
  from Cons.IH [OF slots(2,1) this] obtain rs where "chs' = AList.update (p_resultCh p) r chs @ rs"
    "map fst rs = map p_resultCh ps" "map (\<lambda>x. res_TxnID (snd x)) rs = map txn_key ps" by blast
  with update_fresh [of chs "p_resultCh p" r] Cons.prems(2) certifyTxn_id [OF step [unfolded r]] show ?case
    by (intro exI [of _ "(p_resultCh p, r) # rs"]) simp
qed

subsection \<open>Synchronisation\<close>

text \<open>A certifier that agrees with its store stays as it is.\<close>

context store_contract
begin

lemma coherent_pos: "coherent (view s) c \<Longrightarrow> view_pos (view s)"
  by (auto simp: coherent_def versions_in_def view_pos_def)

lemma coherent_dump_bound:
  assumes "ok s" "coherent (view s) c"
  shows "snd (load_versions (fst (Store_DumpState ops s))) \<le> commitSeq c"
  using assms by (intro dump_seq_bound) (auto simp: coherent_def versions_in_def)

lemma sync_keeps:
  assumes "ok s" "coherent (view s) c" "ImmediateCertifier_SyncFromStorage ops c s = (c', s')"
  shows "ok s' \<and> view s' = view s \<and> coherent (view s) c' \<and> commitSeq c' = commitSeq c"
  using sync_coherent [OF assms(1) coherent_pos [OF assms(2)], of c] coherent_dump_bound [OF assms(1,2)] assms(3)
  by (auto simp: ImmediateCertifier_SyncFromStorage_def split_beta)

lemma sync_epoch_keeps:
  assumes "ok s" "coherent (view s) c" "EpochCertifier_SyncFromStorage ops c s = (c', s')"
  shows "ok s' \<and> view s' = view s \<and> coherent (view s) c' \<and> commitSeq c' = commitSeq c"
  using sync_epoch_coherent [OF assms(1) coherent_pos [OF assms(2)], of c] coherent_dump_bound [OF assms(1,2)] assms(3)
  by (auto simp: EpochCertifier_SyncFromStorage_def split_beta)

end

subsection \<open>A whole epoch\<close>

context store_contract
begin

lemma processEpoch_refines:
  assumes "ok s" "coherent (view s) c" "unat (commitSeq c) + length (currentBatch c) < 2 ^ 64"
    and "sortSlice_spec txn_key srt" "distinct (map p_resultCh (currentBatch c))"
    and "\<forall>p \<in> set (currentBatch c). map_of chs (p_resultCh p) = None"
  shows "\<exists>c' s' chs'. processEpoch ops srt c s chs = (LoopDone, c', s', chs') \<and>
    ok s' \<and> coherent (view s') c' \<and>
    epoch_spec (view s) (commitSeq c) Map.empty (map p_req (srt (currentBatch c)))
      = (map (\<lambda>p. res_Committed (the (EpochCertifier_Receive chs' (p_resultCh p)))) (srt (currentBatch c)),
         view s', commitSeq c')"
proof (cases "currentBatch c = []")
  case True
  with assms(4) have "srt [] = []" by (metis length_0_conv sorted_batch_facts(2))
  with True assms(1,2) show ?thesis by (simp add: processEpoch_def coherent_def)
next
  case False
  note srt = sorted_batch_facts [OF assms(4), where xs = "currentBatch c"]
  have c0: "coherent (view s) (c\<lparr>currentBatch := []\<rparr>)" using assms(2) by (simp add: coherent_def)
  show ?thesis
    using loop_refines [OF assms(1) c0, of "srt (currentBatch c)" chs "[]"] assms(3,5,6) srt False
    by (auto simp: processEpoch_def EpochCertifier_Receive_def Let_def)
qed

end

subsection \<open>Properties\<close>

lemma processEpoch_answers:
  assumes "sortSlice_spec txn_key srt"
    and "distinct (map p_resultCh (currentBatch c))"
    and "\<forall>p \<in> set (currentBatch c). map_of chs (p_resultCh p) = None"
  shows "\<exists>c' s' chs'. processEpoch ops srt c s chs = (LoopDone, c', s', chs') \<and> currentBatch c' = [] \<and>
    (\<forall>p \<in> set (currentBatch c). \<exists>r. EpochCertifier_Receive chs' (p_resultCh p) = Some r \<and> res_TxnID r = txn_key p) \<and>
    (\<forall>ch. ch \<notin> p_resultCh ` set (currentBatch c) \<longrightarrow> map_of chs' ch = map_of chs ch)"
proof (cases "currentBatch c = []")
  case True
  then show ?thesis by (simp add: processEpoch_def)
next
  case False
  let ?b = "srt (currentBatch c)" and ?c0 = "c\<lparr>currentBatch := []\<rparr>"
  note srt = sorted_batch_facts [OF assms(1), where xs = "currentBatch c"]
  obtain e c' s' chs' where run: "epoch_loop ops ?c0 [] s chs ?b = (e, c', s', chs')" by (metis prod_cases4)
  have d: "distinct (map p_resultCh ?b)" "\<forall>p \<in> set ?b. map_of chs (p_resultCh p) = None"
    using assms(2,3) srt by simp_all
  note ans = epoch_loop_answers [OF d run]
  show ?thesis
  proof (cases e)
    case LoopDone
    with run False have eq: "processEpoch ops srt c s chs = (LoopDone, c', s', chs')" by (simp add: processEpoch_def)
    moreover have "\<exists>r. map_of chs' (p_resultCh p) = Some r \<and> res_TxnID r = txn_key p" if "p \<in> set (currentBatch c)" for p
      using ans(2,3) LoopDone srt(1) that by (metis not_None_eq)
    ultimately show ?thesis
      using processEpoch_batch [OF eq] ans(4) srt(1) by (auto simp: EpochCertifier_Receive_def)
  next
    case (LoopPanic pmsg)
    let ?chs = "recover_sends pmsg ?b chs'"
    from LoopPanic run False have eq: "processEpoch ops srt c s chs = (LoopDone, c', s', ?chs)"
      by (simp add: processEpoch_def)
    moreover have "\<exists>r. map_of ?chs (p_resultCh p) = Some r \<and> res_TxnID r = txn_key p" if "p \<in> set ?b" for p
      using ans(2) that find_distinct [OF d(1) that] by (auto simp: recover_sends_lookup [OF d(1)])
    ultimately show ?thesis
      using processEpoch_batch [OF eq] ans(4) srt(1)
      by (auto simp: EpochCertifier_Receive_def recover_sends_lookup [OF d(1)])
  next
    case LoopBlocked
    with ans(1) show ?thesis by simp
  qed
qed

text \<open>\<^bold>\<open>C3.\<close> Panic safety and liveness of a batch: for every store, one whose \<open>ApplyCommit\<close> fails
  or panics included, \<open>processEpoch\<close> runs to its end, empties the batch and leaves in the result
  channel of every submitter of the batch exactly one answer, which carries that submitter's
  transaction id; no other channel is touched.\<close>

theorem processEpoch_answers_all:
  assumes "sortSlice_spec txn_key srt"
    and "distinct (map p_resultCh (currentBatch c))"
    and "\<forall>p \<in> set (currentBatch c). map_of chs (p_resultCh p) = None"
  shows "\<exists>c' s' chs'. processEpoch ops srt c s chs = (LoopDone, c', s', chs') \<and> currentBatch c' = [] \<and>
    (\<forall>p \<in> set (currentBatch c). \<exists>r. EpochCertifier_Receive chs' (p_resultCh p) = Some r \<and> res_TxnID r = txn_key p) \<and>
    (\<forall>ch. ch \<notin> p_resultCh ` set (currentBatch c) \<longrightarrow> map_of chs' ch = map_of chs ch)"
  using assms by (rule processEpoch_answers)

theorem processEpoch_answers_all_witness:
  "\<exists>c' s' chs'. processEpoch (MemStore_ops\<lparr>Store_ApplyCommit := \<lambda>s r. (ApplyPanic ''boom'', s)\<rparr>) (sort_key txn_key)
       (epoch_with [] 0 [pending ''t2'' [] [(''x'', ''a'')] 0, pending ''t1'' [(''x'', 7)] [] 1]) NewMemStore []
         = (LoopDone, c', s', chs') \<and> currentBatch c' = [] \<and>
     map_option res_TxnID (EpochCertifier_Receive chs' 0) = Some ''t2'' \<and>
     map_option res_TxnID (EpochCertifier_Receive chs' 1) = Some ''t1'' \<and> EpochCertifier_Receive chs' 2 = None"
  using processEpoch_answers_all [OF sortSlice_sort_key,
      of "epoch_with [] 0 [pending ''t2'' [] [(''x'', ''a'')] 0, pending ''t1'' [(''x'', 7)] [] 1]" "[]"
         "MemStore_ops\<lparr>Store_ApplyCommit := \<lambda>s r. (ApplyPanic ''boom'', s)\<rparr>" NewMemStore]
  by (force simp: EpochCertifier_Receive_def)

text \<open>\<^bold>\<open>C8.\<close> Deterministic conflict resolution: when the transaction ids of a batch are distinct,
  the outcome of the epoch does not depend on the order in which the transactions arrived, nor on
  how \<open>sort.Slice\<close> treats equal elements.\<close>

theorem processEpoch_deterministic:
  assumes "sortSlice_spec txn_key srt" "sortSlice_spec txn_key srt'"
    and "mset batch' = mset (currentBatch c)" "distinct (map txn_key (currentBatch c))"
  shows "processEpoch ops srt' (c\<lparr>currentBatch := batch'\<rparr>) s chs = processEpoch ops srt c s chs"
proof -
  have "srt (currentBatch c) = srt' batch'"
    by (rule sortSlice_unique [OF assms(1,2) assms(3) [symmetric] assms(4)])
  moreover have "batch' = [] \<longleftrightarrow> currentBatch c = []" using assms(3) by (metis mset_zero_iff)
  ultimately show ?thesis by (simp add: processEpoch_def Let_def)
qed

theorem processEpoch_deterministic_witness:
  "processEpoch MemStore_ops (sort_key txn_key)
       (epoch_with [] 0 [pending ''t2'' [] [(''x'', ''b'')] 0, pending ''t1'' [] [(''x'', ''a'')] 1]) NewMemStore []
     = processEpoch MemStore_ops (sort_key txn_key)
       (epoch_with [] 0 [pending ''t1'' [] [(''x'', ''a'')] 1, pending ''t2'' [] [(''x'', ''b'')] 0]) NewMemStore []"
  using processEpoch_deterministic [OF sortSlice_sort_key sortSlice_sort_key,
      of "[pending ''t2'' [] [(''x'', ''b'')] 0, pending ''t1'' [] [(''x'', ''a'')] 1]"
         "epoch_with [] 0 [pending ''t1'' [] [(''x'', ''a'')] 1, pending ''t2'' [] [(''x'', ''b'')] 0]" MemStore_ops NewMemStore "[]"]
  by simp

text \<open>\<^bold>\<open>C4.\<close> An epoch refines its specification: from a certifier that agrees with its in-memory
  store, \<open>processEpoch\<close> decides each transaction of the sorted batch, moves the store and the counter
  as \<open>epoch_spec\<close> does (reads current at its turn, no key claimed by another transaction of the
  epoch), and the certifier agrees with the store again.\<close>

theorem processEpoch_refines_spec:
  assumes "mem_wf s" "coherent (mem_view s) c" "unat (commitSeq c) + length (currentBatch c) < 2 ^ 64"
    and "sortSlice_spec txn_key srt" "distinct (map p_resultCh (currentBatch c))"
    and "\<forall>p \<in> set (currentBatch c). map_of chs (p_resultCh p) = None"
  shows "\<exists>c' s' chs'. processEpoch MemStore_ops srt c s chs = (LoopDone, c', s', chs') \<and>
    mem_wf s' \<and> coherent (mem_view s') c' \<and>
    epoch_spec (mem_view s) (commitSeq c) Map.empty (map p_req (srt (currentBatch c)))
      = (map (\<lambda>p. res_Committed (the (EpochCertifier_Receive chs' (p_resultCh p)))) (srt (currentBatch c)),
         mem_view s', commitSeq c')"
  using assms by (rule mem.processEpoch_refines)

theorem processEpoch_refines_spec_witness:
  "\<exists>c' s' chs'. processEpoch MemStore_ops (sort_key txn_key)
       (epoch_with [(''x'', 3)] 3 [pending ''t'' [(''x'', 3)] [(''x'', ''b'')] 0]) (store_with ''x'' ''a'' 3) []
         = (LoopDone, c', s', chs') \<and> coherent (mem_view s') c' \<and> mem_view s' = [''x'' \<mapsto> (''b'', 4)] \<and>
     res_Committed (the (EpochCertifier_Receive chs' 0))"
  using processEpoch_refines_spec [of "store_with ''x'' ''a'' 3"
      "epoch_with [(''x'', 3)] 3 [pending ''t'' [(''x'', 3)] [(''x'', ''b'')] 0]" "sort_key txn_key" "[]"]
  by (auto simp: sortSlice_sort_key coherent_store_with occ_spec_def reads_current_def ver_of_def view_writes_def
      stamp_def unclaimed_def)

text \<open>\<^bold>\<open>C9.\<close> First writer wins within an epoch: whatever the store does, two transactions with
  different ids that the same epoch answers \<open>Committed\<close> write disjoint sets of keys.\<close>

theorem epoch_commits_write_disjoint:
  assumes "sortSlice_spec txn_key srt" "distinct (map p_resultCh (currentBatch c))"
    and "\<forall>p \<in> set (currentBatch c). map_of chs (p_resultCh p) = None"
    and "processEpoch ops srt c s chs = (e, c', s', chs')"
    and "p \<in> set (currentBatch c)" "EpochCertifier_Receive chs' (p_resultCh p) = Some rp" "res_Committed rp"
    and "q \<in> set (currentBatch c)" "EpochCertifier_Receive chs' (p_resultCh q) = Some rq" "res_Committed rq"
    and "txn_key p \<noteq> txn_key q"
  shows "write_keys p \<inter> write_keys q = {}"
proof -
  let ?b = "srt (currentBatch c)" and ?c0 = "c\<lparr>currentBatch := []\<rparr>"
  note srt = sorted_batch_facts [OF assms(1), where xs = "currentBatch c"]
  obtain e1 c1 s1 chs1 where run: "epoch_loop ops ?c0 [] s chs ?b = (e1, c1, s1, chs1)" by (metis prod_cases4)
  have d: "distinct (map p_resultCh ?b)" "\<forall>p \<in> set ?b. map_of chs (p_resultCh p) = None"
    using assms(2,3) srt by simp_all
  have "answered_commit chs1 x" if "x \<in> set ?b" "map_of chs' (p_resultCh x) = Some r" "res_Committed r" for x r
    using that assms(4,5) run d(1)
    by (cases e1) (auto simp: processEpoch_def recover_sends_lookup Let_def split: if_splits)
  then show ?thesis
    using epoch_loop_claims [OF d run] assms(5-11) srt(1) by (auto simp: EpochCertifier_Receive_def)
qed

theorem epoch_commits_write_disjoint_witness:
  "write_keys (pending ''t1'' [] [(''x'', ''a'')] 0) \<inter> write_keys (pending ''t2'' [] [(''y'', ''b'')] 1) = {}"
proof -
  let ?c = "epoch_with [] 0 [pending ''t1'' [] [(''x'', ''a'')] 0, pending ''t2'' [] [(''y'', ''b'')] 1]"
  let ?out = "processEpoch MemStore_ops (sort_key txn_key) ?c NewMemStore []"
  have r: "map_of (snd (snd (snd ?out))) 0 = Some (committed_result ''t1'' 1)"
    "map_of (snd (snd (snd ?out))) 1 = Some (committed_result ''t2'' 2)" by code_simp+
  show ?thesis
    by (rule epoch_commits_write_disjoint [OF sortSlice_sort_key, where c = ?c and ops = MemStore_ops and s = NewMemStore
          and chs = "[]" and e = "fst ?out" and c' = "fst (snd ?out)" and s' = "fst (snd (snd ?out))"
          and chs' = "snd (snd (snd ?out))" and rp = "committed_result ''t1'' 1" and rq = "committed_result ''t2'' 2"])
       (use r in \<open>simp_all add: EpochCertifier_Receive_def\<close>)
qed

text \<open>\<^bold>\<open>C37.\<close> The two certifiers agree: an epoch whose batch is one transaction answers it as the
  immediate certifier would from the same version map, counter and store, and leaves all three the
  same, whenever the store accepts the commit record.\<close>

theorem epoch_singleton_is_immediate:
  assumes "currentBatch c = [p]" "sortSlice_spec txn_key srt" "map_of chs (p_resultCh p) = None"
    and "fst (Store_ApplyCommit ops s (commit_record (commitSeq c + 1) (p_req p))) = ApplyOk"
  shows "\<exists>r c' s'. processEpoch ops srt c s chs = (LoopDone, c', s', AList.update (p_resultCh p) r chs) \<and>
    ImmediateCertifier_SubmitCommit ops (ImmediateCertifier.truncate c) s (p_req p)
      = (Inr r, ImmediateCertifier.truncate c', s')"
proof -
  have "srt [p] = [p]" using sorted_batch_facts(1,2) [OF assms(2), where xs = "[p]"]
    by (cases "srt [p]") auto
  moreover obtain s' where "Store_ApplyCommit ops s (commit_record (commitSeq c + 1) (p_req p)) = (ApplyOk, s')"
    using assms(4) by (metis eq_fst_iff)
  moreover have "write_conflict [] (tr_TxnID (p_req p)) ws = None" for ws by (induction ws) auto
  ultimately show ?thesis using assms(1,3)
    by (cases "validate_reads (latestVersion c) (tr_ReadSet (p_req p))")
       (simp_all add: processEpoch_def certifyTxn_def ImmediateCertifier_SubmitCommit_def epoch_validate_eq
          commit_loop_eq Let_def ImmediateCertifier.truncate_def commit_record_def stamp_def)
qed

theorem epoch_singleton_is_immediate_witness:
  "\<exists>r c' s'. processEpoch MemStore_ops (sort_key txn_key)
       (epoch_with [(''x'', 3)] 3 [pending ''t'' [(''x'', 3)] [(''x'', ''b'')] 0]) (store_with ''x'' ''a'' 3) []
         = (LoopDone, c', s', [(0, r)]) \<and>
     ImmediateCertifier_SubmitCommit MemStore_ops \<lparr>latestVersion = [(''x'', 3)], commitSeq = 3\<rparr> (store_with ''x'' ''a'' 3)
       (request ''t'' [(''x'', 3)] [(''x'', ''b'')]) = (Inr r, ImmediateCertifier.truncate c', s')"
  using epoch_singleton_is_immediate [OF _ sortSlice_sort_key,
      of "epoch_with [(''x'', 3)] 3 [pending ''t'' [(''x'', 3)] [(''x'', ''b'')] 0]"
         "pending ''t'' [(''x'', 3)] [(''x'', ''b'')] 0" "[]" MemStore_ops "store_with ''x'' ''a'' 3"]
  by (simp add: MemStore_ops_def MemStore_ApplyCommit_def commit_record_def ImmediateCertifier.truncate_def)

text \<open>\<^bold>\<open>C32.\<close> The epoch certifier drops the error of \<open>ApplyCommit\<close>: a transaction whose reads pass and
  whose keys are unclaimed is answered \<open>Committed\<close> even when the in-memory store refuses the commit
  record (a written key already has a version at or above the new one) and keeps its old contents.\<close>

theorem epoch_reports_commit_on_store_error:
  assumes "epoch_validate (latestVersion c) (tr_ReadSet req) = None"
    and "write_conflict claimed (tr_TxnID req) (tr_WriteSet req) = None"
    and "w \<in> set (tr_WriteSet req)" "mem_view s (we_Key w) = Some (v, n)" "commitSeq c + 1 \<le> n"
  shows "\<exists>r c' claimed'. certifyTxn MemStore_ops c claimed s req = (Inr r, c', claimed', s) \<and> res_Committed r"
proof -
  let ?r = "\<lparr>cr_CommitSeq = commitSeq c + 1, cr_TxnID = tr_TxnID req,
             cr_Writes = stamp (commitSeq c + 1) (tr_WriteSet req)\<rparr>"
  have "\<not> advances (mem_view s) (cr_Writes ?r)"
    using assms(3-5) by (force simp: advances_def stamp_def)
  then have "check_monotonic (ms_data s) (stamp (commitSeq c + 1) (tr_WriteSet req)) \<noteq> None"
    by (simp add: check_monotonic_None)
  then obtain e where "Store_ApplyCommit MemStore_ops s ?r = (ApplyErr e, s)"
    by (auto simp: MemStore_ops_def MemStore_ApplyCommit_def)
  with assms(1,2) show ?thesis by (simp add: certifyTxn_def commit_loop_eq Let_def)
qed

theorem epoch_reports_commit_on_store_error_witness:
  "\<exists>r c' claimed'. certifyTxn MemStore_ops \<lparr>latestVersion = [], commitSeq = 0\<rparr> [] (store_with ''x'' ''a'' 5)
       (request ''t'' [] [(''x'', ''b'')]) = (Inr r, c', claimed', store_with ''x'' ''a'' 5) \<and> res_Committed r"
  using epoch_reports_commit_on_store_error [of "\<lparr>latestVersion = [], commitSeq = 0\<rparr>" "request ''t'' [] [(''x'', ''b'')]" "[]"
      "\<lparr>we_Key = ''x'', we_Value = ''b''\<rparr>" "store_with ''x'' ''a'' 5" "''a''" 5]
  by simp

lemma drained_runs:
  assumes "epoch_runs ops srt x es y" "Start \<notin> set es" "runners (fst x) = 0"
  shows "runners (fst y) = 0 \<and> snd (snd y) = snd (snd x)"
  using assms
proof (induction rule: epoch_runs.induct)
  case (runs_snoc x es y e z)
  then have "runners (fst y) = 0" "snd (snd y) = snd (snd x)" "e \<noteq> Start" by auto
  with runs_snoc.hyps(2) show ?case
    by (cases rule: epoch_life.cases)
       (auto simp: EpochCertifier_Submit_def EpochCertifier_Stop_def split: option.splits if_splits)
qed simp

text \<open>\<^bold>\<open>C33.\<close> After \<open>Stop\<close> has drained the certifier, a submission is never answered: whatever happens
  later (short of a second \<open>Start\<close>), the result channel of a transaction submitted after the drain
  stays empty, so its \<open>SubmitCommit\<close> blocks for ever.\<close>

theorem epoch_submit_after_drain_blocks:
  assumes "runners c = 1" "epoch_life ops srt (c, s, chs) Drain (c1, s1, chs1)"
    and "epoch_life ops srt (c1, s1, chs1) (Submit ch req) x"
    and "epoch_runs ops srt x es (c', s', chs')" "Start \<notin> set es"
  shows "EpochCertifier_Receive chs' ch = None"
proof -
  have x: "x = (EpochCertifier_Submit c1 ch req, s1, chs1)" "map_of chs1 ch = None"
    using assms(3) by (auto elim: life_submitE)
  obtain c0 where c0: "processEpoch ops srt c s chs = (LoopDone, c0, s1, chs1)"
    "c1 = c0\<lparr>runners := runners c0 - 1, doneCh_closed := True\<rparr>"
    using assms(2) by (cases rule: epoch_life.cases) auto
  have "runners c0 = runners c" using processEpoch_runners [OF c0(1)] .
  with assms(1) c0(2) x(1) have "runners (fst x) = 0" by (simp add: EpochCertifier_Submit_def)
  with drained_runs [OF assms(4,5)] x show ?thesis by (simp add: EpochCertifier_Receive_def)
qed

theorem epoch_submit_after_drain_blocks_witness:
  "\<exists>c' s' chs'. epoch_runs MemStore_ops (sort_key txn_key) (epoch_with [] 0 [], NewMemStore, [])
       [Stop, Drain, Submit 0 (request ''t'' [] [])] (c', s', chs') \<and>
     currentBatch c' = [pending ''t'' [] [] 0] \<and> EpochCertifier_Receive chs' 0 = None"
proof -
  let ?life = "epoch_life MemStore_ops (sort_key txn_key)" and ?runs = "epoch_runs MemStore_ops (sort_key txn_key)"
  let ?c0 = "epoch_with [] 0 []" and ?req = "request ''t'' [] []"
  let ?c1 = "?c0\<lparr>ticker := Some False, stopCh_closed := True\<rparr>"
  let ?c2 = "?c1\<lparr>runners := 0, doneCh_closed := True\<rparr>"
  have stop: "?life (?c0, NewMemStore, []) Stop (?c1, NewMemStore, [])"
    by (rule life_stop) (simp add: EpochCertifier_Stop_def)
  have drain: "?life (?c1, NewMemStore, []) Drain (?c2, NewMemStore, [])"
    using life_drain [of ?c1 MemStore_ops "sort_key txn_key" NewMemStore "[]" ?c1 NewMemStore "[]"]
    by (simp add: processEpoch_def)
  have submit: "?life (?c2, NewMemStore, []) (Submit 0 ?req) (EpochCertifier_Submit ?c2 0 ?req, NewMemStore, [])"
    by (rule life_submit) simp_all
  have "?runs (?c0, NewMemStore, []) ((([] @ [Stop]) @ [Drain]) @ [Submit 0 ?req]) (EpochCertifier_Submit ?c2 0 ?req, NewMemStore, [])"
    by (rule runs_snoc runs_nil stop drain submit)+
  moreover have "EpochCertifier_Receive [] 0 = None"
    by (rule epoch_submit_after_drain_blocks [OF _ drain submit runs_nil]) simp_all
  ultimately show ?thesis
    by (intro exI [of _ "EpochCertifier_Submit ?c2 0 ?req"] exI [of _ NewMemStore] exI [of _ "[]"])
       (simp add: EpochCertifier_Submit_def)
qed

end
