(* ===== verification/Execution.thy ===== *)
theory Execution
  imports Epoch
begin

text \<open>
  The execution layer, \<open>src/pkg/execution/execution.go\<close>: transactions with a local write buffer and
  a read set, on top of a store and a certifier.

  \<^item> \<open>Engine_Read\<close> takes the store's \<open>Get\<close> and its state; \<open>Engine_Commit\<close> takes the certifier's
    \<open>SubmitCommit\<close> and its state. The two halves of \<open>Commit\<close>, before and after the call to the
    certifier, are definitions of their own, because other clients run in between.
  \<^item> \<open>writeBuffer\<close> is \<open>nil\<close> after \<open>Abort\<close>; a \<open>nil\<close> map reads as an empty one, and the only write to
    it is guarded by \<open>checkActive\<close>, so it is the empty map here.
  \<^item> \<open>txn_ok\<close> is the invariant of a live transaction: the read set lists each key of
    \<open>readVersions\<close> once, with its version, and the write buffer holds the last write of each key.
\<close>

datatype exec_err = ErrTxnAborted | ErrTxnCommitted

record Txn =
  txn_ID :: string
  txn_ReadSet :: "ReadEntry list"
  txn_WriteSet :: "WriteEntry list"
  txn_writeBuffer :: "(string, string) gomap"
  txn_readVersions :: "(string, uint64) gomap"
  txn_aborted :: bool
  txn_committed :: bool

record Engine =
  eng_idCounter :: uint64

definition NewEngine :: Engine where
  "NewEngine = \<lparr>eng_idCounter = 0\<rparr>"

definition Engine_Begin :: "Engine \<Rightarrow> Txn \<times> Engine" where
  "Engine_Begin e =
     (let i = eng_idCounter e + 1
      in (\<lparr>txn_ID = ''txn-'' @ fmt_d i, txn_ReadSet = [], txn_WriteSet = [], txn_writeBuffer = [],
           txn_readVersions = [], txn_aborted = False, txn_committed = False\<rparr>,
          e\<lparr>eng_idCounter := i\<rparr>))"

definition checkActive :: "Txn \<Rightarrow> exec_err option" where
  "checkActive txn =
     (if txn_aborted txn then Some ErrTxnAborted
      else if txn_committed txn then Some ErrTxnCommitted
      else None)"

definition Engine_Read ::
    "('w \<Rightarrow> string \<Rightarrow> ReadResult \<times> 'w) \<Rightarrow> 'w \<Rightarrow> Txn \<Rightarrow> string \<Rightarrow> (string \<times> exec_err option) \<times> Txn \<times> 'w" where
  "Engine_Read get w txn key =
     (case checkActive txn of
        Some err \<Rightarrow> (('''', Some err), txn, w)
      | None \<Rightarrow>
          (case map_of (txn_writeBuffer txn) key of
             Some val \<Rightarrow> ((val, None), txn, w)
           | None \<Rightarrow>
               let (result, w') = get w key;
                   txn' = (if map_of (txn_readVersions txn) key \<noteq> None then txn
                           else let version = (if rr_Found result then rr_Version result else 0)
                                in txn\<lparr>txn_ReadSet := txn_ReadSet txn @ [\<lparr>re_Key = key, re_VersionSeen = version\<rparr>],
                                       txn_readVersions := AList.update key version (txn_readVersions txn)\<rparr>)
               in if \<not> rr_Found result then (('''', None), txn', w')
                  else ((rr_Value result, None), txn', w')))"

definition Engine_Write :: "Txn \<Rightarrow> string \<Rightarrow> string \<Rightarrow> exec_err option \<times> Txn" where
  "Engine_Write txn key val =
     (case checkActive txn of
        Some err \<Rightarrow> (Some err, txn)
      | None \<Rightarrow> (None, txn\<lparr>txn_WriteSet := txn_WriteSet txn @ [\<lparr>we_Key = key, we_Value = val\<rparr>],
                           txn_writeBuffer := AList.update key val (txn_writeBuffer txn)\<rparr>))"

definition Commit_request :: "Txn \<Rightarrow> exec_err + TxnRequest" where
  "Commit_request txn =
     (case checkActive txn of
        Some err \<Rightarrow> Inl err
      | None \<Rightarrow> Inr \<lparr>tr_TxnID = txn_ID txn, tr_ReadSet = txn_ReadSet txn, tr_WriteSet = txn_WriteSet txn\<rparr>)"

definition Commit_finish :: "Txn \<Rightarrow> TxnResult \<Rightarrow> Txn" where
  "Commit_finish txn result =
     (if res_Committed result then txn\<lparr>txn_committed := True\<rparr> else txn\<lparr>txn_aborted := True\<rparr>)"

text \<open>A panic of the certifier unwinds through \<open>Commit\<close> (\<open>Inl\<close>) and leaves the transaction as it was.\<close>

definition Engine_Commit ::
    "('c \<Rightarrow> TxnRequest \<Rightarrow> (string + TxnResult) \<times> 'c) \<Rightarrow> 'c \<Rightarrow> Txn \<Rightarrow>
       (string + TxnResult \<times> exec_err option) \<times> Txn \<times> 'c" where
  "Engine_Commit submit c txn =
     (case Commit_request txn of
        Inl err \<Rightarrow> (Inr (aborted_result '''' '''', Some err), txn, c)
      | Inr req \<Rightarrow>
          (case submit c req of
             (Inl p, c') \<Rightarrow> (Inl p, txn, c')
           | (Inr result, c') \<Rightarrow> (Inr (result, None), Commit_finish txn result, c')))"

definition Engine_Abort :: "Txn \<Rightarrow> Txn" where
  "Engine_Abort txn = txn\<lparr>txn_aborted := True, txn_writeBuffer := []\<rparr>"

subsection \<open>Invariant of a live transaction\<close>

abbreviation write_pairs :: "WriteEntry list \<Rightarrow> (string \<times> string) list" where
  "write_pairs ws \<equiv> map (\<lambda>w. (we_Key w, we_Value w)) ws"

abbreviation read_pairs :: "ReadEntry list \<Rightarrow> (string \<times> uint64) list" where
  "read_pairs rs \<equiv> map (\<lambda>r. (re_Key r, re_VersionSeen r)) rs"

definition txn_ok :: "Txn \<Rightarrow> bool" where
  "txn_ok txn \<longleftrightarrow>
     distinct (map re_Key (txn_ReadSet txn)) \<and>
     map_of (txn_readVersions txn) = map_of (read_pairs (txn_ReadSet txn)) \<and>
     (map_of (txn_writeBuffer txn) = map_of (rev (write_pairs (txn_WriteSet txn))) \<or> txn_aborted txn \<and> txn_writeBuffer txn = [])"

lemma map_of_read_pairs_None:
  "(map_of (read_pairs rs) k = None) \<longleftrightarrow> k \<notin> re_Key ` set rs"
  by (simp add: map_of_eq_None_iff image_image)

lemma txn_ok_Begin: "Engine_Begin e = (txn, e') \<Longrightarrow> txn_ok txn"
  by (auto simp: Engine_Begin_def Let_def txn_ok_def)

lemma txn_ok_Read:
  assumes "txn_ok txn" "Engine_Read get w txn k = (r, txn', w')"
  shows "txn_ok txn'"
proof (cases "checkActive txn = None \<and> map_of (txn_writeBuffer txn) k = None \<and> map_of (txn_readVersions txn) k = None")
  case False
  with assms show ?thesis
    by (auto simp: Engine_Read_def Let_def split: option.splits prod.splits if_splits)
next
  case True
  obtain res w1 where get: "get w k = (res, w1)" by fastforce
  let ?v = "if rr_Found res then rr_Version res else 0"
  have "txn' = txn\<lparr>txn_ReadSet := txn_ReadSet txn @ [\<lparr>re_Key = k, re_VersionSeen = ?v\<rparr>],
                   txn_readVersions := AList.update k ?v (txn_readVersions txn)\<rparr>"
    using True assms(2) get by (auto simp: Engine_Read_def Let_def split: if_splits)
  moreover have "k \<notin> re_Key ` set (txn_ReadSet txn)"
    using True assms(1) map_of_read_pairs_None [of "txn_ReadSet txn" k] by (simp add: txn_ok_def)
  ultimately show ?thesis using True assms(1)
    by (auto simp: txn_ok_def map_of_read_pairs_None single_add_absent)
qed

lemma txn_ok_Write: "txn_ok txn \<Longrightarrow> Engine_Write txn k v = (e, txn') \<Longrightarrow> txn_ok txn'"
  by (auto simp: Engine_Write_def txn_ok_def checkActive_def split: option.splits if_splits)

lemma txn_ok_Abort: "txn_ok txn \<Longrightarrow> txn_ok (Engine_Abort txn)"
  by (simp add: Engine_Abort_def txn_ok_def)

lemma txn_ok_finish: "txn_ok txn \<Longrightarrow> txn_ok (Commit_finish txn r)"
  by (auto simp: Commit_finish_def txn_ok_def)


subsection \<open>The life of one transaction\<close>

text \<open>One step is one call on the transaction, with whatever store and certifier: the store's answer
  \<open>res\<close> and the certifier's answer \<open>ans\<close> are arbitrary. \<open>txn_read_any\<close> and \<open>txn_commit_any\<close> say that a
  call on any store and certifier, with any state, is such a step.\<close>

inductive txn_step :: "Txn \<Rightarrow> Txn \<Rightarrow> bool" where
  txn_read: "Engine_Read (\<lambda>_ _. (res, ())) () txn k = (r, txn', ()) \<Longrightarrow> txn_step txn txn'"
| txn_write: "Engine_Write txn k v = (e, txn') \<Longrightarrow> txn_step txn txn'"
| txn_commit: "Engine_Commit (\<lambda>_ _. (ans, ())) () txn = (r, txn', ()) \<Longrightarrow> txn_step txn txn'"
| txn_abort: "txn_step txn (Engine_Abort txn)"

lemma txn_write_snd: "txn_step txn (snd (Engine_Write txn k v))"
  by (rule txn_write [OF prod.collapse [symmetric]])

lemma txn_read_any: "Engine_Read get w txn k = (r, txn', w') \<Longrightarrow> txn_step txn txn'"
  by (rule txn_read [where res = "fst (get w k)" and k = k and r = r])
     (auto simp: Engine_Read_def Let_def split: option.splits prod.splits if_splits)

lemma txn_commit_any:
  assumes "Engine_Commit submit c txn = (r, txn', c')"
  shows "txn_step txn txn'"
proof (cases "Commit_request txn")
  case (Inl err)
  with assms show ?thesis
    by (intro txn_commit [where ans = "Inl ''''" and r = r]) (simp add: Engine_Commit_def)
next
  case (Inr req)
  with assms show ?thesis
    by (intro txn_commit [where ans = "fst (submit c req)" and r = r])
       (auto simp: Engine_Commit_def split: sum.splits prod.splits)
qed

inductive txn_reach :: "Txn \<Rightarrow> Txn \<Rightarrow> bool" where
  txn_refl: "txn_reach txn txn"
| txn_more: "txn_reach txn txn' \<Longrightarrow> txn_step txn' txn'' \<Longrightarrow> txn_reach txn txn''"

lemma Engine_Commit_cases:
  assumes "Engine_Commit submit c txn = (r, txn', c')"
  obtains "txn' = txn" | res where "checkActive txn = None" "txn' = Commit_finish txn res"
  using assms by (auto simp: Engine_Commit_def Commit_request_def split: option.splits sum.splits prod.splits)

lemma txn_ok_step: "txn_step txn txn' \<Longrightarrow> txn_ok txn \<Longrightarrow> txn_ok txn'"
  by (induction rule: txn_step.induct)
     (auto intro: txn_ok_Read txn_ok_Write txn_ok_Abort txn_ok_finish elim!: Engine_Commit_cases)

lemma txn_ok_reach: "txn_reach txn txn' \<Longrightarrow> txn_ok txn \<Longrightarrow> txn_ok txn'"
  by (induction rule: txn_reach.induct) (auto intro: txn_ok_step)

lemma txn_step_ID: "txn_step txn txn' \<Longrightarrow> txn_ID txn' = txn_ID txn"
  by (induction rule: txn_step.induct)
     (auto simp: Engine_Read_def Engine_Write_def Engine_Abort_def Commit_finish_def Let_def
       split: option.splits prod.splits if_splits elim!: Engine_Commit_cases)

text \<open>The states of the transaction's life cycle, and the order in which it passes them.\<close>

lemma txn_step_terminal:
  assumes "txn_step txn txn'" "checkActive txn \<noteq> None"
  shows "checkActive txn' \<noteq> None \<and> txn_ReadSet txn' = txn_ReadSet txn \<and> txn_WriteSet txn' = txn_WriteSet txn \<and>
    txn_committed txn' = txn_committed txn"
  using assms
  by (induction rule: txn_step.induct)
     (auto simp: Engine_Read_def Engine_Write_def Engine_Abort_def checkActive_def split: option.splits if_splits
       elim!: Engine_Commit_cases)

lemma txn_reach_terminal:
  assumes "txn_reach txn txn'" "checkActive txn \<noteq> None"
  shows "checkActive txn' \<noteq> None \<and> txn_ReadSet txn' = txn_ReadSet txn \<and> txn_WriteSet txn' = txn_WriteSet txn \<and>
    txn_committed txn' = txn_committed txn"
  using assms
proof (induction rule: txn_reach.induct)
  case (txn_more txn txn' txn'')
  then show ?case using txn_step_terminal [OF txn_more.hyps(2)] by simp
qed simp

lemma begin_counter:
  "eng_idCounter (((\<lambda>e. snd (Engine_Begin e)) ^^ i) e) = eng_idCounter e + of_nat i"
  by (induction i) (simp_all add: Engine_Begin_def Let_def)

subsection \<open>Properties\<close>

text \<open>\<^bold>\<open>C25.\<close> The read and write sets a transaction submits are consistent with what it did: after any
  sequence of calls on a fresh transaction, the read set names each key once, with the version in
  \<open>readVersions\<close>, and the write buffer maps each key to its last entry in the write set, unless the
  transaction is aborted and its buffer empty, as \<open>Abort\<close> leaves it.\<close>

theorem txn_sets_consistent:
  assumes "Engine_Begin e = (txn, e')" "txn_reach txn txn'"
  shows "txn_ID txn' = txn_ID txn \<and> distinct (map re_Key (txn_ReadSet txn')) \<and>
    (\<forall>r \<in> set (txn_ReadSet txn'). map_of (txn_readVersions txn') (re_Key r) = Some (re_VersionSeen r)) \<and>
    (map_of (txn_writeBuffer txn') = map_of (rev (write_pairs (txn_WriteSet txn'))) \<or> txn_aborted txn' \<and> txn_writeBuffer txn' = [])"
proof -
  have ok: "txn_ok txn'" using txn_ok_reach [OF assms(2) txn_ok_Begin [OF assms(1)]] .
  have "txn_ID txn' = txn_ID txn" using assms(2) by (induction rule: txn_reach.induct) (auto dest: txn_step_ID)
  moreover have "map_of (read_pairs (txn_ReadSet txn')) (re_Key r) = Some (re_VersionSeen r)" if "r \<in> set (txn_ReadSet txn')" for r
    using ok that by (intro map_of_is_SomeI) (auto simp: txn_ok_def comp_def)
  ultimately show ?thesis using ok by (auto simp: txn_ok_def)
qed

theorem txn_sets_consistent_witness:
  "let txn = fst (Engine_Begin NewEngine); txn' = snd (Engine_Write (snd (Engine_Write txn ''x'' ''a'')) ''x'' ''b'')
   in txn_ID txn' = ''txn-'' @ fmt_d 1 \<and> map_of (txn_writeBuffer txn') ''x'' = Some ''b''"
proof -
  let ?t = "fst (Engine_Begin NewEngine)"
  have "txn_reach ?t (snd (Engine_Write (snd (Engine_Write ?t ''x'' ''a'')) ''x'' ''b''))"
    by (intro txn_more [OF txn_more [OF txn_refl txn_write_snd] txn_write_snd])
  from txn_sets_consistent [OF prod.collapse [symmetric] this] show ?thesis
    by (simp add: Engine_Begin_def NewEngine_def Let_def Engine_Write_def checkActive_def)
qed

text \<open>\<^bold>\<open>C24.\<close> Read-your-own-writes and first-read versions: in any state a fresh transaction can reach,
  while it is active, a read of a key it has written returns the last value written, and neither asks
  the store nor changes the transaction; a read of any other key returns the store's value (the empty
  string where the store has none), and its version enters the read set exactly when the key is read
  for the first time, as 0 when the key was not found.\<close>

theorem txn_read_behaviour:
  assumes "Engine_Begin e = (txn0, e')" "txn_reach txn0 txn" "checkActive txn = None"
    and "get w k = (res, w1)"
  shows "Engine_Read get w txn k =
    (case map_of (rev (write_pairs (txn_WriteSet txn))) k of
       Some v \<Rightarrow> ((v, None), txn, w)
     | None \<Rightarrow> ((if rr_Found res then rr_Value res else '''', None),
                (if k \<in> re_Key ` set (txn_ReadSet txn) then txn
                 else txn\<lparr>txn_ReadSet := txn_ReadSet txn @ [\<lparr>re_Key = k, re_VersionSeen = (if rr_Found res then rr_Version res else 0)\<rparr>],
                          txn_readVersions := AList.update k (if rr_Found res then rr_Version res else 0) (txn_readVersions txn)\<rparr>),
                w1))"
proof -
  have "txn_ok txn" using txn_ok_reach [OF assms(2) txn_ok_Begin [OF assms(1)]] .
  moreover have "\<not> txn_aborted txn" using assms(3) by (auto simp: checkActive_def)
  ultimately have "map_of (txn_writeBuffer txn) = map_of (rev (write_pairs (txn_WriteSet txn)))"
    "map_of (txn_readVersions txn) k = None \<longleftrightarrow> k \<notin> re_Key ` set (txn_ReadSet txn)"
    using map_of_read_pairs_None [of "txn_ReadSet txn" k] by (simp_all add: txn_ok_def)
  with assms(3,4) show ?thesis by (auto simp: Engine_Read_def Let_def split: option.splits)
qed

theorem txn_read_behaviour_witness:
  "let txn = snd (Engine_Write (fst (Engine_Begin NewEngine)) ''x'' ''b'')
   in Engine_Read (Store_Get MemStore_ops) (store_with ''x'' ''a'' 3) txn ''x'' = ((''b'', None), txn, store_with ''x'' ''a'' 3)"
proof -
  let ?t = "fst (Engine_Begin NewEngine)" and ?t' = "snd (Engine_Write (fst (Engine_Begin NewEngine)) ''x'' ''b'')"
  have "txn_reach ?t ?t'" by (rule txn_more [OF txn_refl txn_write_snd])
  moreover have "checkActive ?t' = None"
    by (simp add: Engine_Begin_def Let_def Engine_Write_def checkActive_def)
  moreover have "txn_WriteSet ?t' = [\<lparr>we_Key = ''x'', we_Value = ''b''\<rparr>]"
    by (simp add: Engine_Begin_def Let_def Engine_Write_def checkActive_def)
  ultimately show ?thesis
    using txn_read_behaviour [OF prod.collapse [symmetric], of NewEngine ?t' "Store_Get MemStore_ops" "store_with ''x'' ''a'' 3" "''x''"]
    by (simp add: MemStore_ops_def)
qed

text \<open>\<^bold>\<open>C38.\<close> A transaction is decided once: when the certifier answers \<open>Commit\<close>, the transaction is
  committed or aborted as the answer says, and from then on, whatever else is called on it, every
  \<open>Read\<close>, \<open>Write\<close> and \<open>Commit\<close> returns an error, neither the store nor the certifier is called again,
  its read and write sets stay, and an aborted transaction never becomes committed. (\<open>Abort\<close> has no check: on
  a committed transaction it sets the aborted mark beside the committed one and drops the write buffer.)\<close>

theorem txn_decided_once:
  assumes "Engine_Commit submit c txn = (Inr (res, None), txn1, c1)" "txn_reach txn1 txn2"
  shows "txn_committed txn1 = res_Committed res \<and> txn_committed txn2 = res_Committed res \<and>
    txn_WriteSet txn2 = txn_WriteSet txn \<and> txn_ReadSet txn2 = txn_ReadSet txn \<and>
    (\<exists>err. checkActive txn2 = Some err \<and>
       Engine_Read get w txn2 k = (('''', Some err), txn2, w) \<and>
       Engine_Write txn2 k v = (Some err, txn2) \<and>
       Engine_Commit submit' c' txn2 = (Inr (aborted_result '''' '''', Some err), txn2, c'))"
proof -
  have act: "checkActive txn = None" and fin: "txn1 = Commit_finish txn res"
    using assms(1) by (auto simp: Engine_Commit_def Commit_request_def split: option.splits sum.splits prod.splits)
  have "checkActive txn1 \<noteq> None" "txn_committed txn1 = res_Committed res"
    "txn_WriteSet txn1 = txn_WriteSet txn" "txn_ReadSet txn1 = txn_ReadSet txn"
    using act by (auto simp: fin Commit_finish_def checkActive_def split: if_splits)
  with txn_reach_terminal [OF assms(2)] show ?thesis
    by (auto simp: Engine_Read_def Engine_Write_def Engine_Commit_def Commit_request_def)
qed

theorem txn_decided_once_witness:
  "let txn1 = fst (snd (Engine_Commit (\<lambda>c req. (Inr (committed_result (tr_TxnID req) 1), c)) () (fst (Engine_Begin NewEngine))))
   in txn_committed txn1 \<and> txn_committed (Engine_Abort txn1) \<and> Engine_Write txn1 ''x'' ''a'' = (Some ErrTxnCommitted, txn1)"
proof -
  let ?sub = "\<lambda>c req. (Inr (committed_result (tr_TxnID req) 1), c)" and ?t = "fst (Engine_Begin NewEngine)"
  let ?t1 = "fst (snd (Engine_Commit ?sub () ?t))"
  have c: "Engine_Commit ?sub () ?t = (Inr (committed_result (txn_ID ?t) 1, None), ?t1, ())"
    by (simp add: Engine_Begin_def Let_def Engine_Commit_def Commit_request_def checkActive_def)
  have "checkActive ?t1 = Some ErrTxnCommitted"
    by (simp add: Engine_Begin_def Let_def Engine_Commit_def Commit_request_def checkActive_def Commit_finish_def)
  then show ?thesis
    using txn_decided_once [OF c txn_refl, of "Store_Get MemStore_ops" NewMemStore "''x''" "''a''" ?sub "()"]
      txn_decided_once [OF c txn_more [OF txn_refl txn_abort], of "Store_Get MemStore_ops" NewMemStore "''x''" "''a''" ?sub "()"]
    by (simp add: Let_def)
qed

text \<open>Transaction ids are unique within an engine: the ids of its first \<open>2 ^ 64\<close> calls of \<open>Begin\<close>,
  counted from any state of the counter, are pairwise different.\<close>

lemma begin_ids_unique:
  assumes "i < 2 ^ 64" "j < 2 ^ 64" "i \<noteq> j"
  shows "txn_ID (fst (Engine_Begin (((\<lambda>e. snd (Engine_Begin e)) ^^ i) e)))
       \<noteq> txn_ID (fst (Engine_Begin (((\<lambda>e. snd (Engine_Begin e)) ^^ j) e)))"
proof -
  have "(of_nat i :: uint64) \<noteq> of_nat j"
    using assms by (simp add: word_unat_eq_iff unsigned_of_nat take_bit_nat_eq_self)
  moreover have "txn_ID (fst (Engine_Begin e)) = ''txn-'' @ fmt_d (eng_idCounter e + 1)" for e
    by (simp add: Engine_Begin_def Let_def)
  ultimately show ?thesis by (simp add: begin_counter fmt_d_inj)
qed

end
