(* ===== verification/System.thy ===== *)
theory System
  imports Execution
begin

text \<open>
  The three layers together: any number of clients that run transactions through the engine, one
  store and one certifier, interleaved in any order.

  \<^item> A \<open>'w World\<close> is what the engine talks to, the store and the certifier as one state \<open>'w\<close>:
    \<open>W_Get\<close> is \<open>store.Get\<close>; \<open>W_Submit\<close> is \<open>certifier.SubmitCommit\<close> up to where it blocks (on the
    mutex of the immediate certifier, on the result channel of the epoch certifier); \<open>W_Certify\<close> is
    the decision on one submitted request; \<open>W_Internal\<close> is a step of the certifier's own goroutine.
    \<open>imm_world\<close> and \<open>epoch_world\<close> are the two certifiers.
  \<^item> \<open>sys_step\<close> has one rule per engine call and per certifier step. A client keeps its transaction
    and the log of its reads (with the value returned) and writes; \<open>sys_hist\<close> collects the logs of
    the committed transactions in the order of their commits. The logs are history variables: no
    step depends on them.
  \<^item> \<open>replay\<close> runs a log on a plain key-value map. \<open>certifier_contract\<close> is what the engine's clients
    rely on; inside it, every reachable state is shown to be the result of running the committed
    transactions one after the other.
\<close>

datatype txn_op = RdOp string string | WrOp string string

datatype client = Idle | Active Txn "txn_op list" | Waiting Txn "txn_op list"

record 'w World =
  W_Get :: "'w \<Rightarrow> string \<Rightarrow> ReadResult \<times> 'w"
  W_Submit :: "'w \<Rightarrow> nat \<Rightarrow> TxnRequest \<Rightarrow> 'w"
  W_Certify :: "'w \<Rightarrow> nat \<Rightarrow> TxnRequest \<Rightarrow> TxnResult \<Rightarrow> 'w \<Rightarrow> bool"
  W_Internal :: "'w \<Rightarrow> 'w \<Rightarrow> bool"

record 'w sys =
  sys_world :: 'w
  sys_engine :: Engine
  sys_clients :: "nat \<Rightarrow> client"
  sys_hist :: "txn_op list list"

text \<open>What an outside observer sees of a step: client \<open>i\<close> begins, reads value \<open>v\<close> for key \<open>k\<close>, writes,
  aborts, submits, or learns whether its transaction is committed; or the certifier makes a step of
  its own.\<close>

datatype event =
    EvBegin nat | EvRead nat string string | EvWrite nat string string | EvAbort nat | EvSubmit nat
  | EvCertify nat bool | EvInternal

inductive sys_step :: "'w World \<Rightarrow> 'w sys \<Rightarrow> event \<Rightarrow> 'w sys \<Rightarrow> bool" for W where
  step_begin: "sys_clients \<sigma> i = Idle \<Longrightarrow> Engine_Begin (sys_engine \<sigma>) = (txn, e) \<Longrightarrow>
    sys_step W \<sigma> (EvBegin i) (\<sigma>\<lparr>sys_engine := e, sys_clients := (sys_clients \<sigma>)(i := Active txn [])\<rparr>)"
| step_read: "sys_clients \<sigma> i = Active txn l \<Longrightarrow>
    Engine_Read (W_Get W) (sys_world \<sigma>) txn k = ((v, None), txn', w) \<Longrightarrow>
    sys_step W \<sigma> (EvRead i k v) (\<sigma>\<lparr>sys_world := w, sys_clients := (sys_clients \<sigma>)(i := Active txn' (l @ [RdOp k v]))\<rparr>)"
| step_write: "sys_clients \<sigma> i = Active txn l \<Longrightarrow> Engine_Write txn k v = (None, txn') \<Longrightarrow>
    sys_step W \<sigma> (EvWrite i k v) (\<sigma>\<lparr>sys_clients := (sys_clients \<sigma>)(i := Active txn' (l @ [WrOp k v]))\<rparr>)"
| step_abort: "sys_clients \<sigma> i = Active txn l \<Longrightarrow>
    sys_step W \<sigma> (EvAbort i) (\<sigma>\<lparr>sys_clients := (sys_clients \<sigma>)(i := Idle)\<rparr>)"
| step_submit: "sys_clients \<sigma> i = Active txn l \<Longrightarrow> Commit_request txn = Inr req \<Longrightarrow>
    sys_step W \<sigma> (EvSubmit i) (\<sigma>\<lparr>sys_world := W_Submit W (sys_world \<sigma>) i req, sys_clients := (sys_clients \<sigma>)(i := Waiting txn l)\<rparr>)"
| step_certify: "sys_clients \<sigma> i = Waiting txn l \<Longrightarrow> Commit_request txn = Inr req \<Longrightarrow>
    W_Certify W (sys_world \<sigma>) i req r w \<Longrightarrow>
    sys_step W \<sigma> (EvCertify i (txn_committed (Commit_finish txn r))) (\<sigma>\<lparr>sys_world := w, sys_clients := (sys_clients \<sigma>)(i := Idle),
                   sys_hist := (if txn_committed (Commit_finish txn r) then sys_hist \<sigma> @ [l] else sys_hist \<sigma>)\<rparr>)"
| step_internal: "W_Internal W (sys_world \<sigma>) w \<Longrightarrow> sys_step W \<sigma> EvInternal (\<sigma>\<lparr>sys_world := w\<rparr>)"

inductive sys_reach :: "'w World \<Rightarrow> 'w sys \<Rightarrow> 'w sys \<Rightarrow> bool" for W where
  reach_refl: "sys_reach W \<sigma> \<sigma>"
| reach_step: "sys_reach W \<sigma> \<sigma>' \<Longrightarrow> sys_step W \<sigma>' ev \<sigma>'' \<Longrightarrow> sys_reach W \<sigma> \<sigma>''"

lemma sys_reach_trans: "sys_reach W \<sigma>' \<sigma>'' \<Longrightarrow> sys_reach W \<sigma> \<sigma>' \<Longrightarrow> sys_reach W \<sigma> \<sigma>''"
  by (induction rule: sys_reach.induct) (auto intro: sys_reach.intros)

text \<open>What a step does to the clients and to the history.\<close>

lemma sys_step_effect:
  assumes "sys_step W \<sigma> ev \<sigma>'"
  shows "case ev of
      EvBegin i \<Rightarrow> sys_clients \<sigma> i = Idle \<and> sys_hist \<sigma>' = sys_hist \<sigma> \<and>
        (\<exists>txn. sys_clients \<sigma>' = (sys_clients \<sigma>)(i := Active txn []))
    | EvRead i k v \<Rightarrow> sys_hist \<sigma>' = sys_hist \<sigma> \<and> (\<exists>txn txn' l. sys_clients \<sigma> i = Active txn l \<and>
        sys_clients \<sigma>' = (sys_clients \<sigma>)(i := Active txn' (l @ [RdOp k v])))
    | EvWrite i k v \<Rightarrow> sys_hist \<sigma>' = sys_hist \<sigma> \<and> (\<exists>txn txn' l. sys_clients \<sigma> i = Active txn l \<and>
        sys_clients \<sigma>' = (sys_clients \<sigma>)(i := Active txn' (l @ [WrOp k v])))
    | EvAbort i \<Rightarrow> sys_hist \<sigma>' = sys_hist \<sigma> \<and> (\<exists>txn l. sys_clients \<sigma> i = Active txn l) \<and>
        sys_clients \<sigma>' = (sys_clients \<sigma>)(i := Idle)
    | EvSubmit i \<Rightarrow> sys_hist \<sigma>' = sys_hist \<sigma> \<and> (\<exists>txn l. sys_clients \<sigma> i = Active txn l \<and>
        sys_clients \<sigma>' = (sys_clients \<sigma>)(i := Waiting txn l))
    | EvCertify i c \<Rightarrow> (\<exists>txn l. sys_clients \<sigma> i = Waiting txn l \<and>
        sys_clients \<sigma>' = (sys_clients \<sigma>)(i := Idle) \<and> sys_hist \<sigma>' = (if c then sys_hist \<sigma> @ [l] else sys_hist \<sigma>))
    | EvInternal \<Rightarrow> sys_clients \<sigma>' = sys_clients \<sigma> \<and> sys_hist \<sigma>' = sys_hist \<sigma>"
  using assms by (cases rule: sys_step.cases) auto

definition sys_init :: "'w \<Rightarrow> 'w sys" where
  "sys_init w = \<lparr>sys_world = w, sys_engine = NewEngine, sys_clients = (\<lambda>_. Idle), sys_hist = []\<rparr>"

subsection \<open>The two certifiers\<close>

definition imm_world :: "'s Store \<Rightarrow> (ImmediateCertifier \<times> 's) World" where
  "imm_world ops =
     \<lparr>W_Get = (\<lambda>(c, s) k. let (r, s') = Store_Get ops s k in (r, (c, s'))),
      W_Submit = (\<lambda>w i req. w),
      W_Certify = (\<lambda>(c, s) i req r (c', s'). ImmediateCertifier_SubmitCommit ops c s req = (Inr r, c', s')),
      W_Internal = (\<lambda>w w'. False)\<rparr>"

text \<open>The goroutine of the epoch certifier is idle (\<open>None\<close>) or in the loop of \<open>processEpoch\<close>, with the
  keys claimed so far and the part of the sorted batch that is left.\<close>

type_synonym 's epoch_state =
  "EpochCertifier \<times> 's \<times> ((string, string) gomap \<times> pendingTxn list) option"

inductive epoch_internal ::
    "(pendingTxn list \<Rightarrow> pendingTxn list) \<Rightarrow> 's epoch_state \<Rightarrow> 's epoch_state \<Rightarrow> bool" for srt where
  epoch_swap: "currentBatch c \<noteq> [] \<Longrightarrow>
    epoch_internal srt (c, s, None) (c\<lparr>currentBatch := []\<rparr>, s, Some ([], srt (currentBatch c)))"
| epoch_done: "epoch_internal srt (c, s, Some (cl, [])) (c, s, None)"

inductive epoch_certify ::
    "'s Store \<Rightarrow> 's epoch_state \<Rightarrow> nat \<Rightarrow> TxnRequest \<Rightarrow> TxnResult \<Rightarrow> 's epoch_state \<Rightarrow> bool" for ops where
  epoch_turn: "certifyTxn ops c cl s (p_req p) = (Inr r, c', cl', s') \<Longrightarrow>
    epoch_certify ops (c, s, Some (cl, p # ps)) (p_resultCh p) (p_req p) r (c', s', Some (cl', ps))"

inductive_cases epoch_certifyE: "epoch_certify ops w i req r w'"
inductive_cases epoch_internalE: "epoch_internal srt w w'"

definition epoch_world :: "'s Store \<Rightarrow> (pendingTxn list \<Rightarrow> pendingTxn list) \<Rightarrow> 's epoch_state World" where
  "epoch_world ops srt =
     \<lparr>W_Get = (\<lambda>(c, s, ph) k. let (r, s') = Store_Get ops s k in (r, (c, s', ph))),
      W_Submit = (\<lambda>(c, s, ph) i req. (EpochCertifier_Submit c i req, s, ph)),
      W_Certify = epoch_certify ops,
      W_Internal = epoch_internal srt\<rparr>"

text \<open>\<open>epoch_turns\<close>: turns of the loop one after the other, with the result channel and the answer of each.\<close>

inductive epoch_turns ::
    "'s Store \<Rightarrow> 's epoch_state \<Rightarrow> (nat \<times> TxnResult) list \<Rightarrow> 's epoch_state \<Rightarrow> bool" for ops where
  turns_nil: "epoch_turns ops w [] w"
| turns_more: "epoch_certify ops w ch req r w' \<Longrightarrow> epoch_turns ops w' rs w'' \<Longrightarrow> epoch_turns ops w ((ch, r) # rs) w''"

inductive_cases epoch_turns_NilE: "epoch_turns ops w [] w'"
inductive_cases epoch_turns_ConsE: "epoch_turns ops w (x # rs) w'"

definition put_answers :: "(nat \<times> TxnResult) list \<Rightarrow> chans \<Rightarrow> chans" where
  "put_answers rs chs = fold (\<lambda>(ch, r). AList.update ch r) rs chs"

subsection \<open>Serial execution\<close>

fun replay :: "(string \<rightharpoonup> string) \<Rightarrow> txn_op list \<Rightarrow> (string \<rightharpoonup> string) option" where
  "replay db [] = Some db"
| "replay db (RdOp k v # l) = (if (case db k of None \<Rightarrow> '''' | Some x \<Rightarrow> x) = v then replay db l else None)"
| "replay db (WrOp k v # l) = replay (db(k \<mapsto> v)) l"

definition db_of :: "kv_view \<Rightarrow> (string \<rightharpoonup> string)" where
  "db_of m = (\<lambda>k. map_option fst (m k))"

text \<open>\<open>log_ok P b l\<close>: with \<open>b\<close> as the write buffer, every read of \<open>l\<close> returned the buffered value,
  or a value that satisfies \<open>P\<close> where the key was not buffered.\<close>

fun log_ok :: "(string \<Rightarrow> string \<Rightarrow> bool) \<Rightarrow> (string \<rightharpoonup> string) \<Rightarrow> txn_op list \<Rightarrow> bool" where
  "log_ok P b [] = True"
| "log_ok P b (RdOp k v # l) = ((case b k of Some x \<Rightarrow> x = v | None \<Rightarrow> P k v) \<and> log_ok P b l)"
| "log_ok P b (WrOp k v # l) = log_ok P (b(k \<mapsto> v)) l"

fun log_writes :: "txn_op list \<Rightarrow> (string \<times> string) list" where
  "log_writes [] = []"
| "log_writes (RdOp k v # l) = log_writes l"
| "log_writes (WrOp k v # l) = (k, v) # log_writes l"

text \<open>\<open>seen_ok m rv k v\<close>: the value \<open>v\<close> was read at some version \<open>i\<close> of \<open>k\<close>, at or after the version
  that the transaction recorded for \<open>k\<close>; if \<open>i\<close> is still the version of \<open>k\<close>, then \<open>v\<close> is its value.\<close>

definition seen_ok :: "kv_view \<Rightarrow> (string \<rightharpoonup> uint64) \<Rightarrow> string \<Rightarrow> string \<Rightarrow> bool" where
  "seen_ok m rv k v \<longleftrightarrow>
     (\<exists>r i. rv k = Some r \<and> r \<le> i \<and> i \<le> ver_of m k \<and> (ver_of m k = i \<longrightarrow> val_of m k = v))"

definition live_ok :: "kv_view \<Rightarrow> Txn \<Rightarrow> txn_op list \<Rightarrow> bool" where
  "live_ok m txn l \<longleftrightarrow> txn_ok txn \<and> checkActive txn = None \<and>
     write_pairs (txn_WriteSet txn) = log_writes l \<and>
     (\<forall>k r. map_of (txn_readVersions txn) k = Some r \<longrightarrow> r \<le> ver_of m k) \<and>
     log_ok (seen_ok m (map_of (txn_readVersions txn))) Map.empty l"

definition client_ok :: "kv_view \<Rightarrow> client \<Rightarrow> bool" where
  "client_ok m c = (case c of Idle \<Rightarrow> True | Active txn l \<Rightarrow> live_ok m txn l | Waiting txn l \<Rightarrow> live_ok m txn l)"

subsection \<open>Logs\<close>

lemma replay_append: "replay db (xs @ ys) = Option.bind (replay db xs) (\<lambda>d. replay d ys)"
  by (induction xs arbitrary: db rule: log_writes.induct) auto

lemma log_writes_append [simp]: "log_writes (xs @ ys) = log_writes xs @ log_writes ys"
  by (induction xs rule: log_writes.induct) auto

lemma log_ok_append: "log_ok P b (xs @ ys) \<longleftrightarrow> log_ok P b xs \<and> log_ok P (b ++ map_of (rev (log_writes xs))) ys"
  by (induction xs arbitrary: b rule: log_writes.induct) (auto split: option.splits)

lemma log_ok_mono: "log_ok P b l \<Longrightarrow> (\<And>k v. P k v \<Longrightarrow> Q k v) \<Longrightarrow> log_ok Q b l"
  by (induction l arbitrary: b rule: log_writes.induct) (auto split: option.splits)

lemma log_ok_replay:
  "log_ok (\<lambda>k v. (case db k of None \<Rightarrow> '''' | Some x \<Rightarrow> x) = v) b l \<Longrightarrow>
   replay (db ++ b) l = Some (db ++ b ++ map_of (rev (log_writes l)))"
proof (induction l arbitrary: b rule: log_writes.induct)
  case (2 k v l)
  then show ?case by (auto simp: map_add_def split: option.splits)
next
  case (3 k v l)
  have "replay (db ++ b(k \<mapsto> v)) l = Some (db ++ b(k \<mapsto> v) ++ map_of (rev (log_writes l)))"
    using "3.IH" [of "b(k \<mapsto> v)"] "3.prems" by (simp only: log_ok.simps)
  then show ?case by simp
qed simp

subsection \<open>What the store's versions say about a log\<close>

lemma ver_of_commit_mono:
  assumes "versions_in m n" "seq_room n"
  shows "ver_of m k \<le> ver_of (view_writes (stamp (n + 1) ws) m) k"
  using less_inc64 [of n "ver_of m k"] ver_of_le [OF assms(1), of k] assms(2)
  by (auto simp: ver_of_commit seq_room_def)

lemma seen_ok_commit:
  assumes "seen_ok m rv k v" "versions_in m n" "seq_room n"
  shows "seen_ok (view_writes (stamp (n + 1) ws) m) rv k v"
proof -
  obtain r i where ri: "rv k = Some r" "r \<le> i" "i \<le> ver_of m k" "ver_of m k = i \<longrightarrow> val_of m k = v"
    using assms(1) by (auto simp: seen_ok_def)
  have "i < n + 1" using ri(3) ver_of_le [OF assms(2), of k] assms(3) less_inc64 [of n i]
    by (auto simp: seq_room_def)
  moreover have "val_of (view_writes (stamp (n + 1) ws) m) k = val_of m k" if "k \<notin> we_Key ` set ws"
    using that in_write_keys [of ws k] by (auto simp: val_of_def view_writes_stamp split: option.splits)
  ultimately show ?thesis using ri unfolding seen_ok_def
    by (intro exI [of _ r] exI [of _ i]) (auto simp: ver_of_commit)
qed

lemma live_ok_commit:
  assumes "live_ok m txn l" "versions_in m n" "seq_room n"
  shows "live_ok (view_writes (stamp (n + 1) ws) m) txn l"
proof -
  have "r \<le> ver_of (view_writes (stamp (n + 1) ws) m) k" if "map_of (txn_readVersions txn) k = Some r" for k r
    using assms(1) that ver_of_commit_mono [OF assms(2,3), of k ws] by (auto simp: live_ok_def intro: order_trans)
  moreover have "log_ok (seen_ok (view_writes (stamp (n + 1) ws) m) (map_of (txn_readVersions txn))) Map.empty l"
    by (rule log_ok_mono [where P = "seen_ok m (map_of (txn_readVersions txn))"])
       (use assms in \<open>auto simp: live_ok_def intro: seen_ok_commit\<close>)
  ultimately show ?thesis using assms(1) by (simp add: live_ok_def)
qed

lemma client_ok_commit:
  "client_ok m c \<Longrightarrow> versions_in m n \<Longrightarrow> seq_room n \<Longrightarrow> client_ok (view_writes (stamp (n + 1) ws) m) c"
  by (auto simp: client_ok_def intro: live_ok_commit split: client.splits)

lemma live_ok_request:
  "live_ok m txn l \<Longrightarrow> Commit_request txn = Inr req \<Longrightarrow>
   tr_ReadSet req = txn_ReadSet txn \<and> tr_WriteSet req = txn_WriteSet txn \<and> tr_TxnID req = txn_ID txn"
  by (auto simp: live_ok_def Commit_request_def)

text \<open>The heart of the argument: once the certifier has accepted the read set, every value the
  transaction saw is the current one, so its log runs on the current contents as it did.\<close>

lemma live_ok_replay:
  assumes "live_ok m txn l" "reads_current m (txn_ReadSet txn)"
  shows "replay (db_of m) l = Some (db_of (view_writes (stamp n (txn_WriteSet txn)) m))"
proof -
  have cur: "val_of m k = v" if seen: "seen_ok m (map_of (txn_readVersions txn)) k v" for k v
  proof -
    obtain r i where ri: "map_of (txn_readVersions txn) k = Some r" "r \<le> i" "i \<le> ver_of m k"
      "ver_of m k = i \<longrightarrow> val_of m k = v" using seen by (auto simp: seen_ok_def)
    have "map_of (read_pairs (txn_ReadSet txn)) k = Some r" using ri(1) assms(1) by (simp add: live_ok_def txn_ok_def)
    then have "r = ver_of m k" using assms(2) by (auto simp: reads_current_def dest!: map_of_SomeD)
    with ri show ?thesis by simp
  qed
  have "(case db_of m k of None \<Rightarrow> '''' | Some x \<Rightarrow> x) = val_of m k" for k
    by (simp add: db_of_def val_of_def split: option.splits prod.splits)
  then have "log_ok (\<lambda>k v. (case db_of m k of None \<Rightarrow> '''' | Some x \<Rightarrow> x) = v) Map.empty l"
    using assms(1) cur by (simp add: live_ok_def log_ok_mono [where P = "seen_ok m (map_of (txn_readVersions txn))"])
  from log_ok_replay [OF this] have "replay (db_of m) l = Some (db_of m ++ map_of (rev (log_writes l)))" by simp
  moreover have "log_writes l = write_pairs (txn_WriteSet txn)" using assms(1) by (simp add: live_ok_def)
  ultimately show ?thesis
    by (auto simp: db_of_def view_writes_stamp map_add_def fun_eq_iff split: option.splits)
qed

subsection \<open>Engine calls keep a live transaction's invariant\<close>

lemma live_ok_begin: "Engine_Begin e = (txn, e') \<Longrightarrow> live_ok m txn []"
  using txn_ok_Begin by (auto simp: live_ok_def Engine_Begin_def Let_def checkActive_def)

lemma live_ok_write:
  "live_ok m txn l \<Longrightarrow> Engine_Write txn k v = (None, txn') \<Longrightarrow> live_ok m txn' (l @ [WrOp k v])"
  using txn_ok_Write [of txn k v None txn']
  by (auto simp: live_ok_def Engine_Write_def checkActive_def log_ok_append split: if_splits)

lemma live_ok_buffer:
  "live_ok m txn l \<Longrightarrow> map_of (txn_writeBuffer txn) = map_of (rev (log_writes l))"
  by (auto simp: live_ok_def txn_ok_def checkActive_def split: if_splits)

lemma live_ok_read:
  assumes "live_ok m txn l" "Engine_Read get w txn k = ((v, None), txn', w')"
    and "get w k = (view_result (m k), w1)"
  shows "live_ok m txn' (l @ [RdOp k v])"
proof (cases "map_of (txn_writeBuffer txn) k")
  case (Some x)
  then have "txn' = txn" "v = x" using assms(1,2) by (auto simp: Engine_Read_def live_ok_def)
  with assms(1) Some live_ok_buffer [OF assms(1)] show ?thesis
    by (auto simp: live_ok_def log_ok_append)
next
  case None
  have act: "checkActive txn = None" using assms(1) by (simp add: live_ok_def)
  have v: "v = val_of m k" using None act assms(2,3)
    by (auto simp: Engine_Read_def Let_def view_result_def val_of_def split: option.splits)
  let ?rv = "map_of (txn_readVersions txn)" and ?rv' = "map_of (txn_readVersions txn')"
  have rv': "?rv' = (if ?rv k = None then ?rv(k \<mapsto> ver_of m k) else ?rv)"
    and keep: "txn_WriteSet txn' = txn_WriteSet txn" "checkActive txn' = None"
    using None act assms(2,3)
    by (auto simp: Engine_Read_def Let_def view_result_def ver_of_def checkActive_def split: option.splits if_splits)
  have le: "r \<le> ver_of m j" if "?rv' j = Some r" for j r
    using that rv' assms(1) by (auto simp: live_ok_def split: if_splits)
  have "?rv' k \<noteq> None" using rv' by auto
  with le v have "seen_ok m ?rv' k v" by (auto simp: seen_ok_def)
  moreover have "seen_ok m ?rv' j x" if "seen_ok m ?rv j x" for j x
    using that rv' by (auto simp: seen_ok_def)
  ultimately show ?thesis using assms(1) None keep le live_ok_buffer [OF assms(1)] txn_ok_Read [OF _ assms(2)]
    by (auto simp: live_ok_def log_ok_append intro: log_ok_mono)
qed

subsection \<open>The contract of store and certifier, and serializability\<close>

locale certifier_contract =
  fixes W :: "'w World"
    and wview :: "'w \<Rightarrow> kv_view"
    and wseq :: "'w \<Rightarrow> uint64"
    and wok :: "'w \<Rightarrow> bool"
  assumes w_versions: "wok w \<Longrightarrow> versions_in (wview w) (wseq w)"
    and w_get: "wok w \<Longrightarrow> \<exists>w'. W_Get W w k = (view_result (wview w k), w') \<and> wok w' \<and>
          wview w' = wview w \<and> wseq w' = wseq w"
    and w_submit: "wok w \<Longrightarrow> wok (W_Submit W w i req) \<and> wview (W_Submit W w i req) = wview w \<and>
          wseq (W_Submit W w i req) = wseq w"
    and w_certify: "wok w \<Longrightarrow> seq_room (wseq w) \<Longrightarrow> W_Certify W w i req r w' \<Longrightarrow> wok w' \<and>
          (if res_Committed r then occ_spec (wview w) (wseq w) req = (True, wview w', wseq w')
           else wview w' = wview w \<and> wseq w' = wseq w)"
    and w_internal: "wok w \<Longrightarrow> W_Internal W w w' \<Longrightarrow> wok w' \<and> wview w' = wview w \<and> wseq w' = wseq w"
begin

definition sys_inv :: "'w \<Rightarrow> 'w sys \<Rightarrow> bool" where
  "sys_inv w0 \<sigma> \<longleftrightarrow> wok (sys_world \<sigma>) \<and>
     unat (wseq (sys_world \<sigma>)) = unat (wseq w0) + length (sys_hist \<sigma>) \<and>
     replay (db_of (wview w0)) (concat (sys_hist \<sigma>)) = Some (db_of (wview (sys_world \<sigma>))) \<and>
     (\<forall>i. client_ok (wview (sys_world \<sigma>)) (sys_clients \<sigma> i))"

lemma sys_inv_init: "wok w0 \<Longrightarrow> sys_inv w0 (sys_init w0)"
  by (simp add: sys_inv_def sys_init_def client_ok_def)

lemma sys_inv_client:
  "sys_inv w0 \<sigma> \<Longrightarrow> client_ok (wview (sys_world \<sigma>)) x \<Longrightarrow> sys_inv w0 (\<sigma>\<lparr>sys_clients := (sys_clients \<sigma>)(i := x)\<rparr>)"
  by (simp add: sys_inv_def)

lemma sys_inv_world:
  "sys_inv w0 \<sigma> \<Longrightarrow> wok w \<Longrightarrow> wview w = wview (sys_world \<sigma>) \<Longrightarrow> wseq w = wseq (sys_world \<sigma>) \<Longrightarrow>
   sys_inv w0 (\<sigma>\<lparr>sys_world := w\<rparr>)"
  by (simp add: sys_inv_def)

lemma sys_inv_commit:
  assumes inv: "sys_inv w0 \<sigma>" and c: "sys_clients \<sigma> i = Waiting txn l" "Commit_request txn = Inr req"
    and cert: "W_Certify W (sys_world \<sigma>) i req r w" "res_Committed r"
    and room: "seq_room (wseq (sys_world \<sigma>))"
  shows "sys_inv w0 (\<sigma>\<lparr>sys_world := w, sys_clients := (sys_clients \<sigma>)(i := Idle), sys_hist := sys_hist \<sigma> @ [l]\<rparr>)"
proof -
  let ?m = "wview (sys_world \<sigma>)" and ?n = "wseq (sys_world \<sigma>)"
  have ok: "wok (sys_world \<sigma>)" and vs: "versions_in ?m ?n" using inv w_versions by (auto simp: sys_inv_def)
  have "live_ok ?m txn l" using inv c(1) by (auto simp: sys_inv_def client_ok_def dest!: spec [of _ i])
  note live = this live_ok_request [OF this c(2)]
  have w: "wok w" "reads_current ?m (tr_ReadSet req)" "wseq w = ?n + 1"
    "wview w = view_writes (stamp (?n + 1) (tr_WriteSet req)) ?m"
    using w_certify [OF ok room cert(1)] cert(2) by (auto simp: occ_spec_def split: if_splits)
  have "replay (db_of ?m) l = Some (db_of (wview w))"
    using live_ok_replay [OF live(1), of "?n + 1"] live(2) w(2,4) by simp
  moreover have "unat (wseq w) = unat ?n + 1" using w(3) room unat_inc64 by (simp add: seq_room_def)
  moreover have "client_ok (wview w) (sys_clients \<sigma> j)" for j
    using inv client_ok_commit [OF _ vs room] by (simp add: sys_inv_def w(4))
  ultimately show ?thesis using inv w(1) by (simp add: sys_inv_def replay_append client_ok_def)
qed

lemma sys_inv_read:
  assumes inv: "sys_inv w0 \<sigma>" and c: "sys_clients \<sigma> i = Active txn l"
    and rd: "Engine_Read (W_Get W) (sys_world \<sigma>) txn k = ((v, None), txn', w)"
  shows "sys_inv w0 (\<sigma>\<lparr>sys_world := w, sys_clients := (sys_clients \<sigma>)(i := Active txn' (l @ [RdOp k v]))\<rparr>)"
proof -
  have ok: "wok (sys_world \<sigma>)" and cl: "client_ok (wview (sys_world \<sigma>)) (sys_clients \<sigma> i)"
    using inv by (auto simp: sys_inv_def)
  obtain w1 where w1: "W_Get W (sys_world \<sigma>) k = (view_result (wview (sys_world \<sigma>) k), w1)" "wok w1"
    "wview w1 = wview (sys_world \<sigma>)" "wseq w1 = wseq (sys_world \<sigma>)" using w_get [OF ok] by blast
  have "w = sys_world \<sigma> \<or> w = w1" using rd w1(1)
    by (auto simp: Engine_Read_def Let_def split: option.splits if_splits)
  then have "wok w" "wview w = wview (sys_world \<sigma>)" "wseq w = wseq (sys_world \<sigma>)" using w1 ok by auto
  moreover have "client_ok (wview (sys_world \<sigma>)) (Active txn' (l @ [RdOp k v]))"
    using live_ok_read [where m = "wview (sys_world \<sigma>)" and l = l, OF _ rd w1(1)] cl c by (simp add: client_ok_def)
  ultimately show ?thesis using inv by (simp add: sys_inv_def)
qed

lemma sys_inv_certify:
  assumes inv: "sys_inv w0 \<sigma>" and c: "sys_clients \<sigma> i = Waiting txn l" "Commit_request txn = Inr req"
    and cert: "W_Certify W (sys_world \<sigma>) i req r w" and room: "seq_room (wseq (sys_world \<sigma>))"
  shows "sys_inv w0 (\<sigma>\<lparr>sys_world := w, sys_clients := (sys_clients \<sigma>)(i := Idle),
    sys_hist := (if txn_committed (Commit_finish txn r) then sys_hist \<sigma> @ [l] else sys_hist \<sigma>)\<rparr>)"
proof (cases "res_Committed r")
  case True
  with sys_inv_commit [OF inv c cert _ room] show ?thesis by (simp add: Commit_finish_def)
next
  case False
  have "wok (sys_world \<sigma>)" using inv by (simp add: sys_inv_def)
  moreover have "txn_committed txn = False"
    using c(2) by (auto simp: Commit_request_def checkActive_def split: if_splits)
  ultimately show ?thesis using w_certify [OF _ room cert] False inv
    by (simp add: sys_inv_def client_ok_def Commit_finish_def)
qed

lemma sys_inv_step:
  assumes inv: "sys_inv w0 \<sigma>" and step: "sys_step W \<sigma> ev \<sigma>'" and room: "unat (wseq w0) + length (sys_hist \<sigma>') + 1 < 2 ^ 64"
  shows "sys_inv w0 \<sigma>'"
proof -
  have ok: "wok (sys_world \<sigma>)" and cl: "client_ok (wview (sys_world \<sigma>)) (sys_clients \<sigma> i)" for i
    using inv by (auto simp: sys_inv_def)
  from step show ?thesis
  proof cases
    case (step_begin i txn e)
    then show ?thesis using sys_inv_client [OF inv, of "Active txn []" i] live_ok_begin
      by (simp add: sys_inv_def client_ok_def)
  next
    case (step_read i txn l k v txn' w)
    with sys_inv_read [OF inv step_read(3,4)] show ?thesis by simp
  next
    case (step_write i txn l k v txn')
    then show ?thesis using inv cl [of i] live_ok_write by (auto simp: client_ok_def intro!: sys_inv_client)
  next
    case (step_abort i txn l)
    then show ?thesis using inv by (auto simp: client_ok_def intro!: sys_inv_client)
  next
    case (step_submit i txn l req)
    then show ?thesis using inv cl [of i] w_submit [OF ok, of i req] by (auto simp: sys_inv_def client_ok_def)
  next
    case (step_certify i txn l req r w)
    have "seq_room (wseq (sys_world \<sigma>))"
      using inv room step_certify(2) by (auto simp: sys_inv_def seq_room_def split: if_splits)
    from sys_inv_certify [OF inv step_certify(3-5) this] show ?thesis unfolding step_certify(2) .
  next
    case (step_internal w)
    then show ?thesis using inv w_internal [OF ok] by (auto intro!: sys_inv_world)
  qed
qed

lemma hist_grows: "sys_step W \<sigma> ev \<sigma>' \<Longrightarrow> length (sys_hist \<sigma>) \<le> length (sys_hist \<sigma>')"
  by (induction rule: sys_step.induct) auto

lemma sys_inv_reach:
  "sys_reach W (sys_init w0) \<sigma> \<Longrightarrow> wok w0 \<Longrightarrow> unat (wseq w0) + length (sys_hist \<sigma>) + 1 < 2 ^ 64 \<Longrightarrow> sys_inv w0 \<sigma>"
proof (induction "sys_init w0" \<sigma> rule: sys_reach.induct)
  case reach_refl
  then show ?case by (simp add: sys_inv_init)
next
  case (reach_step \<sigma>' ev \<sigma>'')
  then have "sys_inv w0 \<sigma>'" using hist_grows [OF reach_step(3)] by simp
  then show ?case using reach_step(3,5) by (rule sys_inv_step)
qed

text \<open>Every reachable state is the result of the committed transactions run one at a time, each of
  whose reads returned what it returns in that serial run.\<close>

lemma serializable:
  assumes "wok w0" "sys_reach W (sys_init w0) \<sigma>" "unat (wseq w0) + length (sys_hist \<sigma>) + 1 < 2 ^ 64"
  shows "replay (db_of (wview w0)) (concat (sys_hist \<sigma>)) = Some (db_of (wview (sys_world \<sigma>)))"
  using sys_inv_reach [OF assms(2,1,3)] by (simp add: sys_inv_def)

end

subsection \<open>Both certifiers keep the contract, over any store that keeps its own\<close>

sublocale store_contract \<subseteq> imm: certifier_contract "imm_world ops" "\<lambda>w. view (snd w)" "\<lambda>w. commitSeq (fst w)"
  "\<lambda>w. ok (snd w) \<and> coherent (view (snd w)) (fst w)"
proof unfold_locales
  fix w w' :: "ImmediateCertifier \<times> 's" and k i req r
  assume ok: "ok (snd w) \<and> coherent (view (snd w)) (fst w)"
  then show "versions_in (view (snd w)) (commitSeq (fst w))" by (simp add: coherent_def)
  show "\<exists>w'. W_Get (imm_world ops) w k = (view_result (view (snd w) k), w') \<and>
      (ok (snd w') \<and> coherent (view (snd w')) (fst w')) \<and> view (snd w') = view (snd w) \<and>
      commitSeq (fst w') = commitSeq (fst w)"
    using get [of "snd w" k] ok by (cases w) (auto simp: imm_world_def)
  show "(ok (snd (W_Submit (imm_world ops) w i req)) \<and>
       coherent (view (snd (W_Submit (imm_world ops) w i req))) (fst (W_Submit (imm_world ops) w i req))) \<and>
      view (snd (W_Submit (imm_world ops) w i req)) = view (snd w) \<and>
      commitSeq (fst (W_Submit (imm_world ops) w i req)) = commitSeq (fst w)"
    using ok by (simp add: imm_world_def)
  show "(ok (snd w') \<and> coherent (view (snd w')) (fst w')) \<and>
      (if res_Committed r
       then occ_spec (view (snd w)) (commitSeq (fst w)) req = (True, view (snd w'), commitSeq (fst w'))
       else view (snd w') = view (snd w) \<and> commitSeq (fst w') = commitSeq (fst w))"
    if "seq_room (commitSeq (fst w))" "W_Certify (imm_world ops) w i req r w'"
    using submit_refines [of "snd w" "fst w" req] ok that
    by (cases w; cases w') (auto simp: imm_world_def occ_spec_def split: if_splits)
  show "(ok (snd w') \<and> coherent (view (snd w')) (fst w')) \<and> view (snd w') = view (snd w) \<and>
      commitSeq (fst w') = commitSeq (fst w)" if "W_Internal (imm_world ops) w w'"
    using that by (simp add: imm_world_def)
qed

sublocale store_contract \<subseteq> epoch: certifier_contract "epoch_world ops srt"
  "\<lambda>w. view (fst (snd w))" "\<lambda>w. commitSeq (fst w)" "\<lambda>w. ok (fst (snd w)) \<and> coherent (view (fst (snd w))) (fst w)"
  for srt
proof unfold_locales
  fix w w' :: "'s epoch_state" and k i req r
  assume ok: "ok (fst (snd w)) \<and> coherent (view (fst (snd w))) (fst w)"
  obtain c s ph where w: "w = (c, s, ph)" by (cases w)
  from ok show "versions_in (view (fst (snd w))) (commitSeq (fst w))" by (simp add: coherent_def)
  show "\<exists>w'. W_Get (epoch_world ops srt) w k = (view_result (view (fst (snd w)) k), w') \<and>
      (ok (fst (snd w')) \<and> coherent (view (fst (snd w'))) (fst w')) \<and>
      view (fst (snd w')) = view (fst (snd w)) \<and> commitSeq (fst w') = commitSeq (fst w)"
    using get [of s k] ok by (auto simp: w epoch_world_def)
  show "(ok (fst (snd (W_Submit (epoch_world ops srt) w i req))) \<and>
       coherent (view (fst (snd (W_Submit (epoch_world ops srt) w i req)))) (fst (W_Submit (epoch_world ops srt) w i req))) \<and>
      view (fst (snd (W_Submit (epoch_world ops srt) w i req))) = view (fst (snd w)) \<and>
      commitSeq (fst (W_Submit (epoch_world ops srt) w i req)) = commitSeq (fst w)"
    using ok by (simp add: w epoch_world_def EpochCertifier_Submit_def coherent_def)
  show "(ok (fst (snd w')) \<and> coherent (view (fst (snd w'))) (fst w')) \<and>
      (if res_Committed r
       then occ_spec (view (fst (snd w))) (commitSeq (fst w)) req = (True, view (fst (snd w')), commitSeq (fst w'))
       else view (fst (snd w')) = view (fst (snd w)) \<and> commitSeq (fst w') = commitSeq (fst w))"
    if room: "seq_room (commitSeq (fst w))" and cert: "W_Certify (epoch_world ops srt) w i req r w'"
  proof -
    from cert obtain cl p ps c' cl' s' where "w' = (c', s', Some (cl', ps))" "certifyTxn ops c cl s req = (Inr r, c', cl', s')"
      by (auto simp: epoch_world_def w elim!: epoch_certifyE)
    with certify_refines [of s c cl req] ok room show ?thesis by (auto simp: w split: if_splits)
  qed
  show "(ok (fst (snd w')) \<and> coherent (view (fst (snd w'))) (fst w')) \<and>
      view (fst (snd w')) = view (fst (snd w)) \<and> commitSeq (fst w') = commitSeq (fst w)"
    if "W_Internal (epoch_world ops srt) w w'"
    using that ok by (auto simp: epoch_world_def w coherent_def elim!: epoch_internalE)
qed

context store_contract
begin

lemma epoch_contract:
  "certifier_contract (epoch_world ops srt) (\<lambda>w. view (fst (snd w))) (\<lambda>w. commitSeq (fst w))
     (\<lambda>w. ok (fst (snd w)) \<and> coherent (view (fst (snd w))) (fst w))"
  by unfold_locales

end

subsection \<open>A concrete run\<close>

text \<open>The first transaction of an engine reads a key, overwrites it and commits.\<close>

abbreviation rmw_txn :: "string \<Rightarrow> string \<Rightarrow> uint64 \<Rightarrow> Txn" where
  "rmw_txn k v n \<equiv> \<lparr>txn_ID = ''txn-'' @ fmt_d 1, txn_ReadSet = [\<lparr>re_Key = k, re_VersionSeen = n\<rparr>],
     txn_WriteSet = [\<lparr>we_Key = k, we_Value = v\<rparr>], txn_writeBuffer = [(k, v)], txn_readVersions = [(k, n)],
     txn_aborted = False, txn_committed = False\<rparr>"

lemma rmw_run:
  assumes get: "W_Get W w k = (\<lparr>rr_Value = x, rr_Version = n, rr_Found = True\<rparr>, w)"
    and turn: "W_Internal W (W_Submit W w 0 req) w1 \<or> w1 = W_Submit W w 0 req"
    and req: "req = request (''txn-'' @ fmt_d 1) [(k, n)] [(k, v)]"
    and cert: "W_Certify W w1 0 req r w2" "res_Committed r"
  shows "\<exists>\<sigma>. sys_reach W (sys_init w) \<sigma> \<and> sys_world \<sigma> = w2 \<and> sys_hist \<sigma> = [[RdOp k x, WrOp k v]]"
proof -
  define st where "st w c h = \<lparr>sys_world = w, sys_engine = \<lparr>eng_idCounter = 1\<rparr>, sys_clients = (\<lambda>_. Idle)(0 := c), sys_hist = h\<rparr>" for w :: 'a and c h
  let ?t2 = "rmw_txn k v n"
  let ?t1 = "?t2\<lparr>txn_WriteSet := [], txn_writeBuffer := []\<rparr>"
  let ?t0 = "?t1\<lparr>txn_ReadSet := [], txn_readVersions := []\<rparr>"
  let ?l = "[RdOp k x, WrOp k v]"
  have "sys_step W (sys_init w) (EvBegin 0) (st w (Active ?t0 []) [])"
    using step_begin [of "sys_init w" 0 ?t0 "\<lparr>eng_idCounter = 1\<rparr>" W]
    by (simp add: sys_init_def NewEngine_def Engine_Begin_def Let_def st_def)
  moreover have "sys_step W (st w (Active ?t0 []) []) (EvRead 0 k x) (st w (Active ?t1 [RdOp k x]) [])"
    using step_read [of "st w (Active ?t0 []) []" 0 ?t0 "[]" W k x ?t1 w] get
    by (simp add: st_def Engine_Read_def checkActive_def)
  moreover have "sys_step W (st w (Active ?t1 [RdOp k x]) []) (EvWrite 0 k v) (st w (Active ?t2 ?l) [])"
    using step_write [of "st w (Active ?t1 [RdOp k x]) []" 0 ?t1 "[RdOp k x]" k v ?t2 W]
    by (simp add: st_def Engine_Write_def checkActive_def)
  moreover have "sys_step W (st w (Active ?t2 ?l) []) (EvSubmit 0) (st (W_Submit W w 0 req) (Waiting ?t2 ?l) [])"
    using step_submit [of "st w (Active ?t2 ?l) []" 0 ?t2 ?l req W] req
    by (simp add: st_def Commit_request_def checkActive_def)
  moreover have "sys_reach W (st (W_Submit W w 0 req) (Waiting ?t2 ?l) []) (st w1 (Waiting ?t2 ?l) [])"
    using turn step_internal [of W "st (W_Submit W w 0 req) (Waiting ?t2 ?l) []" w1]
    by (auto simp: st_def intro: sys_reach.intros)
  moreover have "sys_step W (st w1 (Waiting ?t2 ?l) []) (EvCertify 0 True) (st w2 Idle [?l])"
    using step_certify [of "st w1 (Waiting ?t2 ?l) []" 0 ?t2 ?l req W r w2] cert req
    by (simp add: st_def Commit_request_def checkActive_def Commit_finish_def)
  ultimately have "sys_reach W (sys_init w) (st w2 Idle [?l])"
    by (meson sys_reach.intros sys_reach_trans)
  then show ?thesis by (intro exI [of _ "st w2 Idle [?l]"]) (simp add: st_def)
qed

lemma db_of_upd_single: "(db_of [k \<mapsto> p])(k \<mapsto> v) = [k \<mapsto> v]"
  by (auto simp: db_of_def)

subsection \<open>The loop of an epoch, in one piece and in steps\<close>

lemma put_answers_Cons: "put_answers ((ch, r) # rs) chs = put_answers rs (AList.update ch r chs)"
  by (simp add: put_answers_def)

lemma epoch_turns_end: "epoch_turns ops (c, s, Some (cl, [])) rs w \<longleftrightarrow> rs = [] \<and> w = (c, s, Some (cl, []))"
  by (auto elim: epoch_turns.cases epoch_certifyE intro: turns_nil)

lemma epoch_turns_step:
  "epoch_turns ops (c, s, Some (cl, p # ps)) rs (c', s', Some (cl', [])) \<longleftrightarrow>
   (\<exists>r c1 cl1 s1 rs'. certifyTxn ops c cl s (p_req p) = (Inr r, c1, cl1, s1) \<and> rs = (p_resultCh p, r) # rs' \<and>
      epoch_turns ops (c1, s1, Some (cl1, ps)) rs' (c', s', Some (cl', [])))" (is "?l \<longleftrightarrow> ?r")
proof
  assume ?l
  then show ?r by (cases rule: epoch_turns.cases) (auto elim!: epoch_certifyE)
next
  assume ?r
  then show ?l by (auto intro: turns_more epoch_turn)
qed

lemma no_panic_certify:
  assumes "\<forall>s r p s'. Store_ApplyCommit ops s r \<noteq> (ApplyPanic p, s')"
  shows "certifyTxn ops c cl s req \<noteq> (Inl pmsg, c', cl', s')"
  using assms by (auto simp: certifyTxn_def Let_def split: option.splits prod.splits apply_outcome.splits)

lemma no_panic_loop:
  assumes "\<forall>s r p s'. Store_ApplyCommit ops s r \<noteq> (ApplyPanic p, s')"
  shows "epoch_loop ops c cl s chs ps \<noteq> (LoopPanic pmsg, c', s', chs')"
proof (induction ps arbitrary: c cl s chs)
  case Nil
  then show ?case by simp
next
  case (Cons p ps)
  obtain o1 c1 cl1 s1 where step: "certifyTxn ops c cl s (p_req p) = (o1, c1, cl1, s1)" by (metis prod_cases4)
  with no_panic_certify [OF assms, of c cl s "p_req p"] obtain r where "o1 = Inr r" by (cases o1) auto
  with step Cons.IH show ?case by simp
qed

lemma epoch_loop_turns:
  assumes "distinct (map p_resultCh ps)" "\<forall>p \<in> set ps. map_of chs (p_resultCh p) = None"
  shows "epoch_loop ops c cl s chs ps = (LoopDone, c', s', chs') \<longleftrightarrow>
    (\<exists>cl' rs. epoch_turns ops (c, s, Some (cl, ps)) rs (c', s', Some (cl', [])) \<and> chs' = put_answers rs chs)"
  using assms
proof (induction ps arbitrary: c cl s chs)
  case Nil
  then show ?case by (auto simp: epoch_turns_end put_answers_def)
next
  case (Cons p ps)
  obtain o1 c1 cl1 s1 where step: "certifyTxn ops c cl s (p_req p) = (o1, c1, cl1, s1)" by (metis prod_cases4)
  note slots = fresh_slots [OF Cons.prems]
  show ?case
  proof (cases o1)
    case (Inl pmsg)
    with step show ?thesis by (simp add: epoch_turns_step)
  next
    case (Inr r)
    let ?chs = "AList.update (p_resultCh p) r chs"
    have "epoch_loop ops c cl s chs (p # ps) = (LoopDone, c', s', chs') \<longleftrightarrow> epoch_loop ops c1 cl1 s1 ?chs ps = (LoopDone, c', s', chs')"
      using Cons.prems(2) step Inr by simp
    also have "\<dots> \<longleftrightarrow> (\<exists>cl' rs. epoch_turns ops (c1, s1, Some (cl1, ps)) rs (c', s', Some (cl', [])) \<and> chs' = put_answers rs ?chs)"
      by (rule Cons.IH [OF slots(2,1)])
    also have "\<dots> \<longleftrightarrow> (\<exists>cl' rs. epoch_turns ops (c, s, Some (cl, p # ps)) rs (c', s', Some (cl', [])) \<and> chs' = put_answers rs chs)"
      unfolding epoch_turns_step step Inr by (simp add: put_answers_Cons ex_simps [symmetric] del: ex_simps)
    finally show ?thesis .
  qed
qed

subsection \<open>Properties\<close>

text \<open>\<^bold>\<open>C1.\<close> Serializability with the immediate certifier: start from any well-formed in-memory store
  and a certifier made from it, and let any number of clients begin, read, write, commit and abort in
  any interleaving. In every reachable state, running the committed transactions one after the other
  in commit order on the initial contents succeeds (each read, buffered or from storage, returned what
  the serial run returns) and gives the store's contents.\<close>

theorem immediate_serializable:
  assumes "mem_wf s0" "view_pos (mem_view s0)" "NewImmediateCertifier MemStore_ops s0 = (c0, s1)"
    and "sys_reach (imm_world MemStore_ops) (sys_init (c0, s1)) \<sigma>"
    and "unat (commitSeq c0) + length (sys_hist \<sigma>) + 1 < 2 ^ 64"
  shows "replay (db_of (mem_view s0)) (concat (sys_hist \<sigma>)) = Some (db_of (mem_view (snd (sys_world \<sigma>))))"
  using mem.imm.serializable [of "(c0, s1)" \<sigma>] mem.new_coherent [OF assms(1,2)] assms(3-5) by auto

theorem immediate_serializable_witness:
  "\<exists>\<sigma>. sys_reach (imm_world MemStore_ops) (sys_init (\<lparr>latestVersion = [(''x'', 3)], commitSeq = 3\<rparr>, store_with ''x'' ''a'' 3)) \<sigma> \<and>
     sys_hist \<sigma> = [[RdOp ''x'' ''a'', WrOp ''x'' ''b'']] \<and> db_of (mem_view (snd (sys_world \<sigma>))) = [''x'' \<mapsto> ''b'']"
proof -
  let ?W = "imm_world MemStore_ops" and ?c = "\<lparr>latestVersion = [(''x'', 3)], commitSeq = 3\<rparr>" and ?s = "store_with ''x'' ''a'' 3"
  let ?req = "request (''txn-'' @ fmt_d 1) [(''x'', 3)] [(''x'', ''b'')]"
  let ?w2 = "(\<lparr>latestVersion = [(''x'', 4)], commitSeq = 4\<rparr>, store_with ''x'' ''b'' 4)"
  have "W_Certify ?W (?c, ?s) 0 ?req (committed_result (''txn-'' @ fmt_d 1) 4) ?w2"
    by (simp add: imm_world_def ImmediateCertifier_SubmitCommit_def MemStore_ops_def MemStore_ApplyCommit_def
        commit_record_def write_entries_def)
  then obtain \<sigma> where run: "sys_reach ?W (sys_init (?c, ?s)) \<sigma>" "sys_hist \<sigma> = [[RdOp ''x'' ''a'', WrOp ''x'' ''b'']]"
    using rmw_run [of ?W "(?c, ?s)" "''x''" "''a''" 3 ?req "(?c, ?s)" "''b''" _ ?w2]
    by (auto simp: imm_world_def MemStore_ops_def MemStore_Get_def)
  have "NewImmediateCertifier MemStore_ops ?s = (?c, ?s)"
    by (simp add: NewImmediateCertifier_def MemStore_ops_def MemStore_DumpState_def load_versions_def)
  from immediate_serializable [OF mem_wf_store_with _ this run(1)] run
  have "db_of (mem_view (snd (sys_world \<sigma>))) = (db_of [''x'' \<mapsto> (''a'', 3)])(''x'' \<mapsto> ''b'')"
    by (simp add: view_pos_def db_of_def)
  with run db_of_upd_single show ?thesis by auto
qed

text \<open>\<^bold>\<open>C2.\<close> Serializability with the epoch certifier, with the same clients, batches formed and sorted in
  any way \<open>sort.Slice\<close> may choose, and readers that run between the commits of one epoch.\<close>

theorem epoch_serializable:
  assumes "mem_wf s0" "view_pos (mem_view s0)" "NewEpochCertifier MemStore_ops s0 duration = (c0, s1)"
    and "sys_reach (epoch_world MemStore_ops srt) (sys_init (c0, s1, None)) \<sigma>"
    and "unat (commitSeq c0) + length (sys_hist \<sigma>) + 1 < 2 ^ 64"
  shows "replay (db_of (mem_view s0)) (concat (sys_hist \<sigma>)) = Some (db_of (mem_view (fst (snd (sys_world \<sigma>)))))"
proof -
  have "mem_wf s1 \<and> mem_view s1 = mem_view s0 \<and> coherent (mem_view s0) c0"
    using mem.new_epoch_coherent [OF assms(1,2), of duration] assms(3) by auto
  with mem.epoch.serializable [of "(c0, s1, None)" srt \<sigma>] assms(4,5) show ?thesis by simp
qed

theorem epoch_serializable_witness:
  "\<exists>\<sigma>. sys_reach (epoch_world MemStore_ops (sort_key txn_key))
         (sys_init (fst (NewEpochCertifier MemStore_ops (store_with ''x'' ''a'' 3) 10), store_with ''x'' ''a'' 3, None)) \<sigma> \<and>
     sys_hist \<sigma> = [[RdOp ''x'' ''a'', WrOp ''x'' ''b'']] \<and> db_of (mem_view (fst (snd (sys_world \<sigma>)))) = [''x'' \<mapsto> ''b'']"
proof -
  let ?W = "epoch_world MemStore_ops (sort_key txn_key)" and ?s = "store_with ''x'' ''a'' 3"
  let ?c = "epoch_with [(''x'', 3)] 3 []\<lparr>ticker := None, runners := 0\<rparr>"
  let ?req = "request (''txn-'' @ fmt_d 1) [(''x'', 3)] [(''x'', ''b'')]"
  let ?w1 = "(?c, ?s, Some ([], [\<lparr>p_req = ?req, p_resultCh = 0\<rparr>]))"
  let ?w2 = "(?c\<lparr>latestVersion := [(''x'', 4)], commitSeq := 4\<rparr>, store_with ''x'' ''b'' 4, Some ([(''x'', ''txn-'' @ fmt_d 1)], []))"
  have new: "NewEpochCertifier MemStore_ops ?s 10 = (?c, ?s)"
    by (simp add: NewEpochCertifier_def MemStore_ops_def MemStore_DumpState_def load_versions_def)
  have turn: "W_Internal ?W (W_Submit ?W (?c, ?s, None) 0 ?req) ?w1"
    using epoch_swap [of "EpochCertifier_Submit ?c 0 ?req" "sort_key txn_key" ?s]
    by (simp add: epoch_world_def EpochCertifier_Submit_def)
  have "W_Certify ?W ?w1 0 ?req (committed_result (''txn-'' @ fmt_d 1) 4) ?w2"
    using epoch_turn [of MemStore_ops ?c "[]" ?s "\<lparr>p_req = ?req, p_resultCh = 0\<rparr>" "committed_result (''txn-'' @ fmt_d 1) 4"]
    by (simp add: epoch_world_def certifyTxn_def MemStore_ops_def MemStore_ApplyCommit_def write_entries_def)
  moreover have "W_Get ?W (?c, ?s, None) ''x'' = (\<lparr>rr_Value = ''a'', rr_Version = 3, rr_Found = True\<rparr>, (?c, ?s, None))"
    by (simp add: epoch_world_def MemStore_ops_def MemStore_Get_def)
  ultimately obtain \<sigma> where run: "sys_reach ?W (sys_init (?c, ?s, None)) \<sigma>" "sys_hist \<sigma> = [[RdOp ''x'' ''a'', WrOp ''x'' ''b'']]"
    using rmw_run [of ?W "(?c, ?s, None)" "''x''" "''a''" 3 ?req ?w1 "''b''" _ ?w2] turn by force
  from epoch_serializable [OF mem_wf_store_with _ new run(1)] run
  have "db_of (mem_view (fst (snd (sys_world \<sigma>)))) = (db_of [''x'' \<mapsto> (''a'', 3)])(''x'' \<mapsto> ''b'')"
    by (simp add: view_pos_def db_of_def)
  with run new db_of_upd_single show ?thesis by auto
qed

text \<open>The loop of \<open>processEpoch\<close> may be taken in steps: for a store that does not panic, the whole function
  ends with a certifier, a store and a set of answers exactly when the certifier's goroutine can swap out
  the batch, certify the sorted batch one transaction at a time and stop, ending there with these answers.\<close>

lemma processEpoch_in_steps:
  assumes "sortSlice_spec txn_key srt" "currentBatch c \<noteq> []" "distinct (map p_resultCh (currentBatch c))"
    and "\<forall>p \<in> set (currentBatch c). map_of chs (p_resultCh p) = None"
    and "\<forall>s r p s'. Store_ApplyCommit ops s r \<noteq> (ApplyPanic p, s')"
  shows "processEpoch ops srt c s chs = (LoopDone, c', s', chs') \<longleftrightarrow>
    (\<exists>w1 rs w2. epoch_internal srt (c, s, None) w1 \<and> epoch_turns ops w1 rs w2 \<and> epoch_internal srt w2 (c', s', None) \<and>
       chs' = put_answers rs chs)"
proof -
  let ?b = "srt (currentBatch c)" and ?c = "c\<lparr>currentBatch := []\<rparr>"
  note srt = sorted_batch_facts [OF assms(1), where xs = "currentBatch c"]
  obtain e c1 s1 chs1 where run: "epoch_loop ops ?c [] s chs ?b = (e, c1, s1, chs1)" by (metis prod_cases4)
  have "e = LoopDone"
  proof (cases e)
    case (LoopPanic pmsg)
    with run no_panic_loop [OF assms(5)] show ?thesis by blast
  next
    case LoopBlocked
    with epoch_loop_answers(1) [OF _ _ run] srt assms(3,4) show ?thesis by simp
  qed
  with run assms(2) have "processEpoch ops srt c s chs = (LoopDone, c', s', chs') \<longleftrightarrow> epoch_loop ops ?c [] s chs ?b = (LoopDone, c', s', chs')"
    by (simp add: processEpoch_def)
  also have "\<dots> \<longleftrightarrow> (\<exists>cl' rs. epoch_turns ops (?c, s, Some ([], ?b)) rs (c', s', Some (cl', [])) \<and> chs' = put_answers rs chs)"
    using srt assms(3,4) by (intro epoch_loop_turns) simp_all
  also have "\<dots> \<longleftrightarrow> (\<exists>w1 rs w2. epoch_internal srt (c, s, None) w1 \<and> epoch_turns ops w1 rs w2 \<and> epoch_internal srt w2 (c', s', None) \<and>
       chs' = put_answers rs chs)"
  proof
    assume "\<exists>cl' rs. epoch_turns ops (?c, s, Some ([], ?b)) rs (c', s', Some (cl', [])) \<and> chs' = put_answers rs chs"
    with epoch_swap [OF assms(2), of srt s] epoch_done [of srt c' s'] show "\<exists>w1 rs w2. epoch_internal srt (c, s, None) w1 \<and>
       epoch_turns ops w1 rs w2 \<and> epoch_internal srt w2 (c', s', None) \<and> chs' = put_answers rs chs" by blast
  qed (auto elim!: epoch_internalE)
  finally show ?thesis .
qed

end
