(* ===== verification/Rpc.thy ===== *)
theory Rpc
  imports System
begin

text \<open>
  The gRPC layer: \<open>src/pkg/storage/grpc_client.go\<close>, \<open>grpc_server.go\<close>, \<open>src/pkg/ccaas/grpc_client.go\<close>,
  \<open>grpc_server.go\<close>, and the parts of the generated code in \<open>src/proto/ccaspb\<close> that they call.

  \<^item> Each protobuf message is a record; \<open>message\<close> is one of them on the wire.
  \<^item> \<open>'w invoke\<close> stands for \<open>grpc.ClientConn.Invoke\<close>, library code outside the repository, as an
    argument: it takes the full method name and the request and returns an error or a reply, and may
    change the state \<open>'w\<close> of the server. A reply of another kind than the stub's \<open>out\<close> stands for one
    that cannot be decoded, which \<open>Invoke\<close> reports as an error.
  \<^item> A handler of the generated code gets a function \<open>dec\<close> that unmarshals the bytes of the call into the
    request type that the handler names; it is an argument too, a \<open>decoder\<close>.
  \<^item> \<open>delivers\<close> is the hypothesis on a connection that works: a call of \<open>/service/method\<close> with a request of
    the method's type runs the handler that the service description lists for the method, once, with a
    decoder that yields that request, and returns its reply. \<open>loopback\<close> is a connection that has this
    property.
  \<^item> A panic of a handler kills the server process, which the caller sees as an error.
  \<^item> \<open>remote_store\<close>: over a connection that delivers, the client is a store again, with the laws of
    the store behind the server.
\<close>

subsection \<open>Messages\<close>

record GetRequest =
  gq_Key :: string

record GetResponse =
  gp_Value :: string
  gp_Version :: uint64
  gp_Found :: bool

record pb_CommitWrite =
  pcw_Key :: string
  pcw_Value :: string
  pcw_NewVersion :: uint64

record ApplyCommitRequest =
  aq_CommitSeq :: uint64
  aq_TxnId :: string
  aq_Writes :: "pb_CommitWrite list"

record ApplyCommitResponse =
  ap_Error :: string

record LoadInitialDataRequest =
  lq_Data :: "(string, string) gomap"

datatype LoadInitialDataResponse = LoadInitialDataResponse

datatype DumpStateRequest = DumpStateRequest

record DumpStateEntry =
  de_Value :: string
  de_Version :: uint64

record DumpStateResponse =
  dp_Entries :: "(string, DumpStateEntry) gomap"

datatype SyncFromStorageRequest = SyncFromStorageRequest

datatype SyncFromStorageResponse = SyncFromStorageResponse

record pb_ReadEntry =
  pre_Key :: string
  pre_VersionSeen :: uint64

record pb_WriteEntry =
  pwe_Key :: string
  pwe_Value :: string

record SubmitCommitRequest =
  sq_TxnId :: string
  sq_ReadSet :: "pb_ReadEntry list"
  sq_WriteSet :: "pb_WriteEntry list"

record SubmitCommitResponse =
  sp_TxnId :: string
  sp_Committed :: bool
  sp_CommitSeq :: uint64
  sp_Reason :: string

datatype message =
    M_GetRequest GetRequest | M_GetResponse GetResponse
  | M_ApplyCommitRequest ApplyCommitRequest | M_ApplyCommitResponse ApplyCommitResponse
  | M_LoadInitialDataRequest LoadInitialDataRequest | M_LoadInitialDataResponse LoadInitialDataResponse
  | M_DumpStateRequest DumpStateRequest | M_DumpStateResponse DumpStateResponse
  | M_SubmitCommitRequest SubmitCommitRequest | M_SubmitCommitResponse SubmitCommitResponse
  | M_SyncFromStorageRequest SyncFromStorageRequest | M_SyncFromStorageResponse SyncFromStorageResponse

type_synonym 'w invoke = "'w \<Rightarrow> string \<Rightarrow> message \<Rightarrow> (string + message) \<times> 'w"

text \<open>The argument \<open>dec\<close> of a generated handler: it unmarshals the bytes of a call into a request of the type
  that it is given, or fails. What it yields for the bytes of another message is up to the library
  (protobuf decodes many of them), so it is a field per request type, each with its own result.\<close>

record decoder =
  as_GetRequest :: "string + GetRequest"
  as_ApplyCommitRequest :: "string + ApplyCommitRequest"
  as_LoadInitialDataRequest :: "string + LoadInitialDataRequest"
  as_DumpStateRequest :: "string + DumpStateRequest"
  as_SubmitCommitRequest :: "string + SubmitCommitRequest"
  as_SyncFromStorageRequest :: "string + SyncFromStorageRequest"

type_synonym 'w handler = "'w \<Rightarrow> decoder \<Rightarrow> (string + message) \<times> 'w"

text \<open>The name of a message's type.\<close>

fun msg_type :: "message \<Rightarrow> string" where
  "msg_type (M_GetRequest _) = ''GetRequest''"
| "msg_type (M_GetResponse _) = ''GetResponse''"
| "msg_type (M_ApplyCommitRequest _) = ''ApplyCommitRequest''"
| "msg_type (M_ApplyCommitResponse _) = ''ApplyCommitResponse''"
| "msg_type (M_LoadInitialDataRequest _) = ''LoadInitialDataRequest''"
| "msg_type (M_LoadInitialDataResponse _) = ''LoadInitialDataResponse''"
| "msg_type (M_DumpStateRequest _) = ''DumpStateRequest''"
| "msg_type (M_DumpStateResponse _) = ''DumpStateResponse''"
| "msg_type (M_SubmitCommitRequest _) = ''SubmitCommitRequest''"
| "msg_type (M_SubmitCommitResponse _) = ''SubmitCommitResponse''"
| "msg_type (M_SyncFromStorageRequest _) = ''SyncFromStorageRequest''"
| "msg_type (M_SyncFromStorageResponse _) = ''SyncFromStorageResponse''"

text \<open>\<open>decodes dec m\<close>: unmarshalling as the type of \<open>m\<close> gives back \<open>m\<close>.\<close>

fun decodes :: "decoder \<Rightarrow> message \<Rightarrow> bool" where
  "decodes dec (M_GetRequest r) = (as_GetRequest dec = Inr r)"
| "decodes dec (M_ApplyCommitRequest r) = (as_ApplyCommitRequest dec = Inr r)"
| "decodes dec (M_LoadInitialDataRequest r) = (as_LoadInitialDataRequest dec = Inr r)"
| "decodes dec (M_DumpStateRequest r) = (as_DumpStateRequest dec = Inr r)"
| "decodes dec (M_SubmitCommitRequest r) = (as_SubmitCommitRequest dec = Inr r)"
| "decodes dec (M_SyncFromStorageRequest r) = (as_SyncFromStorageRequest dec = Inr r)"
| "decodes dec _ = True"

definition unmarshal_error :: string where
  "unmarshal_error = ''grpc: failed to unmarshal the received message''"

subsection \<open>The storage service: generated client\<close>

definition StorageService_Get_FullMethodName :: string where
  "StorageService_Get_FullMethodName = ''/ccas.StorageService/Get''"

definition StorageService_ApplyCommit_FullMethodName :: string where
  "StorageService_ApplyCommit_FullMethodName = ''/ccas.StorageService/ApplyCommit''"

definition StorageService_LoadInitialData_FullMethodName :: string where
  "StorageService_LoadInitialData_FullMethodName = ''/ccas.StorageService/LoadInitialData''"

definition StorageService_DumpState_FullMethodName :: string where
  "StorageService_DumpState_FullMethodName = ''/ccas.StorageService/DumpState''"

definition storageServiceClient_Get :: "'w invoke \<Rightarrow> 'w \<Rightarrow> GetRequest \<Rightarrow> (string + GetResponse) \<times> 'w" where
  "storageServiceClient_Get invoke w req =
     (case invoke w StorageService_Get_FullMethodName (M_GetRequest req) of
        (Inl err, w') \<Rightarrow> (Inl err, w')
      | (Inr m, w') \<Rightarrow> (case m of M_GetResponse resp \<Rightarrow> (Inr resp, w') | _ \<Rightarrow> (Inl unmarshal_error, w')))"

definition storageServiceClient_ApplyCommit ::
    "'w invoke \<Rightarrow> 'w \<Rightarrow> ApplyCommitRequest \<Rightarrow> (string + ApplyCommitResponse) \<times> 'w" where
  "storageServiceClient_ApplyCommit invoke w req =
     (case invoke w StorageService_ApplyCommit_FullMethodName (M_ApplyCommitRequest req) of
        (Inl err, w') \<Rightarrow> (Inl err, w')
      | (Inr m, w') \<Rightarrow> (case m of M_ApplyCommitResponse resp \<Rightarrow> (Inr resp, w') | _ \<Rightarrow> (Inl unmarshal_error, w')))"

definition storageServiceClient_LoadInitialData ::
    "'w invoke \<Rightarrow> 'w \<Rightarrow> LoadInitialDataRequest \<Rightarrow> (string + LoadInitialDataResponse) \<times> 'w" where
  "storageServiceClient_LoadInitialData invoke w req =
     (case invoke w StorageService_LoadInitialData_FullMethodName (M_LoadInitialDataRequest req) of
        (Inl err, w') \<Rightarrow> (Inl err, w')
      | (Inr m, w') \<Rightarrow> (case m of M_LoadInitialDataResponse resp \<Rightarrow> (Inr resp, w') | _ \<Rightarrow> (Inl unmarshal_error, w')))"

definition storageServiceClient_DumpState ::
    "'w invoke \<Rightarrow> 'w \<Rightarrow> DumpStateRequest \<Rightarrow> (string + DumpStateResponse) \<times> 'w" where
  "storageServiceClient_DumpState invoke w req =
     (case invoke w StorageService_DumpState_FullMethodName (M_DumpStateRequest req) of
        (Inl err, w') \<Rightarrow> (Inl err, w')
      | (Inr m, w') \<Rightarrow> (case m of M_DumpStateResponse resp \<Rightarrow> (Inr resp, w') | _ \<Rightarrow> (Inl unmarshal_error, w')))"

subsection \<open>GRPCStoreClient\<close>

definition GRPCStoreClient_Get :: "'w invoke \<Rightarrow> 'w \<Rightarrow> string \<Rightarrow> ReadResult \<times> 'w" where
  "GRPCStoreClient_Get invoke w key =
     (case storageServiceClient_Get invoke w \<lparr>gq_Key = key\<rparr> of
        (Inl err, w') \<Rightarrow> (\<lparr>rr_Value = '''', rr_Version = 0, rr_Found = False\<rparr>, w')
      | (Inr resp, w') \<Rightarrow>
          (\<lparr>rr_Value = gp_Value resp, rr_Version = gp_Version resp, rr_Found = gp_Found resp\<rparr>, w'))"

definition GRPCStoreClient_ApplyCommit :: "'w invoke \<Rightarrow> 'w \<Rightarrow> CommitRecord \<Rightarrow> apply_outcome \<times> 'w" where
  "GRPCStoreClient_ApplyCommit invoke w record =
     (let writes = map (\<lambda>x. \<lparr>pcw_Key = cw_Key x, pcw_Value = cw_Value x, pcw_NewVersion = cw_NewVersion x\<rparr>)
                       (cr_Writes record)
      in case storageServiceClient_ApplyCommit invoke w
                \<lparr>aq_CommitSeq = cr_CommitSeq record, aq_TxnId = cr_TxnID record, aq_Writes = writes\<rparr> of
           (Inl err, w') \<Rightarrow> (ApplyErr err, w')
         | (Inr resp, w') \<Rightarrow>
             if ap_Error resp \<noteq> '''' then (ApplyErr (ap_Error resp), w') else (ApplyOk, w'))"

text \<open>An error of \<open>LoadInitialData\<close> is logged and dropped.\<close>

definition GRPCStoreClient_LoadInitialData :: "'w invoke \<Rightarrow> 'w \<Rightarrow> (string, string) gomap \<Rightarrow> 'w" where
  "GRPCStoreClient_LoadInitialData invoke w data =
     snd (storageServiceClient_LoadInitialData invoke w \<lparr>lq_Data = data\<rparr>)"

definition GRPCStoreClient_DumpState :: "'w invoke \<Rightarrow> 'w \<Rightarrow> (string, ReadResult) gomap \<times> 'w" where
  "GRPCStoreClient_DumpState invoke w =
     (case storageServiceClient_DumpState invoke w DumpStateRequest of
        (Inl err, w') \<Rightarrow> ([], w')
      | (Inr resp, w') \<Rightarrow>
          (fold (\<lambda>ke. AList.update (fst ke)
                        \<lparr>rr_Value = de_Value (snd ke), rr_Version = de_Version (snd ke), rr_Found = True\<rparr>)
                (dp_Entries resp) [], w'))"

definition GRPCStoreClient_ops :: "'w invoke \<Rightarrow> 'w Store" where
  "GRPCStoreClient_ops invoke =
     \<lparr>Store_Get = GRPCStoreClient_Get invoke, Store_ApplyCommit = GRPCStoreClient_ApplyCommit invoke,
      Store_LoadInitialData = GRPCStoreClient_LoadInitialData invoke,
      Store_DumpState = GRPCStoreClient_DumpState invoke\<rparr>"

subsection \<open>GRPCStorageServer\<close>

definition GRPCStorageServer_Get :: "'s Store \<Rightarrow> 's \<Rightarrow> GetRequest \<Rightarrow> (string + GetResponse) \<times> 's" where
  "GRPCStorageServer_Get ops s req =
     (let (r, s') = Store_Get ops s (gq_Key req)
      in (Inr \<lparr>gp_Value = rr_Value r, gp_Version = rr_Version r, gp_Found = rr_Found r\<rparr>, s'))"

definition GRPCStorageServer_ApplyCommit ::
    "'s Store \<Rightarrow> 's \<Rightarrow> ApplyCommitRequest \<Rightarrow> (string + ApplyCommitResponse) \<times> 's" where
  "GRPCStorageServer_ApplyCommit ops s req =
     (let record = \<lparr>cr_CommitSeq = aq_CommitSeq req, cr_TxnID = aq_TxnId req,
                    cr_Writes = map (\<lambda>x. \<lparr>cw_Key = pcw_Key x, cw_Value = pcw_Value x, cw_NewVersion = pcw_NewVersion x\<rparr>)
                                    (aq_Writes req)\<rparr>
      in case Store_ApplyCommit ops s record of
           (ApplyErr err, s') \<Rightarrow> (Inr \<lparr>ap_Error = err\<rparr>, s')
         | (ApplyOk, s') \<Rightarrow> (Inr \<lparr>ap_Error = ''''\<rparr>, s')
         | (ApplyPanic p, s') \<Rightarrow> (Inl p, s'))"

definition GRPCStorageServer_LoadInitialData ::
    "'s Store \<Rightarrow> 's \<Rightarrow> LoadInitialDataRequest \<Rightarrow> (string + LoadInitialDataResponse) \<times> 's" where
  "GRPCStorageServer_LoadInitialData ops s req =
     (Inr LoadInitialDataResponse, Store_LoadInitialData ops s (lq_Data req))"

definition GRPCStorageServer_DumpState ::
    "'s Store \<Rightarrow> 's \<Rightarrow> DumpStateRequest \<Rightarrow> (string + DumpStateResponse) \<times> 's" where
  "GRPCStorageServer_DumpState ops s req =
     (let (state, s') = Store_DumpState ops s;
          entries = fold (\<lambda>kv. AList.update (fst kv) \<lparr>de_Value = rr_Value (snd kv), de_Version = rr_Version (snd kv)\<rparr>) state []
      in (Inr \<lparr>dp_Entries = entries\<rparr>, s'))"

subsection \<open>The storage service: generated server side\<close>

text \<open>A generated handler decodes its request and calls the server's method (the servers install no
  interceptor).\<close>

definition StorageService_Get_Handler :: "'s Store \<Rightarrow> 's handler" where
  "StorageService_Get_Handler ops s dec =
     (case as_GetRequest dec of
        Inl err \<Rightarrow> (Inl err, s)
      | Inr req \<Rightarrow> apfst (map_sum id M_GetResponse) (GRPCStorageServer_Get ops s req))"

definition StorageService_ApplyCommit_Handler :: "'s Store \<Rightarrow> 's handler" where
  "StorageService_ApplyCommit_Handler ops s dec =
     (case as_ApplyCommitRequest dec of
        Inl err \<Rightarrow> (Inl err, s)
      | Inr req \<Rightarrow> apfst (map_sum id M_ApplyCommitResponse) (GRPCStorageServer_ApplyCommit ops s req))"

definition StorageService_LoadInitialData_Handler :: "'s Store \<Rightarrow> 's handler" where
  "StorageService_LoadInitialData_Handler ops s dec =
     (case as_LoadInitialDataRequest dec of
        Inl err \<Rightarrow> (Inl err, s)
      | Inr req \<Rightarrow> apfst (map_sum id M_LoadInitialDataResponse) (GRPCStorageServer_LoadInitialData ops s req))"

definition StorageService_DumpState_Handler :: "'s Store \<Rightarrow> 's handler" where
  "StorageService_DumpState_Handler ops s dec =
     (case as_DumpStateRequest dec of
        Inl err \<Rightarrow> (Inl err, s)
      | Inr req \<Rightarrow> apfst (map_sum id M_DumpStateResponse) (GRPCStorageServer_DumpState ops s req))"

definition StorageService_ServiceDesc :: "'s Store \<Rightarrow> string \<times> (string \<times> 's handler) list" where
  "StorageService_ServiceDesc ops =
     (''ccas.StorageService'',
      [(''Get'', StorageService_Get_Handler ops),
       (''ApplyCommit'', StorageService_ApplyCommit_Handler ops),
       (''LoadInitialData'', StorageService_LoadInitialData_Handler ops),
       (''DumpState'', StorageService_DumpState_Handler ops)])"


subsection \<open>Connections\<close>

definition delivers :: "'w invoke \<Rightarrow> string \<times> (string \<times> 'w handler) list \<Rightarrow> bool" where
  "delivers invoke desc \<longleftrightarrow>
     (\<forall>w name h m. (name, h) \<in> set (snd desc) \<longrightarrow> msg_type m = name @ ''Request'' \<longrightarrow>
        (\<exists>dec. decodes dec m \<and> invoke w (''/'' @ fst desc @ ''/'' @ name) m = h w dec))"

text \<open>The loopback connection decodes a message as its own type only.\<close>

definition dec_of :: "message \<Rightarrow> decoder" where
  "dec_of m =
     \<lparr>as_GetRequest = (case m of M_GetRequest r \<Rightarrow> Inr r | _ \<Rightarrow> Inl unmarshal_error),
      as_ApplyCommitRequest = (case m of M_ApplyCommitRequest r \<Rightarrow> Inr r | _ \<Rightarrow> Inl unmarshal_error),
      as_LoadInitialDataRequest = (case m of M_LoadInitialDataRequest r \<Rightarrow> Inr r | _ \<Rightarrow> Inl unmarshal_error),
      as_DumpStateRequest = (case m of M_DumpStateRequest r \<Rightarrow> Inr r | _ \<Rightarrow> Inl unmarshal_error),
      as_SubmitCommitRequest = (case m of M_SubmitCommitRequest r \<Rightarrow> Inr r | _ \<Rightarrow> Inl unmarshal_error),
      as_SyncFromStorageRequest = (case m of M_SyncFromStorageRequest r \<Rightarrow> Inr r | _ \<Rightarrow> Inl unmarshal_error)\<rparr>"

lemma decodes_dec_of [simp]: "decodes (dec_of m) m"
  by (cases m) (simp_all add: dec_of_def)

definition loopback :: "string \<times> (string \<times> 'w handler) list \<Rightarrow> 'w invoke" where
  "loopback desc w path m =
     (case find (\<lambda>nh. ''/'' @ fst desc @ ''/'' @ fst nh = path) (snd desc) of
        None \<Rightarrow> (Inl ''unknown method'', w)
      | Some (name, h) \<Rightarrow> h w (dec_of m))"

lemma loopback_delivers:
  assumes "distinct (map fst (snd desc))"
  shows "delivers (loopback desc) desc"
proof -
  have "find (\<lambda>nh. ''/'' @ fst desc @ ''/'' @ fst nh = ''/'' @ fst desc @ ''/'' @ name) xs = Some (name, h)"
    if "distinct (map fst xs)" "(name, h) \<in> set xs" for xs :: "(string \<times> 'a handler) list" and name h
    using that by (induction xs) force+
  with assms show ?thesis by (auto simp: delivers_def loopback_def intro!: exI [of _ "dec_of _"])
qed

text \<open>A call over a connection that delivers reaches the handler of its method, with its request.\<close>

lemma delivers_call:
  assumes "delivers invoke desc" "(name, h) \<in> set (snd desc)" "msg_type m = name @ ''Request''"
  obtains dec where "decodes dec m" "invoke w (''/'' @ fst desc @ ''/'' @ name) m = h w dec"
  using assms unfolding delivers_def by blast

lemma loopback_storage [simp]: "delivers (loopback (StorageService_ServiceDesc ops)) (StorageService_ServiceDesc ops)"
  by (rule loopback_delivers) (simp add: StorageService_ServiceDesc_def)

subsection \<open>The storage client over a connection that delivers\<close>

lemma delivers_storage:
  assumes "delivers invoke (StorageService_ServiceDesc ops)"
  shows "invoke s StorageService_Get_FullMethodName (M_GetRequest q) =
      apfst (map_sum id M_GetResponse) (GRPCStorageServer_Get ops s q)"
    and "invoke s StorageService_ApplyCommit_FullMethodName (M_ApplyCommitRequest a) =
      apfst (map_sum id M_ApplyCommitResponse) (GRPCStorageServer_ApplyCommit ops s a)"
    and "invoke s StorageService_LoadInitialData_FullMethodName (M_LoadInitialDataRequest l) =
      apfst (map_sum id M_LoadInitialDataResponse) (GRPCStorageServer_LoadInitialData ops s l)"
    and "invoke s StorageService_DumpState_FullMethodName (M_DumpStateRequest d) =
      apfst (map_sum id M_DumpStateResponse) (GRPCStorageServer_DumpState ops s d)"
proof -
  note call = delivers_call [OF assms, where w = s, unfolded StorageService_ServiceDesc_def, simplified]
  show "invoke s StorageService_Get_FullMethodName (M_GetRequest q) =
      apfst (map_sum id M_GetResponse) (GRPCStorageServer_Get ops s q)"
    by (rule call [of "''Get''" "StorageService_Get_Handler ops" "M_GetRequest q"])
       (simp_all add: StorageService_Get_FullMethodName_def StorageService_Get_Handler_def)
  show "invoke s StorageService_ApplyCommit_FullMethodName (M_ApplyCommitRequest a) =
      apfst (map_sum id M_ApplyCommitResponse) (GRPCStorageServer_ApplyCommit ops s a)"
    by (rule call [of "''ApplyCommit''" "StorageService_ApplyCommit_Handler ops" "M_ApplyCommitRequest a"])
       (simp_all add: StorageService_ApplyCommit_FullMethodName_def StorageService_ApplyCommit_Handler_def)
  show "invoke s StorageService_LoadInitialData_FullMethodName (M_LoadInitialDataRequest l) =
      apfst (map_sum id M_LoadInitialDataResponse) (GRPCStorageServer_LoadInitialData ops s l)"
    by (rule call [of "''LoadInitialData''" "StorageService_LoadInitialData_Handler ops" "M_LoadInitialDataRequest l"])
       (simp_all add: StorageService_LoadInitialData_FullMethodName_def StorageService_LoadInitialData_Handler_def)
  show "invoke s StorageService_DumpState_FullMethodName (M_DumpStateRequest d) =
      apfst (map_sum id M_DumpStateResponse) (GRPCStorageServer_DumpState ops s d)"
    by (rule call [of "''DumpState''" "StorageService_DumpState_Handler ops" "M_DumpStateRequest d"])
       (simp_all add: StorageService_DumpState_FullMethodName_def StorageService_DumpState_Handler_def)
qed

lemma client_Get:
  assumes "delivers invoke (StorageService_ServiceDesc ops)"
  shows "GRPCStoreClient_Get invoke s k = Store_Get ops s k"
  by (simp add: GRPCStoreClient_Get_def storageServiceClient_Get_def delivers_storage [OF assms]
      StorageService_Get_Handler_def GRPCStorageServer_Get_def split: prod.splits)

lemma pb_writes_roundtrip:
  "map ((\<lambda>x. \<lparr>cw_Key = pcw_Key x, cw_Value = pcw_Value x, cw_NewVersion = pcw_NewVersion x\<rparr>) \<circ>
        (\<lambda>x. \<lparr>pcw_Key = cw_Key x, pcw_Value = cw_Value x, pcw_NewVersion = cw_NewVersion x\<rparr>)) ws = ws"
  by (induction ws) simp_all

text \<open>An error with an empty message would be taken for success, and a panic of the store for an error.\<close>

lemma client_ApplyCommit:
  assumes "delivers invoke (StorageService_ServiceDesc ops)"
  shows "GRPCStoreClient_ApplyCommit invoke s r =
    (case Store_ApplyCommit ops s r of
       (ApplyErr e, s') \<Rightarrow> (if e = '''' then ApplyOk else ApplyErr e, s')
     | (ApplyPanic p, s') \<Rightarrow> (ApplyErr p, s')
     | (ApplyOk, s') \<Rightarrow> (ApplyOk, s'))"
  by (cases r) (simp add: GRPCStoreClient_ApplyCommit_def storageServiceClient_ApplyCommit_def delivers_storage [OF assms]
      StorageService_ApplyCommit_Handler_def GRPCStorageServer_ApplyCommit_def pb_writes_roundtrip
      split: prod.splits apply_outcome.splits)

lemma client_LoadInitialData:
  assumes "delivers invoke (StorageService_ServiceDesc ops)"
  shows "GRPCStoreClient_LoadInitialData invoke s d = Store_LoadInitialData ops s d"
  by (simp add: GRPCStoreClient_LoadInitialData_def storageServiceClient_LoadInitialData_def delivers_storage [OF assms]
      StorageService_LoadInitialData_Handler_def GRPCStorageServer_LoadInitialData_def)

lemma client_DumpState:
  assumes "delivers invoke (StorageService_ServiceDesc ops)" "Store_DumpState ops s = (d, s')" "gomap_wf d"
  shows "\<exists>d'. GRPCStoreClient_DumpState invoke s = (d', s') \<and> gomap_wf d' \<and>
    map_of d' = (\<lambda>k. map_option (\<lambda>r. r\<lparr>rr_Found := True\<rparr>) (map_of d k))"
proof -
  let ?e = "fold (\<lambda>kv. AList.update (fst kv) \<lparr>de_Value = rr_Value (snd kv), de_Version = rr_Version (snd kv)\<rparr>) d []"
  let ?d = "fold (\<lambda>ke. AList.update (fst ke)
    \<lparr>rr_Value = de_Value (snd ke), rr_Version = de_Version (snd ke), rr_Found = True\<rparr>) ?e []"
  have e: "gomap_wf ?e" by auto
  have "map_of ?e = (\<lambda>k. map_option (\<lambda>r. \<lparr>de_Value = rr_Value r, de_Version = rr_Version r\<rparr>) (map_of d k))"
    using assms(3) by (simp add: map_of_fold_update map_of_map_rev_val [where f = fst and g = snd and
        h = "\<lambda>r. \<lparr>de_Value = rr_Value r, de_Version = rr_Version r\<rparr>", simplified] map_of_rev_gomap fun_eq_iff)
  moreover have "map_of ?d = (\<lambda>k. map_option (\<lambda>x. \<lparr>rr_Value = de_Value x, rr_Version = de_Version x, rr_Found = True\<rparr>) (map_of ?e k))"
    using e by (simp add: map_of_fold_update [where m = "[]" and ws = ?e] map_of_map_rev_val [where f = fst and g = snd and
        h = "\<lambda>x. \<lparr>rr_Value = de_Value x, rr_Version = de_Version x, rr_Found = True\<rparr>", simplified] map_of_rev_gomap fun_eq_iff)
  moreover have "(\<lambda>r. \<lparr>rr_Value = rr_Value r, rr_Version = rr_Version r, rr_Found = True\<rparr>) = (\<lambda>r. r\<lparr>rr_Found := True\<rparr>)"
    by (rule ext) simp
  ultimately have "map_of ?d = (\<lambda>k. map_option (\<lambda>r. r\<lparr>rr_Found := True\<rparr>) (map_of d k))"
    by (simp add: option.map_comp comp_def)
  moreover have "GRPCStoreClient_DumpState invoke s = (?d, s')"
    using assms(2) by (simp add: GRPCStoreClient_DumpState_def storageServiceClient_DumpState_def delivers_storage [OF assms(1)]
        StorageService_DumpState_Handler_def GRPCStorageServer_DumpState_def)
  ultimately show ?thesis by auto
qed

locale remote_store = store_contract ops view ok
  for ops :: "'s Store" and view :: "'s \<Rightarrow> kv_view" and ok :: "'s \<Rightarrow> bool" +
  fixes invoke :: "'s invoke"
  assumes conn: "delivers invoke (StorageService_ServiceDesc ops)"

sublocale remote_store \<subseteq> client: store_contract "GRPCStoreClient_ops invoke" view ok
proof unfold_locales
  fix s k r d
  assume s: "ok s"
  show "\<exists>s'. Store_Get (GRPCStoreClient_ops invoke) s k = (view_result (view s k), s') \<and> ok s' \<and> view s' = view s"
    using get [OF s] by (simp add: GRPCStoreClient_ops_def client_Get [OF conn])
  show "\<exists>s'. Store_ApplyCommit (GRPCStoreClient_ops invoke) s r = (ApplyOk, s') \<and> ok s' \<and>
      view s' = view_writes (cr_Writes r) (view s)" if "advances (view s) (cr_Writes r)"
    using apply_ok [OF s that] by (auto simp: GRPCStoreClient_ops_def client_ApplyCommit [OF conn])
  show "\<exists>e s'. Store_ApplyCommit (GRPCStoreClient_ops invoke) s r = (ApplyErr e, s') \<and> e \<noteq> [] \<and> ok s' \<and> view s' = view s"
    if "\<not> advances (view s) (cr_Writes r)"
    using apply_err [OF s that] by (auto simp: GRPCStoreClient_ops_def client_ApplyCommit [OF conn])
  show "ok (Store_LoadInitialData (GRPCStoreClient_ops invoke) s d) \<and>
      view (Store_LoadInitialData (GRPCStoreClient_ops invoke) s d) = view s ++ (\<lambda>k. map_option (\<lambda>v. (v, 1)) (map_of d k))"
    if "gomap_wf d"
    using load [OF s that] by (simp add: GRPCStoreClient_ops_def client_LoadInitialData [OF conn])
  show "\<exists>d s'. Store_DumpState (GRPCStoreClient_ops invoke) s = (d, s') \<and> ok s' \<and> view s' = view s \<and> gomap_wf d \<and>
      map_of d = (\<lambda>k. map_option (\<lambda>p. view_result (Some p)) (view s k))"
  proof -
    obtain d s' where d: "Store_DumpState ops s = (d, s')" "ok s'" "view s' = view s" "gomap_wf d"
      "map_of d = (\<lambda>k. map_option (\<lambda>p. view_result (Some p)) (view s k))" using dump [OF s] by blast
    from client_DumpState [OF conn d(1,4)] obtain d' where "GRPCStoreClient_DumpState invoke s = (d', s')" "gomap_wf d'"
      "map_of d' = (\<lambda>k. map_option (\<lambda>r. r\<lparr>rr_Found := True\<rparr>) (map_of d k))" by blast
    with d show ?thesis
      by (auto simp: GRPCStoreClient_ops_def option.map_comp comp_def view_result_def split_beta)
  qed
qed

context remote_store
begin

lemma client_contract: "store_contract (GRPCStoreClient_ops invoke) view ok"
  by unfold_locales

end

interpretation rmem: remote_store MemStore_ops mem_view mem_wf "loopback (StorageService_ServiceDesc MemStore_ops)"
  by unfold_locales simp


subsection \<open>Properties\<close>

text \<open>\<^bold>\<open>C19.\<close> The storage service is transparent: over a connection that delivers, each method of
  \<open>GRPCStoreClient\<close> returns what the in-memory store behind the server returns and has the same effect
  on it, errors of \<open>ApplyCommit\<close> with their message included; the dumped map has the same entries.\<close>

theorem remote_store_transparent:
  assumes "delivers invoke (StorageService_ServiceDesc MemStore_ops)" "mem_wf s"
  shows "GRPCStoreClient_Get invoke s k = (MemStore_Get s k, s) \<and>
    GRPCStoreClient_ApplyCommit invoke s r = MemStore_ApplyCommit s r \<and>
    GRPCStoreClient_LoadInitialData invoke s d = MemStore_LoadInitialData s d \<and>
    (\<exists>d'. GRPCStoreClient_DumpState invoke s = (d', s) \<and> gomap_wf d' \<and> map_of d' = map_of (MemStore_DumpState s))"
proof (intro conjI)
  show "GRPCStoreClient_Get invoke s k = (MemStore_Get s k, s)"
    by (simp add: client_Get [OF assms(1)] MemStore_ops_def)
  show "GRPCStoreClient_ApplyCommit invoke s r = MemStore_ApplyCommit s r"
    by (auto simp: client_ApplyCommit [OF assms(1)] MemStore_ops_def MemStore_ApplyCommit_def
        dest: check_monotonic_Some split: option.splits)
  show "GRPCStoreClient_LoadInitialData invoke s d = MemStore_LoadInitialData s d"
    by (simp add: client_LoadInitialData [OF assms(1)] MemStore_ops_def)
  have found: "map_option (\<lambda>r. r\<lparr>rr_Found := True\<rparr>) (map_of (MemStore_DumpState s) k) = map_of (MemStore_DumpState s) k" for k
    by (simp add: map_of_MemStore_DumpState [OF assms(2)] option.map_comp comp_def view_result_def split_beta)
  show "\<exists>d'. GRPCStoreClient_DumpState invoke s = (d', s) \<and> gomap_wf d' \<and> map_of d' = map_of (MemStore_DumpState s)"
    using client_DumpState [OF assms(1), of s "MemStore_DumpState s" s] mem_wf_ops(3) [OF assms(2)]
    by (simp add: MemStore_ops_def found)
qed

theorem remote_store_transparent_witness:
  "\<exists>d'. GRPCStoreClient_DumpState (loopback (StorageService_ServiceDesc MemStore_ops)) (store_with ''x'' ''a'' 3)
          = (d', store_with ''x'' ''a'' 3) \<and> map_of d' = [''x'' \<mapsto> \<lparr>rr_Value = ''a'', rr_Version = 3, rr_Found = True\<rparr>]"
  using remote_store_transparent [of "loopback (StorageService_ServiceDesc MemStore_ops)" "store_with ''x'' ''a'' 3" "''x''"
      "commit_record 4 (request ''t'' [] [(''x'', ''b'')])" "[]"]
  by (auto simp: MemStore_DumpState_def)

text \<open>What a failing connection looks like to the callers of \<open>GRPCStoreClient\<close>: a failed \<open>Get\<close> is
  the answer for a key that does not exist, a failed \<open>DumpState\<close> is the dump of an empty store, a failed
  \<open>LoadInitialData\<close> returns as a successful one does, and only \<open>ApplyCommit\<close> hands the error on.\<close>

lemma store_client_errors:
  assumes "\<forall>path m. invoke s path m = (Inl err, s')"
  shows "Store_Get (GRPCStoreClient_ops invoke) s k = (MemStore_Get NewMemStore k, s') \<and>
    Store_DumpState (GRPCStoreClient_ops invoke) s = (MemStore_DumpState NewMemStore, s') \<and>
    Store_LoadInitialData (GRPCStoreClient_ops invoke) s d = s' \<and>
    Store_ApplyCommit (GRPCStoreClient_ops invoke) s r = (ApplyErr err, s')"
  using assms
  by (simp add: GRPCStoreClient_ops_def GRPCStoreClient_Get_def GRPCStoreClient_DumpState_def
      GRPCStoreClient_LoadInitialData_def GRPCStoreClient_ApplyCommit_def storageServiceClient_Get_def
      storageServiceClient_DumpState_def storageServiceClient_LoadInitialData_def storageServiceClient_ApplyCommit_def
      MemStore_Get_def MemStore_DumpState_def NewMemStore_def)

lemma map_of_dumped:
  assumes "mem_wf s"
  shows "map_of (fold (\<lambda>kv. AList.update (fst kv) \<lparr>de_Value = rr_Value (snd kv), de_Version = rr_Version (snd kv)\<rparr>) (MemStore_DumpState s) [])
    = (\<lambda>k. map_option (\<lambda>(v, n). \<lparr>de_Value = v, de_Version = n\<rparr>) (mem_view s k))"
  using mem_wf_ops(3) [OF assms]
  by (simp add: map_of_fold_update map_of_map_rev_val [where f = fst and g = snd and
      h = "\<lambda>r. \<lparr>de_Value = rr_Value r, de_Version = rr_Version r\<rparr>", simplified] map_of_rev_gomap fun_eq_iff
      map_of_MemStore_DumpState [OF assms] option.map_comp comp_def view_result_def case_prod_unfold)

text \<open>\<^bold>\<open>C21.\<close> What the storage server does with a call, whatever bytes the call carries and whatever unmarshalling
  makes of them: if it fails, the handler returns its error and the store is as before. Otherwise \<open>Get\<close> answers
  with the value and the version of the key, or as not found; \<open>ApplyCommit\<close> writes all the keys with their
  new versions and answers with the empty error if every version is above the stored one, and else answers
  with an error message and writes nothing; \<open>LoadInitialData\<close> sets every key of the request, at version 1,
  and no other; \<open>DumpState\<close> answers with each key once, with its value and version. (The map field of a
  decoded request holds each key once.)\<close>

theorem storage_service_spec:
  assumes "mem_wf s" "\<And>q. as_LoadInitialDataRequest dec = Inr q \<Longrightarrow> gomap_wf (lq_Data q)"
  shows "(case as_GetRequest dec of
      Inl err \<Rightarrow> StorageService_Get_Handler MemStore_ops s dec = (Inl err, s)
    | Inr q \<Rightarrow> StorageService_Get_Handler MemStore_ops s dec =
        (Inr (M_GetResponse (case mem_view s (gq_Key q) of
           None \<Rightarrow> \<lparr>gp_Value = '''', gp_Version = 0, gp_Found = False\<rparr>
         | Some (v, n) \<Rightarrow> \<lparr>gp_Value = v, gp_Version = n, gp_Found = True\<rparr>)), s)) \<and>
  (case as_ApplyCommitRequest dec of
      Inl err \<Rightarrow> StorageService_ApplyCommit_Handler MemStore_ops s dec = (Inl err, s)
    | Inr q \<Rightarrow> \<exists>err s'. StorageService_ApplyCommit_Handler MemStore_ops s dec = (Inr (M_ApplyCommitResponse \<lparr>ap_Error = err\<rparr>), s') \<and>
        (if \<forall>x \<in> set (aq_Writes q). \<forall>v n. mem_view s (pcw_Key x) = Some (v, n) \<longrightarrow> n < pcw_NewVersion x
         then err = '''' \<and> mem_wf s' \<and>
           mem_view s' = mem_view s ++ map_of (rev (map (\<lambda>x. (pcw_Key x, (pcw_Value x, pcw_NewVersion x))) (aq_Writes q)))
         else err \<noteq> '''' \<and> s' = s)) \<and>
  (case as_LoadInitialDataRequest dec of
      Inl err \<Rightarrow> StorageService_LoadInitialData_Handler MemStore_ops s dec = (Inl err, s)
    | Inr q \<Rightarrow> \<exists>s'. StorageService_LoadInitialData_Handler MemStore_ops s dec =
          (Inr (M_LoadInitialDataResponse LoadInitialDataResponse), s') \<and> mem_wf s' \<and>
        mem_view s' = mem_view s ++ (\<lambda>k. map_option (\<lambda>v. (v, 1)) (map_of (lq_Data q) k))) \<and>
  (case as_DumpStateRequest dec of
      Inl err \<Rightarrow> StorageService_DumpState_Handler MemStore_ops s dec = (Inl err, s)
    | Inr q \<Rightarrow> \<exists>es. StorageService_DumpState_Handler MemStore_ops s dec = (Inr (M_DumpStateResponse \<lparr>dp_Entries = es\<rparr>), s) \<and>
        gomap_wf es \<and> map_of es = (\<lambda>k. map_option (\<lambda>(v, n). \<lparr>de_Value = v, de_Version = n\<rparr>) (mem_view s k)))"
  (is "?get \<and> ?apply \<and> ?load \<and> ?dump")
proof (intro conjI)
  show ?get
    by (auto simp: StorageService_Get_Handler_def GRPCStorageServer_Get_def MemStore_ops_sel MemStore_Get_view view_result_def
        split: sum.split option.split)
  show ?load
    using assms by (auto simp: StorageService_LoadInitialData_Handler_def GRPCStorageServer_LoadInitialData_def MemStore_ops_sel
        mem_view_load mem_wf_ops split: sum.split)
  show ?dump
    using mem_wf_ops(3) [OF assms(1)] map_of_dumped [OF assms(1)]
    by (auto simp: StorageService_DumpState_Handler_def GRPCStorageServer_DumpState_def MemStore_ops_sel Let_def split: sum.split)
  show ?apply
  proof (cases "as_ApplyCommitRequest dec")
    case (Inl err)
    then show ?thesis by (simp add: StorageService_ApplyCommit_Handler_def)
  next
    case (Inr q)
    let ?r = "\<lparr>cr_CommitSeq = aq_CommitSeq q, cr_TxnID = aq_TxnId q,
      cr_Writes = map (\<lambda>x. \<lparr>cw_Key = pcw_Key x, cw_Value = pcw_Value x, cw_NewVersion = pcw_NewVersion x\<rparr>) (aq_Writes q)\<rparr>"
    have adv: "advances (mem_view s) (cr_Writes ?r) \<longleftrightarrow>
        (\<forall>x \<in> set (aq_Writes q). \<forall>v n. mem_view s (pcw_Key x) = Some (v, n) \<longrightarrow> n < pcw_NewVersion x)"
      by (auto simp: advances_def)
    have "view_writes (cr_Writes ?r) (mem_view s) =
        mem_view s ++ map_of (rev (map (\<lambda>x. (pcw_Key x, (pcw_Value x, pcw_NewVersion x))) (aq_Writes q)))"
      by (simp add: view_writes_def comp_def)
    then have "\<exists>e s'. MemStore_ApplyCommit s ?r = (if e = '''' then ApplyOk else ApplyErr e, s') \<and>
        (if advances (mem_view s) (cr_Writes ?r) then e = '''' \<and> mem_wf s' \<and> mem_view s' =
           mem_view s ++ map_of (rev (map (\<lambda>x. (pcw_Key x, (pcw_Value x, pcw_NewVersion x))) (aq_Writes q)))
         else e \<noteq> '''' \<and> s' = s)"
      using mem.apply_ok [OF assms(1), of ?r] mem.apply_err [OF assms(1), of ?r]
      by (cases "advances (mem_view s) (cr_Writes ?r)") (auto simp: MemStore_ops_sel MemStore_ApplyCommit_def split: option.splits)
    then obtain e s' where "MemStore_ApplyCommit s ?r = (if e = '''' then ApplyOk else ApplyErr e, s')"
      "if advances (mem_view s) (cr_Writes ?r) then e = '''' \<and> mem_wf s' \<and> mem_view s' =
           mem_view s ++ map_of (rev (map (\<lambda>x. (pcw_Key x, (pcw_Value x, pcw_NewVersion x))) (aq_Writes q)))
         else e \<noteq> '''' \<and> s' = s" by blast
    with Inr show ?thesis unfolding adv
      by (cases "e = ''''") (simp_all add: StorageService_ApplyCommit_Handler_def GRPCStorageServer_ApplyCommit_def MemStore_ops_sel Let_def split: if_splits)
  qed
qed

text \<open>In the witness an \<open>ApplyCommitResponse\<close> is sent to \<open>Get\<close>: its error text is decoded as a key.\<close>

theorem storage_service_spec_witness:
  "StorageService_Get_Handler MemStore_ops (store_with ''x'' ''a'' 3)
      (dec_of (M_ApplyCommitResponse \<lparr>ap_Error = ''x''\<rparr>)\<lparr>as_GetRequest := Inr \<lparr>gq_Key = ''x''\<rparr>\<rparr>) =
    (Inr (M_GetResponse \<lparr>gp_Value = ''a'', gp_Version = 3, gp_Found = True\<rparr>), store_with ''x'' ''a'' 3)"
  using storage_service_spec [OF mem_wf_store_with,
      of "dec_of (M_ApplyCommitResponse \<lparr>ap_Error = ''x''\<rparr>)\<lparr>as_GetRequest := Inr \<lparr>gq_Key = ''x''\<rparr>\<rparr>" "''x''" "''a''" 3]
  by (simp add: dec_of_def)

text \<open>\<^bold>\<open>C22.\<close> Loading and reading back is a round trip through the service: after a load into an empty store, the
  dump holds exactly the loaded keys, each with its value and version 1, and \<open>Get\<close> returns the loaded
  value for a loaded key and "not found" for every other one.\<close>

theorem load_dump_roundtrip:
  assumes "delivers invoke (StorageService_ServiceDesc MemStore_ops)" "gomap_wf d"
  shows "\<exists>state. GRPCStoreClient_DumpState invoke (GRPCStoreClient_LoadInitialData invoke NewMemStore d)
      = (state, GRPCStoreClient_LoadInitialData invoke NewMemStore d) \<and>
    (\<forall>k. map_of state k = map_option (\<lambda>v. \<lparr>rr_Value = v, rr_Version = 1, rr_Found = True\<rparr>) (map_of d k) \<and>
      fst (GRPCStoreClient_Get invoke (GRPCStoreClient_LoadInitialData invoke NewMemStore d) k) =
        (case map_of d k of None \<Rightarrow> \<lparr>rr_Value = '''', rr_Version = 0, rr_Found = False\<rparr>
         | Some v \<Rightarrow> \<lparr>rr_Value = v, rr_Version = 1, rr_Found = True\<rparr>))"
proof -
  let ?s = "MemStore_LoadInitialData NewMemStore d"
  have ld: "GRPCStoreClient_LoadInitialData invoke NewMemStore d = ?s"
    by (simp add: client_LoadInitialData [OF assms(1)] MemStore_ops_sel)
  have view: "mem_view ?s = (\<lambda>k. map_option (\<lambda>v. (v, 1)) (map_of d k))" by (simp add: mem_view_load [OF assms(2)])
  have wf: "mem_wf ?s" by (simp add: mem_wf_ops)
  obtain state where "GRPCStoreClient_DumpState invoke ?s = (state, ?s)"
    "map_of state = (\<lambda>k. map_option (\<lambda>r. r\<lparr>rr_Found := True\<rparr>) (map_of (MemStore_DumpState ?s) k))"
    using client_DumpState [OF assms(1), of ?s "MemStore_DumpState ?s" ?s] mem_wf_ops(3) [OF wf] by (auto simp: MemStore_ops_sel)
  then show ?thesis
    by (auto simp: ld map_of_MemStore_DumpState [OF wf] view view_result_def client_Get [OF assms(1)] MemStore_ops_sel
        MemStore_Get_view option.map_comp comp_def split: option.splits)
qed

theorem load_dump_roundtrip_witness:
  "fst (GRPCStoreClient_Get (loopback (StorageService_ServiceDesc MemStore_ops))
      (GRPCStoreClient_LoadInitialData (loopback (StorageService_ServiceDesc MemStore_ops)) NewMemStore [(''x'', ''a'')]) ''x'')
    = \<lparr>rr_Value = ''a'', rr_Version = 1, rr_Found = True\<rparr>"
  using load_dump_roundtrip [OF loopback_storage, of "[(''x'', ''a'')]"] by (auto simp: gomap_wf_def split: if_splits)

end
