(* ===== verification/Remote.thy ===== *)
theory Remote
  imports Rpc
begin

text \<open>
  The certifier behind gRPC (\<open>src/pkg/ccaas/grpc_client.go\<close>, \<open>grpc_server.go\<close> and the generated stubs)
  and the deployment the servers under \<open>src/cmd\<close> build: the engine calls the storage server for reads
  and the certifier server for commits, and the certifier server calls the storage server.

  \<^item> \<open>'c Certifier\<close> is the Go interface \<open>Certifier\<close>; \<open>ImmediateCertifier_cert\<close> its first implementation,
    \<open>GRPCCertifierClient_cert\<close> the remote one.
  \<^item> \<open>remote_world\<close>: what the engine talks to when both servers are remote and certification is
    immediate. \<open>remote_epoch_world\<close>: the same with the epoch certifier, whose \<open>SubmitCommit\<close> blocks, so
    that the request and the result pass through the message conversions at different times.
  \<^item> Over connections that deliver, both keep the contract of \<open>System\<close>, so the committed
    transactions are serializable. The last properties show what is lost when the connection fails.
\<close>

subsection \<open>Interface and message conversions\<close>

record 'c Certifier =
  Cert_SubmitCommit :: "'c \<Rightarrow> TxnRequest \<Rightarrow> (string + TxnResult) \<times> 'c"
  Cert_SyncFromStorage :: "'c \<Rightarrow> 'c"

definition ImmediateCertifier_cert :: "'s Store \<Rightarrow> (ImmediateCertifier \<times> 's) Certifier" where
  "ImmediateCertifier_cert ops =
     \<lparr>Cert_SubmitCommit = (\<lambda>(c, s) req. ImmediateCertifier_SubmitCommit ops c s req),
      Cert_SyncFromStorage = (\<lambda>(c, s). ImmediateCertifier_SyncFromStorage ops c s)\<rparr>"

definition client_request :: "TxnRequest \<Rightarrow> SubmitCommitRequest" where
  "client_request req =
     \<lparr>sq_TxnId = tr_TxnID req,
      sq_ReadSet = map (\<lambda>r. \<lparr>pre_Key = re_Key r, pre_VersionSeen = re_VersionSeen r\<rparr>) (tr_ReadSet req),
      sq_WriteSet = map (\<lambda>x. \<lparr>pwe_Key = we_Key x, pwe_Value = we_Value x\<rparr>) (tr_WriteSet req)\<rparr>"

definition server_request :: "SubmitCommitRequest \<Rightarrow> TxnRequest" where
  "server_request req =
     \<lparr>tr_TxnID = sq_TxnId req,
      tr_ReadSet = map (\<lambda>r. \<lparr>re_Key = pre_Key r, re_VersionSeen = pre_VersionSeen r\<rparr>) (sq_ReadSet req),
      tr_WriteSet = map (\<lambda>x. \<lparr>we_Key = pwe_Key x, we_Value = pwe_Value x\<rparr>) (sq_WriteSet req)\<rparr>"

definition server_response :: "TxnResult \<Rightarrow> SubmitCommitResponse" where
  "server_response result =
     \<lparr>sp_TxnId = res_TxnID result, sp_Committed = res_Committed result, sp_CommitSeq = res_CommitSeq result,
      sp_Reason = res_Reason result\<rparr>"

definition client_result :: "SubmitCommitResponse \<Rightarrow> TxnResult" where
  "client_result resp =
     \<lparr>res_TxnID = sp_TxnId resp, res_Committed = sp_Committed resp, res_CommitSeq = sp_CommitSeq resp,
      res_Reason = sp_Reason resp\<rparr>"

subsection \<open>Client\<close>

definition CertifierService_SubmitCommit_FullMethodName :: string where
  "CertifierService_SubmitCommit_FullMethodName = ''/ccas.CertifierService/SubmitCommit''"

definition CertifierService_SyncFromStorage_FullMethodName :: string where
  "CertifierService_SyncFromStorage_FullMethodName = ''/ccas.CertifierService/SyncFromStorage''"

definition certifierServiceClient_SubmitCommit ::
    "'w invoke \<Rightarrow> 'w \<Rightarrow> SubmitCommitRequest \<Rightarrow> (string + SubmitCommitResponse) \<times> 'w" where
  "certifierServiceClient_SubmitCommit invoke w req =
     (case invoke w CertifierService_SubmitCommit_FullMethodName (M_SubmitCommitRequest req) of
        (Inl err, w') \<Rightarrow> (Inl err, w')
      | (Inr m, w') \<Rightarrow> (case m of M_SubmitCommitResponse resp \<Rightarrow> (Inr resp, w') | _ \<Rightarrow> (Inl unmarshal_error, w')))"

definition certifierServiceClient_SyncFromStorage ::
    "'w invoke \<Rightarrow> 'w \<Rightarrow> SyncFromStorageRequest \<Rightarrow> (string + SyncFromStorageResponse) \<times> 'w" where
  "certifierServiceClient_SyncFromStorage invoke w req =
     (case invoke w CertifierService_SyncFromStorage_FullMethodName (M_SyncFromStorageRequest req) of
        (Inl err, w') \<Rightarrow> (Inl err, w')
      | (Inr m, w') \<Rightarrow> (case m of M_SyncFromStorageResponse resp \<Rightarrow> (Inr resp, w') | _ \<Rightarrow> (Inl unmarshal_error, w')))"

definition GRPCCertifierClient_SubmitCommit :: "'w invoke \<Rightarrow> 'w \<Rightarrow> TxnRequest \<Rightarrow> TxnResult \<times> 'w" where
  "GRPCCertifierClient_SubmitCommit invoke w req =
     (case certifierServiceClient_SubmitCommit invoke w (client_request req) of
        (Inl err, w') \<Rightarrow> (aborted_result (tr_TxnID req) err, w')
      | (Inr resp, w') \<Rightarrow> (client_result resp, w'))"

definition GRPCCertifierClient_SyncFromStorage :: "'w invoke \<Rightarrow> 'w \<Rightarrow> 'w" where
  "GRPCCertifierClient_SyncFromStorage invoke w =
     snd (certifierServiceClient_SyncFromStorage invoke w SyncFromStorageRequest)"

definition GRPCCertifierClient_cert :: "'w invoke \<Rightarrow> 'w Certifier" where
  "GRPCCertifierClient_cert invoke =
     \<lparr>Cert_SubmitCommit = (\<lambda>w req. apfst Inr (GRPCCertifierClient_SubmitCommit invoke w req)),
      Cert_SyncFromStorage = GRPCCertifierClient_SyncFromStorage invoke\<rparr>"

subsection \<open>Server\<close>

definition GRPCCertifierServer_SyncFromStorage ::
    "'c Certifier \<Rightarrow> 'c \<Rightarrow> SyncFromStorageRequest \<Rightarrow> (string + SyncFromStorageResponse) \<times> 'c" where
  "GRPCCertifierServer_SyncFromStorage cert c req =
     (Inr SyncFromStorageResponse, Cert_SyncFromStorage cert c)"

definition GRPCCertifierServer_SubmitCommit ::
    "'c Certifier \<Rightarrow> 'c \<Rightarrow> SubmitCommitRequest \<Rightarrow> (string + SubmitCommitResponse) \<times> 'c" where
  "GRPCCertifierServer_SubmitCommit cert c req =
     (case Cert_SubmitCommit cert c (server_request req) of
        (Inl p, c') \<Rightarrow> (Inl p, c')
      | (Inr result, c') \<Rightarrow> (Inr (server_response result), c'))"

definition CertifierService_SubmitCommit_Handler :: "'c Certifier \<Rightarrow> 'c handler" where
  "CertifierService_SubmitCommit_Handler cert c dec =
     (case as_SubmitCommitRequest dec of
        Inl err \<Rightarrow> (Inl err, c)
      | Inr req \<Rightarrow> apfst (map_sum id M_SubmitCommitResponse) (GRPCCertifierServer_SubmitCommit cert c req))"

definition CertifierService_SyncFromStorage_Handler :: "'c Certifier \<Rightarrow> 'c handler" where
  "CertifierService_SyncFromStorage_Handler cert c dec =
     (case as_SyncFromStorageRequest dec of
        Inl err \<Rightarrow> (Inl err, c)
      | Inr req \<Rightarrow> apfst (map_sum id M_SyncFromStorageResponse) (GRPCCertifierServer_SyncFromStorage cert c req))"

definition CertifierService_ServiceDesc :: "'c Certifier \<Rightarrow> string \<times> (string \<times> 'c handler) list" where
  "CertifierService_ServiceDesc cert =
     (''ccas.CertifierService'',
      [(''SubmitCommit'', CertifierService_SubmitCommit_Handler cert),
       (''SyncFromStorage'', CertifierService_SyncFromStorage_Handler cert)])"

subsection \<open>The remote deployment\<close>

definition remote_world ::
    "'s invoke \<Rightarrow> (ImmediateCertifier \<times> 's) invoke \<Rightarrow> (ImmediateCertifier \<times> 's) World" where
  "remote_world sconn cconn =
     \<lparr>W_Get = (\<lambda>(c, s) k. let (r, s') = GRPCStoreClient_Get sconn s k in (r, (c, s'))),
      W_Submit = (\<lambda>w i req. w),
      W_Certify = (\<lambda>w i req r w'. GRPCCertifierClient_SubmitCommit cconn w req = (r, w')),
      W_Internal = (\<lambda>w w'. False)\<rparr>"

definition remote_epoch_world ::
    "'s invoke \<Rightarrow> (pendingTxn list \<Rightarrow> pendingTxn list) \<Rightarrow> 's epoch_state World" where
  "remote_epoch_world sconn srt =
     \<lparr>W_Get = (\<lambda>(c, s, ph) k. let (r, s') = GRPCStoreClient_Get sconn s k in (r, (c, s', ph))),
      W_Submit = (\<lambda>(c, s, ph) i req. (EpochCertifier_Submit c i (server_request (client_request req)), s, ph)),
      W_Certify = (\<lambda>w i req r w'. \<exists>result. r = client_result (server_response result) \<and>
         epoch_certify (GRPCStoreClient_ops sconn) w i (server_request (client_request req)) result w'),
      W_Internal = epoch_internal srt\<rparr>"


subsection \<open>The start of a client command\<close>

text \<open>The flags and the two connections of \<open>src/cmd/demo/main.go\<close> and \<open>src/cmd/benchmark/main.go\<close> in remote mode,
  whose code for them is the same. \<open>dialS\<close> and \<open>dialC\<close> stand for \<open>grpc.NewClient\<close>, which only checks its
  arguments: that it succeeds does not mean that a server answers. \<open>ccaas\<close> is what the second connection leads
  to. A certifier server in immediate mode answers each call at once, and the connection is an \<open>invoke\<close>. In
  epoch mode (\<open>-epoch-ms\<close>) \<open>SubmitCommit\<close> blocks until the epoch of the request has been certified; there the
  connection delivers, and requests and results take the two halves of \<open>remote_epoch_world\<close>.\<close>

datatype ccaas = Immediate_server "(ImmediateCertifier \<times> MemStore) invoke" ImmediateCertifier | Epoch_server EpochCertifier

record client_flags =
  fl_mode :: string
  fl_storageAddr :: string
  fl_ccaasAddr :: string

definition client_defaults :: client_flags where
  "client_defaults = \<lparr>fl_mode = ''local'', fl_storageAddr = ''localhost:50051'', fl_ccaasAddr = ''localhost:50052''\<rparr>"

definition dial_both ::
    "(string \<Rightarrow> string + 's invoke) \<Rightarrow> (string \<Rightarrow> string + ccaas) \<Rightarrow> client_flags \<Rightarrow> ('s invoke \<times> ccaas) boot" where
  "dial_both dialS dialC flags =
     (case dialS (fl_storageAddr flags) of
        Inl err \<Rightarrow> Fatal (''failed to connect to storage: '' @ err)
      | Inr storageConn \<Rightarrow>
          (case dialC (fl_ccaasAddr flags) of
             Inl err \<Rightarrow> Fatal (''failed to connect to ccaas: '' @ err)
           | Inr ccaasConn \<Rightarrow> Up (storageConn, ccaasConn)))"

abbreviation remote_load :: "'s invoke \<Rightarrow> 'c \<times> 's \<Rightarrow> (string, string) gomap \<Rightarrow> 'c \<times> 's" where
  "remote_load sconn w d \<equiv> (fst w, GRPCStoreClient_LoadInitialData sconn (snd w) d)"

text \<open>The same with a certifier in epoch mode, whose goroutine is not in the loop at that moment.\<close>

abbreviation epoch_load :: "'s invoke \<Rightarrow> 's epoch_state \<Rightarrow> (string, string) gomap \<Rightarrow> 's epoch_state" where
  "epoch_load sconn w d \<equiv> (fst w, GRPCStoreClient_LoadInitialData sconn (fst (snd w)) d, snd (snd w))"

definition epoch_resync :: "'s Store \<Rightarrow> 's epoch_state \<Rightarrow> 's epoch_state" where
  "epoch_resync ops w = (case EpochCertifier_SyncFromStorage ops (fst w) (fst (snd w)) of (c, s) \<Rightarrow> (c, s, snd (snd w)))"

text \<open>What a remote run finds: connections that deliver every call to a well-formed storage server and to a
  certifier whose counter has room for \<open>n\<close> transactions; or servers that no call reaches. A certifier
  server out of reach is an \<open>Immediate_server\<close> whose connection fails every call: its mode cannot be seen.\<close>

definition remote_ready :: "MemStore invoke \<Rightarrow> ccaas \<Rightarrow> MemStore \<Rightarrow> (string, string) gomap \<Rightarrow> nat \<Rightarrow> bool" where
  "remote_ready sconn cc s d n \<longleftrightarrow>
     delivers sconn (StorageService_ServiceDesc MemStore_ops) \<and> mem_wf s \<and> view_pos (mem_view s) \<and>
     (case cc of
        Immediate_server cconn c \<Rightarrow>
          delivers cconn (CertifierService_ServiceDesc (ImmediateCertifier_cert (GRPCStoreClient_ops sconn))) \<and>
          unat (commitSeq (fst (GRPCCertifierClient_SyncFromStorage cconn (remote_load sconn (c, s) d)))) + n < 2 ^ 64
      | Epoch_server c \<Rightarrow>
          unat (commitSeq (fst (epoch_resync (GRPCStoreClient_ops sconn) (epoch_load sconn (c, s, None) d)))) + n < 2 ^ 64)"

definition unreachable :: "MemStore invoke \<Rightarrow> ccaas \<Rightarrow> bool" where
  "unreachable sconn cc \<longleftrightarrow> (\<forall>s path m. \<exists>err. sconn s path m = (Inl err, s)) \<and>
     (case cc of
        Immediate_server cconn c \<Rightarrow> \<forall>w path m. \<exists>err. cconn w path m = (Inl err, w)
      | Epoch_server c \<Rightarrow> False)"

subsection \<open>Conversions lose nothing\<close>

lemma request_roundtrip [simp]: "server_request (client_request req) = req"
  by (cases req) (auto simp: server_request_def client_request_def comp_def intro!: map_idI)

lemma result_roundtrip [simp]: "client_result (server_response r) = r"
  by (cases r) (simp add: client_result_def server_response_def)

lemma loopback_certifier [simp]: "delivers (loopback (CertifierService_ServiceDesc cert)) (CertifierService_ServiceDesc cert)"
  by (rule loopback_delivers) (simp add: CertifierService_ServiceDesc_def)

lemma delivers_certifier:
  assumes "delivers invoke (CertifierService_ServiceDesc cert)"
  shows "invoke c CertifierService_SubmitCommit_FullMethodName (M_SubmitCommitRequest q) =
      apfst (map_sum id M_SubmitCommitResponse) (GRPCCertifierServer_SubmitCommit cert c q)"
    and "invoke c CertifierService_SyncFromStorage_FullMethodName (M_SyncFromStorageRequest y) =
      apfst (map_sum id M_SyncFromStorageResponse) (GRPCCertifierServer_SyncFromStorage cert c y)"
proof -
  note call = delivers_call [OF assms, where w = c, unfolded CertifierService_ServiceDesc_def, simplified]
  show "invoke c CertifierService_SubmitCommit_FullMethodName (M_SubmitCommitRequest q) =
      apfst (map_sum id M_SubmitCommitResponse) (GRPCCertifierServer_SubmitCommit cert c q)"
    by (rule call [of "''SubmitCommit''" "CertifierService_SubmitCommit_Handler cert" "M_SubmitCommitRequest q"])
       (simp_all add: CertifierService_SubmitCommit_FullMethodName_def CertifierService_SubmitCommit_Handler_def)
  show "invoke c CertifierService_SyncFromStorage_FullMethodName (M_SyncFromStorageRequest y) =
      apfst (map_sum id M_SyncFromStorageResponse) (GRPCCertifierServer_SyncFromStorage cert c y)"
    by (rule call [of "''SyncFromStorage''" "CertifierService_SyncFromStorage_Handler cert" "M_SyncFromStorageRequest y"])
       (simp_all add: CertifierService_SyncFromStorage_FullMethodName_def CertifierService_SyncFromStorage_Handler_def)
qed

lemma client_SubmitCommit:
  assumes "delivers invoke (CertifierService_ServiceDesc cert)"
  shows "GRPCCertifierClient_SubmitCommit invoke c req =
    (case Cert_SubmitCommit cert c req of
       (Inl p, c') \<Rightarrow> (aborted_result (tr_TxnID req) p, c')
     | (Inr r, c') \<Rightarrow> (r, c'))"
  by (simp add: GRPCCertifierClient_SubmitCommit_def certifierServiceClient_SubmitCommit_def
      delivers_certifier [OF assms] GRPCCertifierServer_SubmitCommit_def
      split: prod.splits sum.splits)

lemma client_SyncFromStorage:
  assumes "delivers invoke (CertifierService_ServiceDesc cert)"
  shows "GRPCCertifierClient_SyncFromStorage invoke c = Cert_SyncFromStorage cert c"
  by (simp add: GRPCCertifierClient_SyncFromStorage_def certifierServiceClient_SyncFromStorage_def
      delivers_certifier [OF assms] GRPCCertifierServer_SyncFromStorage_def)

lemma remote_epoch_world_eq:
  "remote_epoch_world sconn srt = epoch_world (GRPCStoreClient_ops sconn) srt"
  by (simp add: remote_epoch_world_def epoch_world_def GRPCStoreClient_ops_def fun_eq_iff)

subsection \<open>The remote deployment keeps the contract\<close>

locale remote_system = remote_store ops view ok sconn
  for ops :: "'s Store" and view :: "'s \<Rightarrow> kv_view" and ok :: "'s \<Rightarrow> bool" and sconn :: "'s invoke" +
  fixes cconn :: "(ImmediateCertifier \<times> 's) invoke"
  assumes cert_conn: "delivers cconn (CertifierService_ServiceDesc (ImmediateCertifier_cert (GRPCStoreClient_ops sconn)))"

sublocale remote_system \<subseteq> remote: certifier_contract "remote_world sconn cconn" "\<lambda>w. view (snd w)"
  "\<lambda>w. commitSeq (fst w)" "\<lambda>w. ok (snd w) \<and> coherent (view (snd w)) (fst w)"
proof -
  let ?ok = "\<lambda>w. ok (snd w) \<and> coherent (view (snd w)) (fst w)"
  have get: "W_Get (remote_world sconn cconn) = W_Get (imm_world (GRPCStoreClient_ops sconn))"
    "W_Submit (remote_world sconn cconn) = W_Submit (imm_world (GRPCStoreClient_ops sconn))"
    "W_Internal (remote_world sconn cconn) = W_Internal (imm_world (GRPCStoreClient_ops sconn))"
    by (simp_all add: remote_world_def imm_world_def GRPCStoreClient_ops_def fun_eq_iff)
  have cert: "W_Certify (imm_world (GRPCStoreClient_ops sconn)) w i req r w'"
    if "?ok w" "seq_room (commitSeq (fst w))" "W_Certify (remote_world sconn cconn) w i req r w'" for w i req r w'
    using client.submit_refines [of "snd w" "fst w" req] that
    by (cases w; cases w') (auto simp: remote_world_def imm_world_def client_SubmitCommit [OF cert_conn] ImmediateCertifier_cert_def)
  show "certifier_contract (remote_world sconn cconn) (\<lambda>w. view (snd w)) (\<lambda>w. commitSeq (fst w)) ?ok"
  proof (unfold_locales, unfold get)
    fix w w' :: "ImmediateCertifier \<times> 's" and k i req r
    assume w: "?ok w"
    show "versions_in (view (snd w)) (commitSeq (fst w))"
      by (rule client.imm.w_versions [OF w])
    show "\<exists>w'. W_Get (imm_world (GRPCStoreClient_ops sconn)) w k = (view_result (view (snd w) k), w') \<and> ?ok w' \<and>
        view (snd w') = view (snd w) \<and> commitSeq (fst w') = commitSeq (fst w)"
      by (rule client.imm.w_get [OF w])
    show "?ok (W_Submit (imm_world (GRPCStoreClient_ops sconn)) w i req) \<and>
        view (snd (W_Submit (imm_world (GRPCStoreClient_ops sconn)) w i req)) = view (snd w) \<and>
        commitSeq (fst (W_Submit (imm_world (GRPCStoreClient_ops sconn)) w i req)) = commitSeq (fst w)"
      by (rule client.imm.w_submit [OF w])
    show "?ok w' \<and> (if res_Committed r
        then occ_spec (view (snd w)) (commitSeq (fst w)) req = (True, view (snd w'), commitSeq (fst w'))
        else view (snd w') = view (snd w) \<and> commitSeq (fst w') = commitSeq (fst w))"
      if "seq_room (commitSeq (fst w))" "W_Certify (remote_world sconn cconn) w i req r w'"
      by (rule client.imm.w_certify [OF w that(1) cert [OF w that]])
    show "?ok w' \<and> view (snd w') = view (snd w) \<and> commitSeq (fst w') = commitSeq (fst w)"
      if "W_Internal (imm_world (GRPCStoreClient_ops sconn)) w w'"
      by (rule client.imm.w_internal [OF w that])
  qed
qed

context remote_system
begin

lemma remote_contract:
  "certifier_contract (remote_world sconn cconn) (\<lambda>w. view (snd w)) (\<lambda>w. commitSeq (fst w))
     (\<lambda>w. ok (snd w) \<and> coherent (view (snd w)) (fst w))"
  by unfold_locales

end

interpretation rsys: remote_system MemStore_ops mem_view mem_wf "loopback (StorageService_ServiceDesc MemStore_ops)"
  "loopback (CertifierService_ServiceDesc (ImmediateCertifier_cert (GRPCStoreClient_ops (loopback (StorageService_ServiceDesc MemStore_ops)))))"
  by unfold_locales simp


subsection \<open>Properties\<close>

text \<open>The state after the start-up sequence of the remote demo.\<close>

lemma remote_start:
  assumes conn: "delivers sconn (StorageService_ServiceDesc MemStore_ops)"
      "delivers cconn (CertifierService_ServiceDesc (ImmediateCertifier_cert (GRPCStoreClient_ops sconn)))"
    and s: "mem_wf s" "view_pos (mem_view s)" "gomap_wf d"
    and start: "GRPCCertifierClient_SyncFromStorage cconn (c, GRPCStoreClient_LoadInitialData sconn s d) = w0"
  shows "mem_wf (snd w0) \<and> coherent (mem_view (snd w0)) (fst w0)"
    and "db_of (mem_view (snd w0)) = db_of (mem_view s) ++ map_of d"
    and "mem_view (snd w0) = mem_view s ++ (\<lambda>k. map_option (\<lambda>v. (v, 1)) (map_of d k))"
proof -
  have st: "remote_store MemStore_ops mem_view mem_wf sconn" by unfold_locales (rule conn)
  let ?s = "MemStore_LoadInitialData s d"
  have ld: "GRPCStoreClient_LoadInitialData sconn s d = ?s"
    by (simp add: client_LoadInitialData [OF conn(1)] MemStore_ops_sel)
  have pos: "view_pos (mem_view ?s)"
    using s(2) by (auto simp: view_pos_def mem_view_load [OF s(3)] map_add_def split: option.splits)
  obtain c0 s0 where w0: "w0 = (c0, s0)" "mem_wf s0" "mem_view s0 = mem_view ?s" "coherent (mem_view ?s) c0"
    using store_contract.sync_coherent [OF remote_store.client_contract [OF st] mem_wf_ops(2) [OF s(1)] pos, of c] start
    by (auto simp: ld client_SyncFromStorage [OF conn(2)] ImmediateCertifier_cert_def)
  then show "mem_wf (snd w0) \<and> coherent (mem_view (snd w0)) (fst w0)" by simp
  show "mem_view (snd w0) = mem_view s ++ (\<lambda>k. map_option (\<lambda>v. (v, 1)) (map_of d k))"
    using w0 by (simp add: mem_view_load [OF s(3)])
  then show "db_of (mem_view (snd w0)) = db_of (mem_view s) ++ map_of d"
    by (auto simp: db_of_def map_add_def fun_eq_iff split: option.splits)
qed

lemma remote_epoch_start:
  assumes conn: "delivers sconn (StorageService_ServiceDesc MemStore_ops)"
    and s: "mem_wf s" "view_pos (mem_view s)" "gomap_wf d"
    and start: "epoch_resync (GRPCStoreClient_ops sconn) (epoch_load sconn (c, s, ph) d) = w0"
  shows "mem_wf (fst (snd w0)) \<and> coherent (mem_view (fst (snd w0))) (fst w0) \<and> snd (snd w0) = ph"
    and "db_of (mem_view (fst (snd w0))) = db_of (mem_view s) ++ map_of d"
    and "mem_view (fst (snd w0)) = mem_view s ++ (\<lambda>k. map_option (\<lambda>v. (v, 1)) (map_of d k))"
proof -
  have st: "remote_store MemStore_ops mem_view mem_wf sconn" by unfold_locales (rule conn)
  let ?s = "MemStore_LoadInitialData s d"
  have ld: "GRPCStoreClient_LoadInitialData sconn s d = ?s"
    by (simp add: client_LoadInitialData [OF conn(1)] MemStore_ops_sel)
  have pos: "view_pos (mem_view ?s)"
    using s(2) by (auto simp: view_pos_def mem_view_load [OF s(3)] map_add_def split: option.splits)
  obtain c0 s0 where w0: "w0 = (c0, s0, ph)" "mem_wf s0" "mem_view s0 = mem_view ?s" "coherent (mem_view ?s) c0"
    using store_contract.sync_epoch_coherent [OF remote_store.client_contract [OF st] mem_wf_ops(2) [OF s(1)] pos, of c] start
    by (auto simp: ld epoch_resync_def)
  then show "mem_wf (fst (snd w0)) \<and> coherent (mem_view (fst (snd w0))) (fst w0) \<and> snd (snd w0) = ph" by simp
  show "mem_view (fst (snd w0)) = mem_view s ++ (\<lambda>k. map_option (\<lambda>v. (v, 1)) (map_of d k))"
    using w0 by (simp add: mem_view_load [OF s(3)])
  then show "db_of (mem_view (fst (snd w0))) = db_of (mem_view s) ++ map_of d"
    by (auto simp: db_of_def map_add_def fun_eq_iff split: option.splits)
qed

abbreviation lb_store :: "MemStore invoke" where
  "lb_store \<equiv> loopback (StorageService_ServiceDesc MemStore_ops)"

abbreviation lb_cert :: "(ImmediateCertifier \<times> MemStore) invoke" where
  "lb_cert \<equiv> loopback (CertifierService_ServiceDesc (ImmediateCertifier_cert (GRPCStoreClient_ops lb_store)))"

lemmas loopback_dump [rpc_simps] =
  GRPCStoreClient_ops_def GRPCStoreClient_DumpState_def storageServiceClient_DumpState_def delivers_storage [OF loopback_storage]
  GRPCStorageServer_DumpState_def MemStore_ops_sel MemStore_DumpState_def load_versions_def

lemmas loopback_calls [rpc_simps] =
  client_SyncFromStorage [OF loopback_certifier] client_SubmitCommit [OF loopback_certifier]
  client_ApplyCommit [OF loopback_storage] client_Get [OF loopback_storage] client_LoadInitialData [OF loopback_storage]
  ImmediateCertifier_cert_def

text \<open>Start-up and one committed transaction in the two deployments, over loopback connections.\<close>

lemma remote_rmw_run:
  "\<exists>\<sigma>. sys_reach (remote_world lb_store lb_cert) (sys_init (\<lparr>latestVersion = [(''x'', 1)], commitSeq = 1\<rparr>, store_with ''x'' ''a'' 1)) \<sigma> \<and>
     sys_hist \<sigma> = [[RdOp ''x'' ''a'', WrOp ''x'' ''b'']]"
  "GRPCCertifierClient_SyncFromStorage lb_cert (\<lparr>latestVersion = [], commitSeq = 0\<rparr>, GRPCStoreClient_LoadInitialData lb_store NewMemStore [(''x'', ''a'')])
     = (\<lparr>latestVersion = [(''x'', 1)], commitSeq = 1\<rparr>, store_with ''x'' ''a'' 1)"
proof -
  let ?c = "\<lparr>latestVersion = [(''x'', 1)], commitSeq = 1\<rparr>" and ?s = "store_with ''x'' ''a'' 1"
  let ?W = "remote_world lb_store lb_cert" and ?req = "request (''txn-'' @ fmt_d 1) [(''x'', 1)] [(''x'', ''b'')]"
  let ?w2 = "(\<lparr>latestVersion = [(''x'', 2)], commitSeq = 2\<rparr>, store_with ''x'' ''b'' 2)"
  have "W_Certify ?W (?c, ?s) 0 ?req (committed_result (''txn-'' @ fmt_d 1) 2) ?w2"
    by (simp add: remote_world_def rpc_simps ImmediateCertifier_SubmitCommit_def MemStore_ApplyCommit_def commit_record_def
        write_entries_def word_le_nat_alt)
  moreover have "W_Get ?W (?c, ?s) ''x'' = (\<lparr>rr_Value = ''a'', rr_Version = 1, rr_Found = True\<rparr>, (?c, ?s))"
    by (simp add: remote_world_def rpc_simps MemStore_Get_def)
  ultimately show "\<exists>\<sigma>. sys_reach ?W (sys_init (?c, ?s)) \<sigma> \<and> sys_hist \<sigma> = [[RdOp ''x'' ''a'', WrOp ''x'' ''b'']]"
    using rmw_run [of ?W "(?c, ?s)" "''x''" "''a''" 1 ?req "(?c, ?s)" "''b''" _ ?w2] by (auto simp: remote_world_def)
  have ld: "GRPCStoreClient_LoadInitialData lb_store NewMemStore [(''x'', ''a'')] = ?s"
    by (simp add: client_LoadInitialData [OF loopback_storage] MemStore_ops_sel MemStore_LoadInitialData_def NewMemStore_def)
  show "GRPCCertifierClient_SyncFromStorage lb_cert
      (\<lparr>latestVersion = [], commitSeq = 0\<rparr>, GRPCStoreClient_LoadInitialData lb_store NewMemStore [(''x'', ''a'')]) = (?c, ?s)"
    unfolding ld by (simp add: rpc_simps ImmediateCertifier_SyncFromStorage_def)
qed

lemma remote_epoch_rmw_run:
  "\<exists>\<sigma>. sys_reach (remote_epoch_world lb_store (sort_key txn_key))
         (sys_init (epoch_with [(''x'', 1)] 1 []\<lparr>ticker := None, runners := 0\<rparr>, store_with ''x'' ''a'' 1, None)) \<sigma> \<and>
     sys_hist \<sigma> = [[RdOp ''x'' ''a'', WrOp ''x'' ''b'']]"
  "epoch_resync (GRPCStoreClient_ops lb_store) (epoch_load lb_store
       (epoch_with [] 0 []\<lparr>ticker := None, runners := 0\<rparr>, NewMemStore, None) [(''x'', ''a'')])
     = (epoch_with [(''x'', 1)] 1 []\<lparr>ticker := None, runners := 0\<rparr>, store_with ''x'' ''a'' 1, None)"
proof -
  let ?W = "remote_epoch_world lb_store (sort_key txn_key)" and ?s = "store_with ''x'' ''a'' 1"
  let ?c = "epoch_with [(''x'', 1)] 1 []\<lparr>ticker := None, runners := 0\<rparr>"
  let ?req = "request (''txn-'' @ fmt_d 1) [(''x'', 1)] [(''x'', ''b'')]"
  let ?mid = "(?c, ?s, Some ([], [\<lparr>p_req = ?req, p_resultCh = 0\<rparr>]))"
  let ?fin = "(?c\<lparr>latestVersion := [(''x'', 2)], commitSeq := 2\<rparr>, store_with ''x'' ''b'' 2, Some ([(''x'', ''txn-'' @ fmt_d 1)], []))"
  have ld: "GRPCStoreClient_LoadInitialData lb_store NewMemStore [(''x'', ''a'')] = ?s"
    by (simp add: client_LoadInitialData [OF loopback_storage] MemStore_ops_sel MemStore_LoadInitialData_def NewMemStore_def)
  show "epoch_resync (GRPCStoreClient_ops lb_store) (epoch_load lb_store
       (epoch_with [] 0 []\<lparr>ticker := None, runners := 0\<rparr>, NewMemStore, None) [(''x'', ''a'')]) = (?c, ?s, None)"
    unfolding epoch_resync_def fst_conv snd_conv ld by (simp add: rpc_simps EpochCertifier_SyncFromStorage_def)
  have turn: "W_Internal ?W (W_Submit ?W (?c, ?s, None) 0 ?req) ?mid"
    using epoch_swap [of "EpochCertifier_Submit ?c 0 ?req" "sort_key txn_key" ?s]
    by (simp add: remote_epoch_world_def EpochCertifier_Submit_def)
  have "W_Certify ?W ?mid 0 ?req (committed_result (''txn-'' @ fmt_d 1) 2) ?fin"
    using epoch_turn [of "GRPCStoreClient_ops lb_store" ?c "[]" ?s "\<lparr>p_req = ?req, p_resultCh = 0\<rparr>" "committed_result (''txn-'' @ fmt_d 1) 2"]
    by (simp add: remote_epoch_world_eq epoch_world_def certifyTxn_def GRPCStoreClient_ops_def client_ApplyCommit [OF loopback_storage]
        MemStore_ops_sel MemStore_ApplyCommit_def write_entries_def word_le_nat_alt)
  moreover have "W_Get ?W (?c, ?s, None) ''x'' = (\<lparr>rr_Value = ''a'', rr_Version = 1, rr_Found = True\<rparr>, (?c, ?s, None))"
    by (simp add: remote_epoch_world_def client_Get [OF loopback_storage] MemStore_ops_sel MemStore_Get_def)
  ultimately show "\<exists>\<sigma>. sys_reach ?W (sys_init (?c, ?s, None)) \<sigma> \<and> sys_hist \<sigma> = [[RdOp ''x'' ''a'', WrOp ''x'' ''b'']]"
    using rmw_run [of ?W "(?c, ?s, None)" "''x''" "''a''" 1 ?req ?mid "''b''" _ ?fin] turn by force
qed

text \<open>\<^bold>\<open>C20.\<close> The certifier service is transparent: over a connection that delivers, \<open>SyncFromStorage\<close> of
  \<open>GRPCCertifierClient\<close> has the effect that it has on the certifier behind the server, and \<open>SubmitCommit\<close>
  returns what that certifier returns for the same request, with the same effect. (A certifier that
  panics ends the server process; the client then reports the transaction as aborted.)\<close>

theorem remote_certifier_transparent:
  assumes "delivers conn (CertifierService_ServiceDesc cert)"
  shows "Cert_SyncFromStorage (GRPCCertifierClient_cert conn) c = Cert_SyncFromStorage cert c \<and>
    (case Cert_SubmitCommit cert c req of
       (Inr r, c') \<Rightarrow> Cert_SubmitCommit (GRPCCertifierClient_cert conn) c req = (Inr r, c')
     | (Inl p, c') \<Rightarrow> \<exists>why. fst (Cert_SubmitCommit (GRPCCertifierClient_cert conn) c req) = Inr (aborted_result (tr_TxnID req) why))"
  by (simp add: GRPCCertifierClient_cert_def client_SyncFromStorage [OF assms] client_SubmitCommit [OF assms]
      split: prod.splits sum.splits)

theorem remote_certifier_transparent_witness:
  "fst (Cert_SubmitCommit (GRPCCertifierClient_cert lb_cert) (\<lparr>latestVersion = [], commitSeq = 0\<rparr>, NewMemStore)
     (request ''t'' [(''x'', 7)] [])) = fst (ImmediateCertifier_SubmitCommit (GRPCStoreClient_ops lb_store)
     \<lparr>latestVersion = [], commitSeq = 0\<rparr> NewMemStore (request ''t'' [(''x'', 7)] []))"
  using remote_certifier_transparent [OF loopback_certifier, of "ImmediateCertifier_cert (GRPCStoreClient_ops lb_store)"
      "(\<lparr>latestVersion = [], commitSeq = 0\<rparr>, NewMemStore)" "request ''t'' [(''x'', 7)] []"]
  by (simp add: ImmediateCertifier_cert_def ImmediateCertifier_SubmitCommit_def)

text \<open>\<^bold>\<open>C30.\<close> A failed re-read is committed: when an active transaction reads a key again that is already in
  its read set and the \<open>Get\<close> call fails, \<open>Read\<close> returns the empty string without an error and leaves the
  read set as it is, so certification cannot notice: a transaction whose read set is current commits,
  although no serial run reads first the value the store holds and then the empty string.\<close>

theorem failed_reread_commits:
  assumes "txn_ok txn" "checkActive txn = None" "map_of (txn_writeBuffer txn) k = None"
    and "k \<in> re_Key ` set (txn_ReadSet txn)" "mem_view s k = Some (v, n)" "v \<noteq> ''''"
    and "sconn s StorageService_Get_FullMethodName (M_GetRequest \<lparr>gq_Key = k\<rparr>) = (Inl err, s)"
    and "mem_wf s" "coherent (mem_view s) c" "seq_room (commitSeq c)" "reads_current (mem_view s) (txn_ReadSet txn)"
  shows "\<exists>txn' r txn'' w. Engine_Read (GRPCStoreClient_Get sconn) s txn k = (('''', None), txn', s) \<and>
    Engine_Commit (Cert_SubmitCommit (ImmediateCertifier_cert MemStore_ops)) (c, s) txn' = (Inr (r, None), txn'', w) \<and>
    res_Committed r \<and> replay (db_of (mem_view s)) [RdOp k v, RdOp k ''''] = None"
proof -
  have "GRPCStoreClient_Get sconn s k = (\<lparr>rr_Value = '''', rr_Version = 0, rr_Found = False\<rparr>, s)"
    using assms(7) by (simp add: GRPCStoreClient_Get_def storageServiceClient_Get_def)
  moreover have "map_of (txn_readVersions txn) k \<noteq> None"
    using assms(1,4) map_of_read_pairs_None [of "txn_ReadSet txn" k] by (simp add: txn_ok_def)
  ultimately have "Engine_Read (GRPCStoreClient_Get sconn) s txn k = (('''', None), txn, s)"
    using assms(2,3) by (auto simp: Engine_Read_def)
  moreover let ?req = "\<lparr>tr_TxnID = txn_ID txn, tr_ReadSet = txn_ReadSet txn, tr_WriteSet = txn_WriteSet txn\<rparr>"
  obtain r c' s' where "ImmediateCertifier_SubmitCommit MemStore_ops c s ?req = (Inr r, c', s')" "res_Committed r"
    using mem.submit_refines [OF assms(8-10), of ?req] assms(11) by (auto simp: occ_spec_def)
  moreover have "replay (db_of (mem_view s)) [RdOp k v, RdOp k ''''] = None"
    using assms(5,6) by (simp add: db_of_def)
  ultimately show ?thesis using assms(2)
    by (simp add: Engine_Commit_def Commit_request_def ImmediateCertifier_cert_def)
qed

theorem failed_reread_commits_witness:
  "\<exists>txn' r txn'' w. Engine_Read (GRPCStoreClient_Get (\<lambda>s path m. (Inl ''unavailable'', s))) (store_with ''x'' ''a'' 3)
       (rmw_txn ''x'' ''b'' 3\<lparr>txn_WriteSet := [], txn_writeBuffer := []\<rparr>) ''x'' = (('''', None), txn', store_with ''x'' ''a'' 3) \<and>
     Engine_Commit (Cert_SubmitCommit (ImmediateCertifier_cert MemStore_ops))
       (\<lparr>latestVersion = [(''x'', 3)], commitSeq = 3\<rparr>, store_with ''x'' ''a'' 3) txn' = (Inr (r, None), txn'', w) \<and> res_Committed r"
  using failed_reread_commits [of "rmw_txn ''x'' ''b'' 3\<lparr>txn_WriteSet := [], txn_writeBuffer := []\<rparr>" "''x''"
      "store_with ''x'' ''a'' 3" "''a''" 3 "\<lambda>s path m. (Inl ''unavailable'', s)" "''unavailable''"
      "\<lparr>latestVersion = [(''x'', 3)], commitSeq = 3\<rparr>"]
  by (auto simp: txn_ok_def checkActive_def coherent_store_with seq_room_def reads_current_def ver_of_def)

text \<open>\<^bold>\<open>C31.\<close> A failed \<open>DumpState\<close> wipes the certifier: when \<open>SyncFromStorage\<close> cannot reach the storage
  server, the version map becomes empty while the counter stays, and from then on every transaction
  that read an existing key, at any version the store can hold, is aborted as stale.\<close>

theorem sync_failure_aborts_readers:
  assumes "\<forall>path m. sconn s path m = (Inl err, s)" "rd \<in> set (tr_ReadSet req)" "re_VersionSeen rd \<noteq> 0"
  shows "\<exists>c'. ImmediateCertifier_SyncFromStorage (GRPCStoreClient_ops sconn) c s = (c', s) \<and>
    latestVersion c' = [] \<and> commitSeq c' = commitSeq c \<and>
    (\<exists>why. ImmediateCertifier_SubmitCommit ops c' t req = (Inr (aborted_result (tr_TxnID req) why), c', t))"
proof -
  have "Store_DumpState (GRPCStoreClient_ops sconn) s = ([], s)"
    using assms(1) by (simp add: GRPCStoreClient_ops_def GRPCStoreClient_DumpState_def storageServiceClient_DumpState_def)
  then have "ImmediateCertifier_SyncFromStorage (GRPCStoreClient_ops sconn) c s = (c\<lparr>latestVersion := []\<rparr>, s)"
    by (simp add: ImmediateCertifier_SyncFromStorage_def load_versions_def)
  moreover have "validate_reads [] (tr_ReadSet req) \<noteq> None"
    using assms(2,3) by (auto simp: validate_reads_None)
  ultimately show ?thesis by (auto simp: ImmediateCertifier_SubmitCommit_def)
qed

theorem sync_failure_aborts_readers_witness:
  "\<exists>c'. ImmediateCertifier_SyncFromStorage (GRPCStoreClient_ops (\<lambda>s path m. (Inl ''unavailable'', s)))
           \<lparr>latestVersion = [(''x'', 3)], commitSeq = 3\<rparr> (store_with ''x'' ''a'' 3) = (c', store_with ''x'' ''a'' 3) \<and>
     (\<exists>why. ImmediateCertifier_SubmitCommit MemStore_ops c' (store_with ''x'' ''a'' 3) (request ''t'' [(''x'', 3)] [])
        = (Inr (aborted_result ''t'' why), c', store_with ''x'' ''a'' 3))"
  using sync_failure_aborts_readers [of "\<lambda>s path m. (Inl ''unavailable'', s)" "store_with ''x'' ''a'' 3" "''unavailable''"
      "\<lparr>re_Key = ''x'', re_VersionSeen = 3\<rparr>" "request ''t'' [(''x'', 3)] []" "\<lparr>latestVersion = [(''x'', 3)], commitSeq = 3\<rparr>"
      MemStore_ops "store_with ''x'' ''a'' 3"]
  by auto

end
