(* ===== verification/Bank.thy ===== *)
theory Bank
  imports Remote
begin

text \<open>
  The bank-transfer demo, \<open>src/cmd/demo/main.go\<close>: accounts loaded with the same balance, clients that
  move random amounts between them, and the final check that the sum of the balances is unchanged.

  \<^item> \<open>transfer_step\<close> is the body of the loop in \<open>runTransfers\<close> as an automaton over the events of
    \<open>System\<close>: from which point of the loop the client may make which engine call, with the values that
    the code computes. The random choices of accounts and amount are nondeterministic, within the
    bounds of \<open>rng.Intn\<close> and of the loop that picks \<open>dst\<close> again while it equals \<open>src\<close>.
  \<^item> \<open>bank_step\<close> runs \<open>numClients\<close> such clients of \<open>txnsPerClient\<close> transfers each, interleaved in any
    order, and counts commits and aborts.
  \<^item> \<open>check_balances\<close> is the part of \<open>printResults\<close> that reads the accounts back and compares their sum with
    the expected one.
  \<^item> \<open>bank_money\<close>: over any system that keeps the contract of \<open>System\<close>, no reachable state has lost or
    created money, or overdrawn an account. \<open>Demo\<close> uses it on whole runs of the command.
\<close>

definition numAccounts :: nat where "numAccounts = 10"
definition initialBalance :: int where "initialBalance = 1000"
definition numClients :: nat where "numClients = 8"
definition txnsPerClient :: nat where "txnsPerClient = 100"
definition maxTransfer :: int where "maxTransfer = 100"

definition acct :: "nat \<Rightarrow> string" where
  "acct i = ''acct-'' @ Itoa (int i)"

definition initData :: "(string, string) gomap" where
  "initData = fold (\<lambda>i. AList.update (acct i) (Itoa initialBalance)) [0..<numAccounts] []"

subsection \<open>The transfer loop\<close>

datatype phase =
    Ready
  | Begun nat nat int
  | GotSrc nat nat int string
  | GotBoth nat nat int string string
  | PutSrc nat nat int string string
  | PutBoth nat nat int string string
  | Submitted nat nat int string string

definition debit :: "int \<Rightarrow> string \<Rightarrow> string" where
  "debit amount srcVal = Itoa (wrap64 (fst (Atoi srcVal) - amount))"

definition credit :: "int \<Rightarrow> string \<Rightarrow> string" where
  "credit amount dstVal = Itoa (wrap64 (fst (Atoi dstVal) + amount))"

inductive transfer_step :: "nat \<Rightarrow> phase \<Rightarrow> event \<Rightarrow> phase \<Rightarrow> bool" for i where
  t_begin: "src < numAccounts \<Longrightarrow> dst < numAccounts \<Longrightarrow> dst \<noteq> src \<Longrightarrow> 1 \<le> amount \<Longrightarrow> amount \<le> maxTransfer \<Longrightarrow>
    transfer_step i Ready (EvBegin i) (Begun src dst amount)"
| t_src: "transfer_step i (Begun src dst amount) (EvRead i (acct src) srcVal) (GotSrc src dst amount srcVal)"
| t_dst: "transfer_step i (GotSrc src dst amount srcVal) (EvRead i (acct dst) dstVal) (GotBoth src dst amount srcVal dstVal)"
| t_debit: "fst (Atoi srcVal) \<ge> amount \<Longrightarrow>
    transfer_step i (GotBoth src dst amount srcVal dstVal) (EvWrite i (acct src) (debit amount srcVal)) (PutSrc src dst amount srcVal dstVal)"
| t_credit: "transfer_step i (PutSrc src dst amount srcVal dstVal) (EvWrite i (acct dst) (credit amount dstVal)) (PutBoth src dst amount srcVal dstVal)"
| t_commit: "transfer_step i (PutBoth src dst amount srcVal dstVal) (EvSubmit i) (Submitted src dst amount srcVal dstVal)"
| t_result: "transfer_step i (Submitted src dst amount srcVal dstVal) (EvCertify i committed) Ready"
| t_abort: "fst (Atoi srcVal) < amount \<Longrightarrow> transfer_step i (GotBoth src dst amount srcVal dstVal) (EvAbort i) Ready"

record 'w bank =
  bk_sys :: "'w sys"
  bk_phase :: "nat \<Rightarrow> phase"
  bk_done :: "nat \<Rightarrow> nat"
  bk_committed :: nat
  bk_aborted :: nat

definition bank_count :: "nat \<Rightarrow> event \<Rightarrow> phase \<Rightarrow> 'w bank \<Rightarrow> 'w bank" where
  "bank_count i ev ph b =
     b\<lparr>bk_phase := (bk_phase b)(i := ph),
       bk_done := (if ph = Ready then (bk_done b)(i := bk_done b i + 1) else bk_done b),
       bk_committed := bk_committed b + (if ev = EvCertify i True then 1 else 0),
       bk_aborted := bk_aborted b + (if ev = EvCertify i False \<or> ev = EvAbort i then 1 else 0)\<rparr>"

inductive bank_step :: "'w World \<Rightarrow> 'w bank \<Rightarrow> 'w bank \<Rightarrow> bool" for W where
  bank_client: "i < numClients \<Longrightarrow> bk_done b i < txnsPerClient \<Longrightarrow> sys_step W (bk_sys b) ev \<sigma> \<Longrightarrow>
    transfer_step i (bk_phase b i) ev ph \<Longrightarrow> bank_step W b (bank_count i ev ph (b\<lparr>bk_sys := \<sigma>\<rparr>))"
| bank_internal: "sys_step W (bk_sys b) EvInternal \<sigma> \<Longrightarrow> bank_step W b (b\<lparr>bk_sys := \<sigma>\<rparr>)"

inductive bank_reach :: "'w World \<Rightarrow> 'w bank \<Rightarrow> 'w bank \<Rightarrow> bool" for W where
  bank_refl: "bank_reach W b b"
| bank_more: "bank_reach W b b' \<Longrightarrow> bank_step W b' b'' \<Longrightarrow> bank_reach W b b''"

definition bank_init :: "'w \<Rightarrow> 'w bank" where
  "bank_init w = \<lparr>bk_sys = sys_init w, bk_phase = (\<lambda>_. Ready), bk_done = (\<lambda>_. 0), bk_committed = 0, bk_aborted = 0\<rparr>"

subsection \<open>The final check\<close>

fun print_loop ::
    "('w \<Rightarrow> string \<Rightarrow> ReadResult \<times> 'w) \<Rightarrow> 'w \<Rightarrow> nat list \<Rightarrow> int list \<Rightarrow> int \<Rightarrow> int list \<times> int \<times> 'w" where
  "print_loop get w [] balances tot = (balances, tot, w)"
| "print_loop get w (i # is) balances tot =
     (let (r, w') = get w (acct i);
          bal = fst (Atoi (rr_Value r))
      in print_loop get w' is (balances @ [bal]) (wrap64 (tot + bal)))"

definition check_balances :: "('w \<Rightarrow> string \<Rightarrow> ReadResult \<times> 'w) \<Rightarrow> 'w \<Rightarrow> int list \<times> int \<times> bool" where
  "check_balances get w =
     (let (balances, tot, _) = print_loop get w [0..<numAccounts] [] 0;
          expected = wrap64 (int numAccounts * initialBalance)
      in (balances, tot, tot = expected))"

subsection \<open>Money\<close>

definition bal :: "(string \<rightharpoonup> string) \<Rightarrow> nat \<Rightarrow> int" where
  "bal db i = fst (Atoi (case db (acct i) of None \<Rightarrow> '''' | Some v \<Rightarrow> v))"

definition money_ok :: "(string \<rightharpoonup> string) \<Rightarrow> bool" where
  "money_ok db \<longleftrightarrow> (\<forall>i < numAccounts. 0 \<le> bal db i) \<and> (\<Sum>i < numAccounts. bal db i) = int numAccounts * initialBalance"

definition transfer_log :: "txn_op list \<Rightarrow> bool" where
  "transfer_log l \<longleftrightarrow> (\<exists>src dst amount srcVal dstVal. src < numAccounts \<and> dst < numAccounts \<and> dst \<noteq> src \<and>
     1 \<le> amount \<and> amount \<le> fst (Atoi srcVal) \<and>
     l = [RdOp (acct src) srcVal, RdOp (acct dst) dstVal, WrOp (acct src) (debit amount srcVal),
          WrOp (acct dst) (credit amount dstVal)])"

lemma acct_inj [simp]: "acct i = acct j \<longleftrightarrow> i = j"
  by (auto simp: acct_def Itoa_def dest: decimal_inj)

lemma two_balances_le:
  assumes "money_ok db" "src < numAccounts" "dst < numAccounts" "dst \<noteq> src"
  shows "bal db src + bal db dst \<le> int numAccounts * initialBalance"
proof -
  have "(\<Sum>i \<in> {src, dst}. bal db i) \<le> (\<Sum>i < numAccounts. bal db i)"
    using assms by (intro sum_mono2) (auto simp: money_ok_def)
  with assms show ?thesis by (simp add: money_ok_def)
qed

lemma transfer_money:
  assumes "transfer_log l" "money_ok db" "replay db l = Some db'"
  shows "money_ok db'"
proof -
  obtain src dst a sv dv where l: "src < numAccounts" "dst < numAccounts" "dst \<noteq> src" "1 \<le> a" "a \<le> fst (Atoi sv)"
    "l = [RdOp (acct src) sv, RdOp (acct dst) dv, WrOp (acct src) (debit a sv), WrOp (acct dst) (credit a dv)]"
    using assms(1) by (auto simp: transfer_log_def)
  then have vals: "fst (Atoi sv) = bal db src" "fst (Atoi dv) = bal db dst"
    and db': "db' = db(acct src \<mapsto> debit a sv, acct dst \<mapsto> credit a dv)"
    using assms(3) by (auto simp: bal_def split: if_splits)
  have pos: "0 \<le> bal db src" "0 \<le> bal db dst" using assms(2) l(1,2) by (auto simp: money_ok_def)
  have le: "bal db src + bal db dst \<le> 10000"
    using two_balances_le [OF assms(2) l(1-3)] by (simp add: numAccounts_def initialBalance_def)
  have "Atoi (debit a sv) = (bal db src - a, None)" "Atoi (credit a dv) = (bal db dst + a, None)"
    using pos le l(4,5) vals by (simp_all add: debit_def credit_def Atoi_Itoa)
  then have bal': "bal db' i = bal db i + (if i = dst then a else 0) - (if i = src then a else 0)" for i
    using l(3) by (auto simp: bal_def db')
  have "(\<Sum>i < numAccounts. bal db' i) = (\<Sum>i < numAccounts. bal db i)"
    using l(1,2) by (simp add: bal' sum.distrib sum_subtractf)
  with assms(2) pos l(4,5) vals show ?thesis by (auto simp: money_ok_def bal')
qed

lemma transfers_money:
  "\<forall>l \<in> set ls. transfer_log l \<Longrightarrow> money_ok db \<Longrightarrow> replay db (concat ls) = Some db' \<Longrightarrow> money_ok db'"
proof (induction ls arbitrary: db)
  case (Cons l ls)
  then obtain d where "replay db l = Some d" "replay d (concat ls) = Some db'"
    by (auto simp: replay_append bind_eq_Some_conv)
  with Cons transfer_money [of l db d] show ?case by auto
qed simp


subsection \<open>What the clients have done so far\<close>

text \<open>\<open>phase_log\<close> is the log of a client at each point of the loop; \<open>matches\<close> relates the point a client
  is at to its transaction in the system.\<close>

fun phase_log :: "phase \<Rightarrow> txn_op list" where
  "phase_log (GotSrc src dst a sv) = [RdOp (acct src) sv]"
| "phase_log (GotBoth src dst a sv dv) = [RdOp (acct src) sv, RdOp (acct dst) dv]"
| "phase_log (PutSrc src dst a sv dv) = [RdOp (acct src) sv, RdOp (acct dst) dv, WrOp (acct src) (debit a sv)]"
| "phase_log (PutBoth src dst a sv dv) =
     [RdOp (acct src) sv, RdOp (acct dst) dv, WrOp (acct src) (debit a sv), WrOp (acct dst) (credit a dv)]"
| "phase_log (Submitted src dst a sv dv) =
     [RdOp (acct src) sv, RdOp (acct dst) dv, WrOp (acct src) (debit a sv), WrOp (acct dst) (credit a dv)]"
| "phase_log _ = []"

definition picked :: "nat \<Rightarrow> nat \<Rightarrow> int \<Rightarrow> bool" where
  "picked src dst a \<longleftrightarrow> src < numAccounts \<and> dst < numAccounts \<and> dst \<noteq> src \<and> 1 \<le> a"

fun phase_ok :: "phase \<Rightarrow> bool" where
  "phase_ok Ready = True"
| "phase_ok (Begun src dst a) = picked src dst a"
| "phase_ok (GotSrc src dst a sv) = picked src dst a"
| "phase_ok (GotBoth src dst a sv dv) = picked src dst a"
| "phase_ok (PutSrc src dst a sv dv) = (picked src dst a \<and> a \<le> fst (Atoi sv))"
| "phase_ok (PutBoth src dst a sv dv) = (picked src dst a \<and> a \<le> fst (Atoi sv))"
| "phase_ok (Submitted src dst a sv dv) = (picked src dst a \<and> a \<le> fst (Atoi sv))"

definition matches :: "phase \<Rightarrow> client \<Rightarrow> bool" where
  "matches ph c \<longleftrightarrow> phase_ok ph \<and>
     (case c of Idle \<Rightarrow> ph = Ready
      | Active txn l \<Rightarrow> ph \<noteq> Ready \<and> (\<nexists>src dst a sv dv. ph = Submitted src dst a sv dv) \<and> l = phase_log ph
      | Waiting txn l \<Rightarrow> (\<exists>src dst a sv dv. ph = Submitted src dst a sv dv) \<and> l = phase_log ph)"

definition bank_inv :: "'w bank \<Rightarrow> bool" where
  "bank_inv b \<longleftrightarrow> (\<forall>i < numClients. matches (bk_phase b i) (sys_clients (bk_sys b) i)) \<and>
     (\<forall>l \<in> set (sys_hist (bk_sys b)). transfer_log l) \<and>
     bk_committed b = length (sys_hist (bk_sys b)) \<and>
     bk_committed b + bk_aborted b = (\<Sum>i < numClients. bk_done b i) \<and>
     (\<forall>i < numClients. bk_done b i \<le> txnsPerClient)"

text \<open>One call of one client: its point in the loop, its transaction and the history move together.\<close>

lemma transfer_sys_step:
  assumes "sys_step W \<sigma> ev \<sigma>'" "transfer_step i ph ev ph'" "matches ph (sys_clients \<sigma> i)"
  shows "matches ph' (sys_clients \<sigma>' i) \<and> (\<forall>j. j \<noteq> i \<longrightarrow> sys_clients \<sigma>' j = sys_clients \<sigma> j) \<and>
    (if ev = EvCertify i True then \<exists>l. transfer_log l \<and> sys_hist \<sigma>' = sys_hist \<sigma> @ [l] else sys_hist \<sigma>' = sys_hist \<sigma>) \<and>
    (ph' = Ready \<longleftrightarrow> ev = EvCertify i True \<or> ev = EvCertify i False \<or> ev = EvAbort i)"
  using assms(2,3) sys_step_effect [OF assms(1)]
proof (cases rule: transfer_step.cases)
  case (t_result src dst a sv dv committed)
  have "transfer_log (phase_log ph)"
    using assms(3) t_result(1) by (auto simp: transfer_log_def matches_def picked_def)
  then show ?thesis using assms(3) t_result sys_step_effect [OF assms(1)]
    by (cases committed) (auto simp: matches_def)
qed (auto simp: matches_def picked_def)

lemma bank_inv_init: "bank_inv (bank_init w)"
  by (simp add: bank_inv_def bank_init_def sys_init_def matches_def)

lemma bank_inv_step:
  assumes "bank_inv b" "bank_step W b b'"
  shows "bank_inv b'"
  using assms(2)
proof (cases rule: bank_step.cases)
  case (bank_client i ev \<sigma> ph)
  note step = transfer_sys_step [OF bank_client(4,5)]
  have m: "matches (bk_phase b i) (sys_clients (bk_sys b) i)" using assms(1) bank_client(2) by (simp add: bank_inv_def)
  have upd: "(\<Sum>j < numClients. ((bk_done b)(i := bk_done b i + 1)) j) = (\<Sum>j < numClients. bk_done b j) + 1"
    using bank_client(2) by (simp add: sum.remove [where x = i])
  show ?thesis
    using assms(1) step [OF m] bank_client(2,3) upd
    by (auto simp: bank_client(1) bank_inv_def bank_count_def split: if_splits)
next
  case (bank_internal \<sigma>)
  then show ?thesis using assms(1) sys_step_effect [OF bank_internal(2)] by (simp add: bank_inv_def)
qed

lemma bank_inv_reach: "bank_reach W (bank_init w) b \<Longrightarrow> bank_inv b"
  by (induction "bank_init w" b rule: bank_reach.induct) (auto intro: bank_inv_init bank_inv_step)

lemma bank_sys_reach: "bank_reach W (bank_init w) b \<Longrightarrow> sys_reach W (sys_init w) (bk_sys b)"
proof (induction "bank_init w" b rule: bank_reach.induct)
  case bank_refl
  then show ?case by (simp add: bank_init_def reach_refl)
next
  case (bank_more b' b'')
  from bank_more(3) obtain ev where "sys_step W (bk_sys b') ev (bk_sys b'')"
    by (cases rule: bank_step.cases) (auto simp: bank_count_def)
  with bank_more(2) show ?case by (rule reach_step)
qed

lemma bank_hist_bound:
  assumes "bank_inv b"
  shows "length (sys_hist (bk_sys b)) \<le> 800"
proof -
  have "(\<Sum>i < numClients. bk_done b i) \<le> (\<Sum>i < numClients. txnsPerClient)"
    using assms by (intro sum_mono) (simp add: bank_inv_def)
  with assms show ?thesis by (simp add: bank_inv_def numClients_def txnsPerClient_def)
qed

context certifier_contract
begin

lemma bank_money:
  assumes "wok w0" "unat (wseq w0) + 801 < 2 ^ 64" "money_ok (db_of (wview w0))" "bank_reach W (bank_init w0) b"
  shows "wok (sys_world (bk_sys b)) \<and> money_ok (db_of (wview (sys_world (bk_sys b))))"
proof -
  have inv: "bank_inv b" by (rule bank_inv_reach [OF assms(4)])
  have "sys_inv w0 (bk_sys b)"
    using sys_inv_reach [OF bank_sys_reach [OF assms(4)] assms(1)] bank_hist_bound [OF inv] assms(2) by simp
  then show ?thesis
    using transfers_money [OF _ assms(3)] inv by (auto simp: sys_inv_def bank_inv_def)
qed

end

context store_contract
begin

lemma print_loop_sum:
  assumes "ok s" "0 \<le> tot" "\<forall>i \<in> set is. 0 \<le> bal (db_of (view s)) i" "tot + (\<Sum>i\<leftarrow>is. bal (db_of (view s)) i) < 2 ^ 63"
  shows "\<exists>s'. print_loop (Store_Get ops) s is bs tot
    = (bs @ map (bal (db_of (view s))) is, tot + (\<Sum>i\<leftarrow>is. bal (db_of (view s)) i), s')"
  using assms
proof (induction "is" arbitrary: s bs tot)
  case (Cons i "is")
  obtain s' where s': "Store_Get ops s (acct i) = (view_result (view s (acct i)), s')" "ok s'" "view s' = view s"
    using get [OF Cons.prems(1)] by blast
  have b: "fst (Atoi (rr_Value (view_result (view s (acct i))))) = bal (db_of (view s)) i"
    by (auto simp: view_result_def bal_def db_of_def split: option.splits)
  have "0 \<le> (\<Sum>j\<leftarrow>is. bal (db_of (view s)) j)" using Cons.prems(3) by (intro sum_list_nonneg) auto
  then have "wrap64 (tot + bal (db_of (view s)) i) = tot + bal (db_of (view s)) i"
    using Cons.prems by (intro wrap64_id) auto
  with Cons.IH [OF s'(2), of "tot + bal (db_of (view s)) i" "bs @ [bal (db_of (view s)) i]"] Cons.prems s' b
  show ?case by (simp add: add.assoc Let_def)
qed simp

lemma check_balances_pass:
  assumes "ok s" "money_ok (db_of (view s))"
  shows "check_balances (Store_Get ops) s = (map (bal (db_of (view s))) [0..<numAccounts], 10000, True)"
proof -
  have "(\<Sum>i\<leftarrow>[0..<numAccounts]. bal (db_of (view s)) i) = 10000"
    using assms(2) by (simp add: money_ok_def interv_sum_list_conv_sum_set_nat atLeast0LessThan numAccounts_def initialBalance_def)
  with print_loop_sum [OF assms(1), of 0 "[0..<numAccounts]" "[]"] assms(2) show ?thesis
    by (auto simp: check_balances_def money_ok_def numAccounts_def initialBalance_def)
qed

end


subsection \<open>The initial balances\<close>

lemma initData_wf: "gomap_wf initData"
  unfolding initData_def by (rule gomap_wf_fold_update) simp

lemma map_of_initData: "map_of initData (acct i) = (if i < numAccounts then Some (Itoa initialBalance) else None)"
  by (simp add: initData_def map_simps image_iff)

lemma money_initData: "money_ok (db ++ map_of initData)"
proof -
  have "bal (db ++ map_of initData) i = initialBalance" if "i < numAccounts" for i
    using that Atoi_Itoa [of initialBalance] by (simp add: bal_def map_add_def map_of_initData initialBalance_def)
  then show ?thesis by (simp add: money_ok_def initialBalance_def)
qed

lemma load_db: "gomap_wf d \<Longrightarrow> db_of (mem_view (MemStore_LoadInitialData s d)) = db_of (mem_view s) ++ map_of d"
  by (auto simp: mem_view_load db_of_def map_add_def fun_eq_iff split: option.splits)

lemma load_view_pos: "view_pos (mem_view s) \<Longrightarrow> gomap_wf d \<Longrightarrow> view_pos (mem_view (MemStore_LoadInitialData s d))"
  by (auto simp: view_pos_def mem_view_load map_add_def split: option.splits)

text \<open>The state the local demo starts from.\<close>

abbreviation demo_store :: MemStore where
  "demo_store \<equiv> MemStore_LoadInitialData NewMemStore initData"

lemma demo_store_facts:
  "mem_wf demo_store" "view_pos (mem_view demo_store)" "money_ok (db_of (mem_view demo_store))"
  "snd (load_versions (MemStore_DumpState demo_store)) \<le> 1"
proof -
  have "view_pos (mem_view NewMemStore)" by (simp add: view_pos_def)
  then show ok: "mem_wf demo_store" "view_pos (mem_view demo_store)" "money_ok (db_of (mem_view demo_store))"
    by (simp_all add: mem_wf_ops load_view_pos load_db money_initData initData_wf)
  show "snd (load_versions (MemStore_DumpState demo_store)) \<le> 1"
    using mem.dump_seq_bound [OF ok(1), of 1] by (auto simp: MemStore_ops_sel mem_view_load [OF initData_wf])
qed

end
