(* ===== verification/Floats.thy ===== *)
theory Floats
  imports GoStd Complex_Main
begin

text \<open>
  Go's \<open>float64\<close> arithmetic, as far as the program uses it.

  \<^item> A finite \<open>float64\<close> is the rational number it stands for. \<open>fl\<close> rounds a rational number to 53
    significant bits, half to even; an operation on \<open>float64\<close> is the exact operation followed by \<open>fl\<close>,
    as IEEE 754 has it. The program only forms quotients and products of counters, sizes and durations,
    all of them below \<open>2 ^ 64\<close> with divisors below \<open>2 ^ 64\<close>, so that the exponent range is never left:
    overflow, subnormal numbers and NaN are not represented.
  \<^item> \<open>go_float64\<close> is the conversion of an integer, \<open>go_int\<close> the conversion of a \<open>float64\<close> back, which
    truncates, \<open>fmul\<close>, \<open>fdiv\<close> and \<open>fadd\<close> are the operations.
\<close>

type_synonym float64 = rat

fun bit_len :: "nat \<Rightarrow> nat" where
  "bit_len n = (if n = 0 then 0 else Suc (bit_len (n div 2)))"

declare bit_len.simps [simp del]

definition round_quot :: "nat \<Rightarrow> nat \<Rightarrow> nat" where
  "round_quot a b =
     (let q = a div b; r = a mod b
      in if 2 * r > b \<or> (2 * r = b \<and> odd q) then q + 1 else q)"

text \<open>The exponent \<open>e\<close> with \<open>2 ^ 52 \<le> a / b * 2 ^ e < 2 ^ 53\<close>.\<close>

definition float_exp :: "nat \<Rightarrow> nat \<Rightarrow> int" where
  "float_exp a b =
     (let e = 53 - (int (bit_len a) - int (bit_len b))
      in if 2 ^ 53 * (b * 2 ^ nat (- e)) \<le> a * 2 ^ nat e then e - 1 else e)"

definition fl :: "rat \<Rightarrow> float64" where
  "fl x =
     (if x = 0 then 0
      else let (a, b) = quotient_of \<bar>x\<bar>; e = float_exp (nat a) (nat b)
           in sgn x * of_nat (round_quot (nat a * 2 ^ nat e) (nat b * 2 ^ nat (- e))) * 2 ^ nat (- e) / 2 ^ nat e)"

definition go_float64 :: "int \<Rightarrow> float64" where
  "go_float64 i = fl (of_int i)"

definition go_int :: "float64 \<Rightarrow> int" where
  "go_int x = (if x < 0 then - \<lfloor>- x\<rfloor> else \<lfloor>x\<rfloor>)"

definition fmul :: "float64 \<Rightarrow> float64 \<Rightarrow> float64" where
  "fmul x y = fl (x * y)"

definition fdiv :: "float64 \<Rightarrow> float64 \<Rightarrow> float64" where
  "fdiv x y = fl (x / y)"

definition fadd :: "float64 \<Rightarrow> float64 \<Rightarrow> float64" where
  "fadd x y = fl (x + y)"


subsection \<open>The exponent\<close>

lemma bit_len_bounds: "0 < n \<Longrightarrow> 2 ^ (bit_len n - 1) \<le> n \<and> n < 2 ^ bit_len n \<and> 0 < bit_len n"
proof (induction n rule: bit_len.induct)
  case (1 n)
  show ?case
  proof (cases "n div 2 = 0")
    case True
    with "1.prems" show ?thesis by (auto simp: bit_len.simps [of n] bit_len.simps [of 0])
  next
    case False
    with "1.IH" "1.prems" have IH: "2 ^ (bit_len (n div 2) - 1) \<le> n div 2" "n div 2 < 2 ^ bit_len (n div 2)" "0 < bit_len (n div 2)"
      by simp_all
    have len: "bit_len n = Suc (bit_len (n div 2))" using "1.prems" by (simp add: bit_len.simps [of n])
    have "2 ^ bit_len (n div 2) = 2 * (2 :: nat) ^ (bit_len (n div 2) - 1)" using IH(3) by (simp flip: power_Suc)
    with IH(1) have "2 ^ bit_len (n div 2) \<le> n" by linarith
    moreover have "n < 2 * 2 ^ bit_len (n div 2)" using IH(2) by linarith
    ultimately show ?thesis by (simp add: len)
  qed
qed

lemma bit_len_rat:
  assumes "0 < n"
  shows "(2 :: rat) ^ bit_len n \<le> 2 * of_nat n" "of_nat n < (2 :: rat) ^ bit_len n"
proof -
  have n: "2 ^ (bit_len n - 1) \<le> n" "n < 2 ^ bit_len n" "0 < bit_len n" using bit_len_bounds [OF assms] by auto
  then have "(2 :: nat) ^ bit_len n \<le> 2 * n" by (simp add: power_eq_if)
  then show "(2 :: rat) ^ bit_len n \<le> 2 * of_nat n"
    by (metis of_nat_le_iff of_nat_mult of_nat_numeral of_nat_power)
  show "of_nat n < (2 :: rat) ^ bit_len n" using n(2) by (metis of_nat_less_iff of_nat_numeral of_nat_power)
qed

text \<open>Scaling by a power of two whose exponent is an integer.\<close>

lemma scale_powi:
  fixes x :: rat
  shows "x * 2 ^ nat e / 2 ^ nat (- e) = x * 2 powi e"
  by (cases "e \<ge> 0") (auto simp: power_int_def divide_simps)

lemma float_exp_range:
  assumes "0 < a" "0 < b"
  defines "x \<equiv> (of_nat a / of_nat b) * (2 :: rat) powi float_exp a b"
  shows "2 ^ 52 \<le> x" "x < 2 ^ 53"
proof -
  define e where "e = 53 - (int (bit_len a) - int (bit_len b))"
  define y where "y = (of_nat a / of_nat b) * (2 :: rat) powi e"
  let ?la = "bit_len a" and ?lb = "bit_len b"
  note ra = bit_len_rat [OF assms(1)] and rb = bit_len_rat [OF assms(2)]
  have "e = int (53 + ?lb) - int ?la" by (simp add: e_def)
  then have "(2 :: rat) powi e = 2 powi int (53 + ?lb) / 2 powi int ?la"
    by (simp only:) (rule power_int_diff, simp)
  then have "(2 :: rat) powi e = 2 ^ (53 + ?lb) / 2 ^ ?la" by (simp only: power_int_of_nat)
  also have "(2 :: rat) ^ (53 + ?lb) = 2 ^ 53 * 2 ^ ?lb" by (simp only: power_add)
  finally have y: "y = of_nat a * 2 ^ 53 * 2 ^ ?lb / (of_nat b * 2 ^ ?la)" by (simp add: y_def)
  have pos: "0 < (of_nat b :: rat)" "0 < (of_nat a :: rat)" using assms by simp_all
  have "of_nat b * (2 :: rat) ^ ?la \<le> 2 ^ ?lb * (2 * of_nat a)"
    using rb(2) ra(1) pos by (intro mult_mono) simp_all
  then have lo: "2 ^ 52 \<le> y" using pos by (simp add: y field_simps)
  have "of_nat a * (2 :: rat) ^ ?lb < 2 ^ ?la * (2 * of_nat b)"
    using ra(2) rb(1) pos by (intro mult_less_le_imp_less) simp_all
  then have hi: "y < 2 ^ 54" using pos by (simp add: y field_simps)
  have cmp: "2 ^ 53 * (b * 2 ^ nat (- e)) \<le> a * 2 ^ nat e \<longleftrightarrow> 2 ^ 53 \<le> y"
  proof -
    have "2 ^ 53 * (b * 2 ^ nat (- e)) \<le> a * 2 ^ nat e \<longleftrightarrow>
        (2 :: rat) ^ 53 * (of_nat b * 2 ^ nat (- e)) \<le> of_nat a * 2 ^ nat e"
      by (metis (mono_tags) of_nat_le_iff of_nat_mult of_nat_numeral of_nat_power)
    also have "\<dots> \<longleftrightarrow> 2 ^ 53 \<le> y"
      unfolding y_def scale_powi [symmetric] using pos by (simp add: field_simps)
    finally show ?thesis .
  qed
  have "x = y \<and> y < 2 ^ 53 \<or> x = y / 2 \<and> 2 ^ 53 \<le> y"
  proof (cases "2 ^ 53 \<le> y")
    case True
    then have "float_exp a b = e - 1" using cmp by (simp add: float_exp_def Let_def flip: e_def)
    then have "x = y / 2" unfolding x_def y_def by (simp add: power_int_diff)
    with True show ?thesis by simp
  next
    case False
    then have "float_exp a b = e" using cmp by (simp add: float_exp_def Let_def flip: e_def)
    with False show ?thesis unfolding x_def y_def by simp
  qed
  with lo hi show "2 ^ 52 \<le> x" "x < 2 ^ 53" by auto
qed


subsection \<open>Rounding\<close>

lemma round_quot_error:
  assumes "0 < b"
  shows "2 * a \<le> 2 * (round_quot a b * b) + b" "2 * (round_quot a b * b) \<le> 2 * a + b"
proof -
  define q r where "q = a div b * b" and "r = a mod b"
  have a: "a = q + r" unfolding q_def r_def by (rule div_mult_mod_eq [symmetric])
  have r: "r < b" unfolding r_def using assms by (rule mod_less_divisor)
  have "round_quot a b * b = q + b \<and> b \<le> 2 * r \<or> round_quot a b * b = q \<and> 2 * r \<le> b"
    by (auto simp: round_quot_def Let_def q_def r_def)
  with a r show "2 * a \<le> 2 * (round_quot a b * b) + b" "2 * (round_quot a b * b) \<le> 2 * a + b" by auto
qed

lemma round_quot_le:
  assumes "0 < b" "a \<le> n * b"
  shows "round_quot a b \<le> n"
proof -
  have "a div b \<le> n" using div_le_mono [OF assms(2), of b] assms(1) by simp
  moreover have "a mod b = 0" if "a div b = n" using div_mult_mod_eq [of a b] assms(2) that by simp
  ultimately show ?thesis using assms(1) by (cases "a div b = n") (auto simp: round_quot_def Let_def)
qed

text \<open>A positive number as a scaled quotient, and the result of rounding it.\<close>

lemma fl_pos:
  assumes "0 < x"
  obtains e :: int and k A B :: nat where "0 < B" "x = (of_nat A / of_nat B) / 2 powi e" "fl x = of_nat k / 2 powi e"
    "k = round_quot A B" "2 ^ 52 \<le> x * 2 powi e" "x * 2 powi e < 2 ^ 53"
proof -
  obtain a b where ab: "quotient_of x = (a, b)" by fastforce
  have b: "0 < b" and x: "x = of_int a / of_int b"
    using quotient_of_denom_pos [OF ab] quotient_of_div [OF ab] by simp_all
  then have a: "0 < a" using assms by (simp add: zero_less_divide_iff)
  define e where "e = float_exp (nat a) (nat b)"
  let ?A = "nat a * 2 ^ nat e" and ?B = "nat b * 2 ^ nat (- e)"
  have xq: "x = of_nat (nat a) / of_nat (nat b)" using x a b by simp
  have range: "2 ^ 52 \<le> x * 2 powi e" "x * 2 powi e < 2 ^ 53"
    using float_exp_range [of "nat a" "nat b"] a b unfolding xq e_def by auto
  have "(of_nat ?A / of_nat ?B) = x * 2 ^ nat e / 2 ^ nat (- e)" by (simp add: xq)
  then have xe: "x = (of_nat ?A / of_nat ?B) / 2 powi e" by (simp add: scale_powi)
  have sg: "sgn x = 1" "\<bar>x\<bar> = x" "x \<noteq> 0" using assms by simp_all
  have inv: "y * 2 ^ nat (- e) / 2 ^ nat e = y / 2 powi e" for y :: rat
    by (cases "e \<ge> 0") (auto simp: power_int_def divide_simps)
  have "fl x = of_nat (round_quot ?A ?B) / 2 powi e"
    unfolding fl_def Let_def using sg ab by (simp add: inv flip: e_def)
  moreover have "0 < ?B" using b by simp
  ultimately show thesis using that xe range by blast
qed

lemma fl_zero [simp]: "fl 0 = 0"
  by (simp add: fl_def)

text \<open>Rounding changes a number by at most one part in \<open>2 ^ 53\<close>.\<close>

lemma fl_error:
  assumes "0 \<le> x"
  shows "\<bar>fl x - x\<bar> \<le> x / 2 ^ 53"
proof (cases "x = 0")
  case False
  with assms have "0 < x" by simp
  then obtain e :: int and k A B :: nat where B: "0 < B" and x: "x = (of_nat A / of_nat B) / 2 powi e"
    and f: "fl x = of_nat k / 2 powi e" "k = round_quot A B" and lo: "2 ^ 52 \<le> x * 2 powi e"
    by (rule fl_pos)
  define s :: rat where "s = 2 powi e"
  have s: "0 < s" by (simp add: s_def)
  define q :: rat where "q = of_nat A / of_nat B"
  have "2 * of_nat A \<le> 2 * (of_nat k * of_nat B) + (of_nat B :: rat)" "2 * (of_nat k * of_nat B) \<le> 2 * of_nat A + (of_nat B :: rat)"
    using round_quot_error [OF B, of A] f(2)
    by (metis (mono_tags) of_nat_add of_nat_le_iff of_nat_mult of_nat_numeral)+
  then have "of_nat k - q \<le> 1 / 2" "q - of_nat k \<le> 1 / 2" using B by (simp_all add: q_def field_simps)
  then have k: "\<bar>of_nat k - q\<bar> \<le> 1 / 2" by linarith
  have "2 ^ 52 \<le> q" using lo x s by (simp add: q_def flip: s_def)
  with k have "\<bar>of_nat k - q\<bar> \<le> q / 2 ^ 53" by simp
  then have "\<bar>of_nat k - q\<bar> / s \<le> q / 2 ^ 53 / s" using s by (intro divide_right_mono) simp_all
  moreover have xq: "x = q / s" unfolding q_def s_def by (rule x)
  have "fl x - x = of_nat k / s - q / s" using f(1) xq by (simp only: s_def)
  then have "fl x - x = (of_nat k - q) / s" by (simp only: diff_divide_distrib)
  then have "\<bar>fl x - x\<bar> = \<bar>of_nat k - q\<bar> / s" using s by simp
  ultimately have "\<bar>fl x - x\<bar> \<le> q / 2 ^ 53 / s" by (simp only:)
  also have "q / 2 ^ 53 / s = x / 2 ^ 53" unfolding xq by simp
  finally show ?thesis .
qed simp

lemma fl_nonneg: "0 \<le> x \<Longrightarrow> 0 \<le> fl x"
proof (cases "x = 0")
  case False
  assume "0 \<le> x"
  with False have "0 < x" by simp
  then show ?thesis by (rule fl_pos) simp
qed simp

lemma fl_pos_iff:
  assumes "0 \<le> x"
  shows "0 < fl x \<longleftrightarrow> 0 < x"
proof (cases "x = 0")
  case False
  have "x / 2 ^ 53 < x" using assms False by simp
  with fl_error [OF assms] have "0 < fl x" by linarith
  with assms False show ?thesis by simp
qed simp

lemma fl_exp_nonneg:
  fixes x :: rat
  assumes "2 ^ 52 \<le> x * 2 powi e" "x \<le> of_nat n" "n < 2 ^ 53"
  shows "0 \<le> (e :: int)"
proof (rule ccontr)
  assume "\<not> 0 \<le> e"
  then have "(2 :: rat) powi e \<le> 2 powi (- 1)" by (intro power_int_increasing) simp_all
  then have half: "(2 :: rat) powi e \<le> 1 / 2" by (simp add: power_int_minus)
  have "0 < x * 2 powi e" by (rule less_le_trans [OF _ assms(1)]) simp
  then have "0 < x" by (rule zero_less_mult_pos2) simp
  with half have "x * 2 powi e \<le> x * (1 / 2)" by (intro mult_left_mono) simp_all
  with assms(1) have "2 ^ 52 \<le> x * (1 / 2)" by (rule order_trans)
  moreover have "(of_nat n :: rat) < of_nat (2 ^ 53)" using assms(3) by (simp only: of_nat_less_iff)
  then have "x < 2 ^ 53" using assms(2) by simp
  ultimately show False by simp
qed

text \<open>Rounding does not cross a natural number below \<open>2 ^ 53\<close>, and leaves such a number as it is.\<close>

lemma fl_le_nat:
  assumes "0 \<le> x" "x \<le> of_nat n" "n < 2 ^ 53"
  shows "fl x \<le> of_nat n"
proof (cases "x = 0")
  case False
  with assms have "0 < x" by simp
  then obtain e :: int and k A B :: nat where B: "0 < B" and x: "x = (of_nat A / of_nat B) / 2 powi e"
    and f: "fl x = of_nat k / 2 powi e" "k = round_quot A B" and lo: "2 ^ 52 \<le> x * 2 powi e"
    by (rule fl_pos)
  have "0 \<le> e" by (rule fl_exp_nonneg [OF lo assms(2,3)])
  then obtain j where j: "e = int j" using zero_le_imp_eq_int by blast
  have "of_nat A \<le> of_nat (n * 2 ^ j) * (of_nat B :: rat)"
    using assms(2) x B by (simp add: j divide_simps mult.commute mult.left_commute split: if_splits)
  then have "A \<le> n * 2 ^ j * B" by (metis of_nat_le_iff of_nat_mult)
  then have "k \<le> n * 2 ^ j" using f(2) round_quot_le [OF B] by simp
  then have "of_nat k \<le> of_nat n * (2 :: rat) ^ j" by (metis of_nat_le_iff of_nat_mult of_nat_numeral of_nat_power)
  then show ?thesis by (simp add: f(1) j divide_le_eq)
qed simp

lemma fl_nat: "n < 2 ^ 53 \<Longrightarrow> fl (of_nat n) = of_nat n"
proof (rule antisym)
  assume n: "n < 2 ^ 53"
  show "fl (of_nat n) \<le> of_nat n" by (rule fl_le_nat [OF _ _ n]) simp_all
  show "of_nat n \<le> fl (of_nat n)"
  proof (cases "n = 0")
    case False
    then have "(0 :: rat) < of_nat n" by simp
    then obtain e :: int and k A B :: nat where B: "0 < B" and x: "of_nat n = (of_nat A / of_nat B) / (2 :: rat) powi e"
      and f: "fl (of_nat n) = of_nat k / 2 powi e" "k = round_quot A B" and lo: "2 ^ 52 \<le> of_nat n * (2 :: rat) powi e"
      by (rule fl_pos)
    have "0 \<le> e" by (rule fl_exp_nonneg [OF lo _ n]) simp
    then obtain j where j: "e = int j" using zero_le_imp_eq_int by blast
    have "of_nat A = of_nat (n * 2 ^ j) * (of_nat B :: rat)" using x B by (simp add: j divide_simps ac_simps split: if_splits)
    then have "A = n * 2 ^ j * B" by (metis of_nat_eq_iff of_nat_mult)
    then have "k = n * 2 ^ j" using f(2) B by (simp add: round_quot_def)
    then show ?thesis by (simp add: f(1) j)
  qed simp
qed

text \<open>The operations on numbers that are not negative.\<close>

lemma fdiv_bounds:
  assumes "0 \<le> a" "a \<le> b" "b < 2 ^ 53" "0 < b"
  shows "0 \<le> fdiv (go_float64 a) (go_float64 b)" "fdiv (go_float64 a) (go_float64 b) \<le> 1"
    "\<bar>fdiv (go_float64 a) (go_float64 b) - of_int a / of_int b\<bar> \<le> 1 / 2 ^ 53"
proof -
  have conv: "go_float64 i = of_int i" if "0 \<le> i" "i < 2 ^ 53" for i
  proof -
    have "nat i < 2 ^ 53" using that by (simp add: nat_less_iff)
    then show ?thesis using fl_nat [of "nat i"] that by (simp add: go_float64_def)
  qed
  have eq: "fdiv (go_float64 a) (go_float64 b) = fl (of_int a / of_int b)" using assms by (simp add: fdiv_def conv)
  have pos: "(0 :: rat) \<le> of_int a / of_int b" and le: "of_int a / of_int b \<le> (1 :: rat)" using assms by simp_all
  show "0 \<le> fdiv (go_float64 a) (go_float64 b)" unfolding eq by (rule fl_nonneg [OF pos])
  show "fdiv (go_float64 a) (go_float64 b) \<le> 1" unfolding eq using fl_le_nat [OF pos, of 1] le by simp
  have "\<bar>fl (of_int a / of_int b) - of_int a / of_int b\<bar> \<le> of_int a / of_int b / 2 ^ 53" by (rule fl_error [OF pos])
  also have "\<dots> \<le> 1 / 2 ^ 53" using le by (intro divide_right_mono) simp_all
  finally show "\<bar>fdiv (go_float64 a) (go_float64 b) - of_int a / of_int b\<bar> \<le> 1 / 2 ^ 53" unfolding eq .
qed

lemma fmul_le:
  assumes "0 \<le> n" "n < 2 ^ 53" "0 \<le> c" "c \<le> 1"
  shows "0 \<le> fmul (go_float64 n) c" "fmul (go_float64 n) c \<le> of_int n"
proof -
  have n: "nat n < 2 ^ 53" using assms by (simp add: nat_less_iff)
  then have conv: "go_float64 n = of_nat (nat n)" using fl_nat [of "nat n"] assms by (simp add: go_float64_def)
  have pos: "0 \<le> of_nat (nat n) * c" using assms(3) by simp
  have "of_nat (nat n) * c \<le> of_nat (nat n)" using assms by (simp add: mult_left_le)
  then show "fmul (go_float64 n) c \<le> of_int n" "0 \<le> fmul (go_float64 n) c"
    unfolding fmul_def conv using fl_le_nat [OF pos _ n] fl_nonneg [OF pos] assms(1) by simp_all
qed

end
