(* ===== verification/Demo.thy ===== *)
theory Demo
  imports Bank Floats
begin

text \<open>
  The runs of the demo command, \<open>src/cmd/demo/main.go\<close>, on top of the transfer clients of \<open>Bank\<close>.

  \<^item> \<open>runTransfers\<close> relates the state before the clients start and the state after all of them have left
    their loops (\<open>wg.Wait\<close>), with the two counts it returns.
  \<^item> \<open>results\<close> are the values \<open>printResults\<close> prints; the abort rate is the \<open>float64\<close> expression of the code.
  \<^item> \<open>runDemo\<close> and \<open>runDemoWith\<close> are the local and the remote run from start to end. A run of the epoch
    certifier ends with the goroutine idle, because \<open>Stop\<close> waits for it.
  \<^item> \<open>demo_main\<close> is the command: the choice between them by the flag \<open>mode\<close>, and in remote mode the two
    connections, to a storage server with the contents \<open>s\<close> and to a certifier server in either mode, which no
    other process uses. Flag parsing and the printing itself are not modelled.
\<close>

record results =
  rs_committed :: int
  rs_aborted :: int
  rs_abortRate :: float64
  rs_balances :: "int list"
  rs_sum :: int
  rs_pass :: bool

definition printResults :: "('w \<Rightarrow> string \<Rightarrow> ReadResult \<times> 'w) \<Rightarrow> 'w \<Rightarrow> int \<Rightarrow> int \<Rightarrow> results" where
  "printResults get w committed aborted =
     (let tot = wrap64 (committed + aborted);
          abortRate = (if tot > 0 then fmul (fdiv (go_float64 aborted) (go_float64 tot)) 100 else 0);
          (balances, s, ok) = check_balances get w
      in \<lparr>rs_committed = committed, rs_aborted = aborted, rs_abortRate = abortRate,
          rs_balances = balances, rs_sum = s, rs_pass = ok\<rparr>)"

inductive runTransfers :: "'w World \<Rightarrow> 'w \<Rightarrow> 'w \<Rightarrow> int \<Rightarrow> int \<Rightarrow> bool" for W w where
  wait: "bank_reach W (bank_init w) b \<Longrightarrow> \<forall>i < numClients. bk_done b i = txnsPerClient \<Longrightarrow>
    runTransfers W w (sys_world (bk_sys b)) (int (bk_committed b)) (int (bk_aborted b))"

inductive runDemo :: "(pendingTxn list \<Rightarrow> pendingTxn list) \<Rightarrow> int \<Rightarrow> results \<Rightarrow> bool" for srt epochMs where
  demo_epoch: "epochMs > 0 \<Longrightarrow>
    NewEpochCertifier MemStore_ops (MemStore_LoadInitialData NewMemStore initData) (wrap64 (epochMs * 10 ^ 6)) = (c, s) \<Longrightarrow>
    EpochCertifier_Start c = Inr c' \<Longrightarrow>
    runTransfers (epoch_world MemStore_ops srt) (c', s, None) (c'', s'', None) committed aborted \<Longrightarrow>
    EpochCertifier_Stop c'' = Inr c3 \<Longrightarrow>
    runDemo srt epochMs (printResults (Store_Get MemStore_ops) s'' committed aborted)"
| demo_immediate: "\<not> epochMs > 0 \<Longrightarrow>
    NewImmediateCertifier MemStore_ops (MemStore_LoadInitialData NewMemStore initData) = (c, s) \<Longrightarrow>
    runTransfers (imm_world MemStore_ops) (c, s) (c', s') committed aborted \<Longrightarrow>
    runDemo srt epochMs (printResults (Store_Get MemStore_ops) s' committed aborted)"

text \<open>\<open>runDemoWith\<close>, given the calls \<open>load\<close> and \<open>sync\<close> of its store and certifier and the system they form.\<close>

inductive runDemoWith ::
    "('w \<Rightarrow> (string, string) gomap \<Rightarrow> 'w) \<Rightarrow> ('w \<Rightarrow> 'w) \<Rightarrow> 'w World \<Rightarrow> 'w \<Rightarrow> results \<Rightarrow> bool"
  for load sync W w where
  demo_with: "runTransfers W (sync (load w initData)) w' committed aborted \<Longrightarrow>
    runDemoWith load sync W w (printResults (W_Get W) w' committed aborted)"

inductive demo_main ::
    "(pendingTxn list \<Rightarrow> pendingTxn list) \<Rightarrow> (string \<Rightarrow> string + MemStore invoke) \<Rightarrow>
     (string \<Rightarrow> string + ccaas) \<Rightarrow> MemStore \<Rightarrow> client_flags \<Rightarrow> results list boot \<Rightarrow> bool"
  for srt dialS dialC s flags where
  main_fatal: "fl_mode flags = ''remote'' \<Longrightarrow> dial_both dialS dialC flags = Fatal msg \<Longrightarrow>
    demo_main srt dialS dialC s flags (Fatal msg)"
| main_remote: "fl_mode flags = ''remote'' \<Longrightarrow> dial_both dialS dialC flags = Up (sconn, Immediate_server cconn c) \<Longrightarrow>
    runDemoWith (remote_load sconn) (GRPCCertifierClient_SyncFromStorage cconn) (remote_world sconn cconn) (c, s) r \<Longrightarrow>
    demo_main srt dialS dialC s flags (Up [r])"
| main_remote_epoch: "fl_mode flags = ''remote'' \<Longrightarrow> dial_both dialS dialC flags = Up (sconn, Epoch_server e) \<Longrightarrow>
    runDemoWith (epoch_load sconn) (epoch_resync (GRPCStoreClient_ops sconn)) (remote_epoch_world sconn srt) (e, s, None) r \<Longrightarrow>
    demo_main srt dialS dialC s flags (Up [r])"
| main_local: "fl_mode flags \<noteq> ''remote'' \<Longrightarrow> runDemo srt 0 r1 \<Longrightarrow> runDemo srt 10 r2 \<Longrightarrow>
    demo_main srt dialS dialC s flags (Up [r1, r2])"


subsection \<open>What a finished run prints\<close>

lemma print_loop_lift:
  "print_loop (\<lambda>(c, s) k. let (r, s') = get s k in (r, (c, s'))) (c, s) is bs tot =
     (let (balances, t, s') = print_loop get s is bs tot in (balances, t, (c, s')))"
  by (induction get s "is" bs tot rule: print_loop.induct) (auto simp: Let_def split: prod.splits)

lemma check_balances_lift:
  "check_balances (\<lambda>(c, s) k. let (r, s') = get s k in (r, (c, s'))) (c, s) = check_balances get s"
  unfolding check_balances_def print_loop_lift by (simp split: prod.splits)

lemma print_loop_lift_epoch:
  "print_loop (\<lambda>(c, s, ph) k. let (r, s') = get s k in (r, (c, s', ph))) (c, s, ph) is bs tot =
     (let (balances, t, s') = print_loop get s is bs tot in (balances, t, (c, s', ph)))"
  by (induction get s "is" bs tot rule: print_loop.induct) (auto simp: Let_def split: prod.splits)

lemma check_balances_lift_epoch:
  "check_balances (\<lambda>(c, s, ph) k. let (r, s') = get s k in (r, (c, s', ph))) (c, s, ph) = check_balances get s"
  unfolding check_balances_def print_loop_lift_epoch by (simp split: prod.splits)

lemma runTransfers_counts:
  assumes "runTransfers W w w' committed aborted"
  shows "0 \<le> committed" "0 \<le> aborted" "committed + aborted = 800"
proof -
  obtain b where b: "bank_reach W (bank_init w) b" "\<forall>i < numClients. bk_done b i = txnsPerClient"
    "committed = int (bk_committed b)" "aborted = int (bk_aborted b)"
    using assms by (cases rule: runTransfers.cases) auto
  have "bk_committed b + bk_aborted b = 800"
    using bank_inv_reach [OF b(1)] b(2) by (simp add: bank_inv_def numClients_def txnsPerClient_def)
  then have "int (bk_committed b + bk_aborted b) = 800" by simp
  then show "committed + aborted = 800" "0 \<le> committed" "0 \<le> aborted" by (simp_all add: b(3,4))
qed

text \<open>The printed abort rate is the exact percentage up to rounding.\<close>

lemma abort_percentage:
  assumes "0 \<le> a" "a \<le> (800 :: int)"
  shows "\<bar>fmul (fdiv (go_float64 a) (go_float64 800)) 100 - of_int a / 8\<bar> \<le> 1 / 2 ^ 45"
proof -
  let ?x = "fdiv (go_float64 a) (go_float64 800)"
  have x: "0 \<le> ?x" "?x \<le> 1" "\<bar>?x - of_int a / of_int 800\<bar> \<le> 1 / 2 ^ 53" using fdiv_bounds [of a 800] assms by simp_all
  have "\<bar>fl (?x * 100) - ?x * 100\<bar> \<le> ?x * 100 / 2 ^ 53" using x(1) by (intro fl_error) simp
  also have "\<dots> \<le> 100 / 2 ^ 53" using x(2) by simp
  finally have "\<bar>fmul ?x 100 - ?x * 100\<bar> \<le> 100 / 2 ^ 53" by (simp only: fmul_def)
  moreover define q :: rat where "q = of_int a / 800"
  have "\<bar>?x - q\<bar> \<le> 1 / 2 ^ 53" "of_int a / 8 = q * 100" unfolding q_def using x(3) by simp_all
  ultimately have "\<bar>fmul ?x 100 - q * 100\<bar> \<le> 100 / 2 ^ 53 + 100 * (1 / 2 ^ 53)" by linarith
  also have "\<dots> \<le> 1 / 2 ^ 45" by simp
  finally show ?thesis by (simp only: \<open>of_int a / 8 = q * 100\<close>)
qed

definition passes :: "results \<Rightarrow> bool" where
  "passes r \<longleftrightarrow> rs_pass r \<and> rs_sum r = 10000 \<and> length (rs_balances r) = numAccounts \<and> (\<forall>x \<in> set (rs_balances r). 0 \<le> x) \<and>
     0 \<le> rs_committed r \<and> 0 \<le> rs_aborted r \<and> rs_committed r + rs_aborted r = 800 \<and>
     \<bar>rs_abortRate r - of_int (rs_aborted r) / 8\<bar> \<le> 1 / 2 ^ 45"

lemma printResults_passes:
  assumes "runTransfers W w w' committed aborted" "check_balances get v = (balances, 10000, True)"
    and "length balances = numAccounts" "\<forall>x \<in> set balances. 0 \<le> x"
  shows "passes (printResults get v committed aborted)"
proof -
  note c = runTransfers_counts [OF assms(1)]
  then have "wrap64 (committed + aborted) = 800" by simp
  then show ?thesis
    using c abort_percentage [of aborted] assms(2-4) by (simp add: passes_def printResults_def)
qed


subsection \<open>A run can always be finished\<close>

text \<open>A client in the middle of its loop, seen from an earlier state.\<close>

definition moved :: "'w World \<Rightarrow> nat \<Rightarrow> 'w bank \<Rightarrow> 'w bank \<Rightarrow> client \<Rightarrow> phase \<Rightarrow> nat \<Rightarrow> bool" where
  "moved W i b b' c ph n \<longleftrightarrow> bank_reach W b b' \<and> sys_clients (bk_sys b') = (sys_clients (bk_sys b))(i := c) \<and>
     bk_phase b' = (bk_phase b)(i := ph) \<and> bk_done b' = (bk_done b)(i := n)"

lemma move:
  assumes "moved W i b b' c ph n" "i < numClients" "n < txnsPerClient"
    and "sys_step W (bk_sys b') ev \<sigma>" "sys_clients \<sigma> = (sys_clients (bk_sys b'))(i := c')" "transfer_step i ph ev ph'"
  shows "moved W i b (bank_count i ev ph' (b'\<lparr>bk_sys := \<sigma>\<rparr>)) c' ph' (if ph' = Ready then n + 1 else n)"
  using bank_more [OF _ bank_client [OF assms(2) _ assms(4)], of b ph'] assms(1,3,5,6)
  by (auto simp: moved_def bank_count_def)

lemma active_calls:
  assumes "checkActive t = None"
  shows "\<exists>v t' w'. Engine_Read get w t k = ((v, None), t', w') \<and> checkActive t' = None"
    and "\<exists>t'. Engine_Write t k v = (None, t') \<and> checkActive t' = None" and "\<exists>req. Commit_request t = Inr req"
proof -
  obtain x err t' w' where r: "Engine_Read get w t k = ((x, err), t', w')" by (metis prod.collapse)
  then have "err = None \<and> checkActive t' = None"
    using assms by (auto simp: Engine_Read_def checkActive_def Let_def split: prod.splits option.splits if_splits)
  with r show "\<exists>v t' w'. Engine_Read get w t k = ((v, None), t', w') \<and> checkActive t' = None" by blast
  show "\<exists>t'. Engine_Write t k v = (None, t') \<and> checkActive t' = None" "\<exists>req. Commit_request t = Inr req"
    using assms by (auto simp: Engine_Write_def Commit_request_def checkActive_def split: if_splits)
qed

lemma read_move:
  assumes "moved W i b b' (Active t l) ph n" "i < numClients" "n < txnsPerClient" "checkActive t = None"
    and "\<And>v. transfer_step i ph (EvRead i k v) (ph' v)" "\<And>v. ph' v \<noteq> Ready"
  shows "\<exists>b'' v t' l'. moved W i b b'' (Active t' l') (ph' v) n \<and> checkActive t' = None"
proof -
  obtain v t' w' where r: "Engine_Read (W_Get W) (sys_world (bk_sys b')) t k = ((v, None), t', w')" "checkActive t' = None"
    using active_calls(1) [OF assms(4), of "W_Get W" "sys_world (bk_sys b')" k] by blast
  have "sys_clients (bk_sys b') i = Active t l" using assms(1) by (simp add: moved_def)
  from move [OF assms(1-3) step_read [OF this r(1)] _ assms(5)] r(2) assms(6) show ?thesis by fastforce
qed

lemma write_move:
  assumes "moved W i b b' (Active t l) ph n" "i < numClients" "n < txnsPerClient" "checkActive t = None"
    and "transfer_step i ph (EvWrite i k v) ph'" "ph' \<noteq> Ready"
  shows "\<exists>b'' t' l'. moved W i b b'' (Active t' l') ph' n \<and> checkActive t' = None"
proof -
  obtain t' where r: "Engine_Write t k v = (None, t')" "checkActive t' = None" using active_calls(2) [OF assms(4)] by blast
  have "sys_clients (bk_sys b') i = Active t l" using assms(1) by (simp add: moved_def)
  from move [OF assms(1-3) step_write [OF this r(1)] _ assms(5)] r(2) assms(6) show ?thesis by fastforce
qed

text \<open>If the certifier answers every submission, an idle client can do a whole transfer.\<close>

definition answers :: "'w World \<Rightarrow> bool" where
  "answers W \<longleftrightarrow> (\<forall>w i req. \<exists>r w'. W_Certify W (W_Submit W w i req) i req r w')"

lemma one_transfer:
  assumes W: "answers W" and i: "i < numClients" "bk_done b i < txnsPerClient"
    and idle: "sys_clients (bk_sys b) i = Idle" "bk_phase b i = Ready"
  shows "\<exists>b'. moved W i b b' Idle Ready (bk_done b i + 1)"
proof -
  let ?n = "bk_done b i"
  have "moved W i b b Idle Ready ?n" using idle by (auto simp: moved_def intro: bank_refl)
  obtain t0 e where t0: "Engine_Begin (sys_engine (bk_sys b)) = (t0, e)" "checkActive t0 = None"
    by (auto simp: Engine_Begin_def checkActive_def Let_def)
  have "transfer_step i Ready (EvBegin i) (Begun 0 1 1)"
    by (rule t_begin) (simp_all add: numAccounts_def maxTransfer_def)
  from move [OF \<open>moved W i b b Idle Ready ?n\<close> i step_begin [of "bk_sys b", OF idle(1) t0(1)] _ this]
  obtain b0 where b0: "moved W i b b0 (Active t0 []) (Begun 0 1 1) ?n" by fastforce
  from read_move [OF b0 i t0(2) t_src] obtain b1 v t1 l1
    where b1: "moved W i b b1 (Active t1 l1) (GotSrc 0 1 1 v) ?n" "checkActive t1 = None" by blast
  from read_move [OF b1(1) i b1(2) t_dst] obtain b2 u t2 l2
    where b2: "moved W i b b2 (Active t2 l2) (GotBoth 0 1 1 v u) ?n" "checkActive t2 = None" by blast
  have c2: "sys_clients (bk_sys b2) i = Active t2 l2" using b2(1) by (simp add: moved_def)
  show ?thesis
  proof (cases "fst (Atoi v) \<ge> 1")
    case False
    then have "fst (Atoi v) < 1" by simp
    from move [OF b2(1) i step_abort [OF c2] _ t_abort [OF this]] show ?thesis by fastforce
  next
    case True
    from write_move [OF b2(1) i b2(2) t_debit [OF True]] obtain b3 t3 l3
      where b3: "moved W i b b3 (Active t3 l3) (PutSrc 0 1 1 v u) ?n" "checkActive t3 = None" by blast
    from write_move [OF b3(1) i b3(2) t_credit] obtain b4 t4 l4
      where b4: "moved W i b b4 (Active t4 l4) (PutBoth 0 1 1 v u) ?n" "checkActive t4 = None" by blast
    obtain req where req: "Commit_request t4 = Inr req" using active_calls(3) [OF b4(2)] by blast
    have "sys_clients (bk_sys b4) i = Active t4 l4" using b4(1) by (simp add: moved_def)
    note sub = step_submit [OF this req, of W]
    define b5 where "b5 = bank_count i (EvSubmit i) (Submitted 0 1 1 v u) (b4\<lparr>bk_sys := (bk_sys b4)\<lparr>sys_world := W_Submit W (sys_world (bk_sys b4)) i req,
      sys_clients := (sys_clients (bk_sys b4))(i := Waiting t4 l4)\<rparr>\<rparr>)"
    have b5: "moved W i b b5 (Waiting t4 l4) (Submitted 0 1 1 v u) ?n"
      using move [OF b4(1) i sub _ t_commit] by (simp add: b5_def)
    have "sys_world (bk_sys b5) = W_Submit W (sys_world (bk_sys b4)) i req" by (simp add: b5_def bank_count_def)
    then obtain r w' where cert: "W_Certify W (sys_world (bk_sys b5)) i req r w'" using W unfolding answers_def by metis
    have "sys_clients (bk_sys b5) i = Waiting t4 l4" using b5 by (simp add: moved_def)
    from move [OF b5 i step_certify [OF this req cert] _ t_result] show ?thesis by fastforce
  qed
qed

lemma all_transfers:
  assumes "answers W" "\<forall>i < numClients. sys_clients (bk_sys b) i = Idle \<and> bk_phase b i = Ready \<and> bk_done b i \<le> txnsPerClient"
  shows "\<exists>b'. bank_reach W b b' \<and> (\<forall>i < numClients. bk_done b' i = txnsPerClient)"
  using assms(2)
proof (induction "\<Sum>i < numClients. txnsPerClient - bk_done b i" arbitrary: b)
  case 0
  then have "\<forall>i < numClients. bk_done b i = txnsPerClient" by (auto simp: le_antisym)
  then show ?case using bank_refl by blast
next
  case (Suc n)
  then have "\<exists>i \<in> {..<numClients}. txnsPerClient - bk_done b i \<noteq> 0" by (metis nat.distinct(1) sum.neutral)
  then obtain i where i: "i < numClients" "bk_done b i < txnsPerClient" by auto
  then obtain b1 where b1: "moved W i b b1 Idle Ready (bk_done b i + 1)"
    using one_transfer [OF assms(1) i] Suc.prems by blast
  let ?f = "\<lambda>d j. txnsPerClient - bk_done d j"
  have "(\<Sum>j < numClients. ?f b j) = ?f b i + (\<Sum>j \<in> {..<numClients} - {i}. ?f b j)"
    and "(\<Sum>j < numClients. ?f b1 j) = ?f b1 i + (\<Sum>j \<in> {..<numClients} - {i}. ?f b1 j)"
    using i(1) by (simp_all add: sum.remove [where x = i])
  moreover have "(\<Sum>j \<in> {..<numClients} - {i}. ?f b1 j) = (\<Sum>j \<in> {..<numClients} - {i}. ?f b j)"
    using b1 by (intro sum.cong) (auto simp: moved_def)
  moreover have "?f b i = Suc (?f b1 i)" using b1 i(2) by (simp add: moved_def)
  ultimately have "n = (\<Sum>j < numClients. ?f b1 j)" using Suc.hyps(2) by simp
  moreover have "\<forall>j < numClients. sys_clients (bk_sys b1) j = Idle \<and> bk_phase b1 j = Ready \<and> bk_done b1 j \<le> txnsPerClient"
    using b1 Suc.prems i by (auto simp: moved_def)
  ultimately obtain b2 where "bank_reach W b1 b2" "\<forall>j < numClients. bk_done b2 j = txnsPerClient"
    using Suc.hyps(1) by blast
  moreover have "bank_reach W b b2" if "bank_reach W b1 b2" "bank_reach W b b1"
    using that by (induction rule: bank_reach.induct) (auto intro: bank_more)
  ultimately show ?case using b1 by (auto simp: moved_def)
qed

lemma runTransfers_exists:
  assumes "answers W"
  shows "\<exists>w' committed aborted. runTransfers W w w' committed aborted"
proof -
  have "\<forall>i < numClients. sys_clients (bk_sys (bank_init w)) i = Idle \<and> bk_phase (bank_init w) i = Ready \<and> bk_done (bank_init w) i \<le> txnsPerClient"
    by (simp add: bank_init_def sys_init_def)
  then obtain b where "bank_reach W (bank_init w) b" "\<forall>i < numClients. bk_done b i = txnsPerClient"
    using all_transfers [OF assms] by blast
  from wait [OF this] show ?thesis by (intro exI)
qed

lemma answers_remote: "answers (remote_world sconn cconn)"
  unfolding answers_def by (simp add: remote_world_def) (metis surj_pair)

subsection \<open>Local and remote runs pass\<close>

lemma final_balances:
  assumes "mem_wf s" "money_ok (db_of (mem_view s))"
  shows "\<exists>balances. check_balances (Store_Get MemStore_ops) s = (balances, 10000, True) \<and>
    length balances = numAccounts \<and> (\<forall>x \<in> set balances. 0 \<le> x)"
  using mem.check_balances_pass [OF assms] assms(2) by (auto simp: money_ok_def)

lemma first_seq:
  "NewImmediateCertifier MemStore_ops demo_store = (c, s) \<Longrightarrow> commitSeq c \<le> 1"
  "NewEpochCertifier MemStore_ops demo_store duration = (e, s) \<Longrightarrow> commitSeq e \<le> 1"
  using demo_store_facts(4)
  by (auto simp: NewImmediateCertifier_def NewEpochCertifier_def MemStore_ops_sel split: prod.splits)

lemma runDemo_passes:
  assumes "runDemo srt epochMs r"
  shows "passes r"
  using assms
proof (cases rule: runDemo.cases)
  case (demo_epoch c s c' c'' s'' committed aborted c3)
  obtain b where b: "bank_reach (epoch_world MemStore_ops srt) (bank_init (c', s, None)) b" "sys_world (bk_sys b) = (c'', s'', None)"
    using demo_epoch(5) by (cases rule: runTransfers.cases) auto
  have c': "commitSeq c' = commitSeq c" "latestVersion c' = latestVersion c"
    using demo_epoch(4) by (auto simp: EpochCertifier_Start_def split: if_splits)
  have "commitSeq c' \<le> 1" using first_seq(2) [OF demo_epoch(3)] c' by simp
  then have "unat (commitSeq c') + 801 < 2 ^ 64" by (simp add: word_le_nat_alt)
  moreover have "mem_wf s" "mem_view s = mem_view demo_store" "coherent (mem_view demo_store) c'"
    using mem.new_epoch_coherent [OF demo_store_facts(1,2), of "wrap64 (epochMs * 10 ^ 6)"] demo_epoch(3) c'
    by (auto simp: coherent_def)
  ultimately have "mem_wf s''" "money_ok (db_of (mem_view s''))"
    using mem.epoch.bank_money [of "(c', s, None)" srt b] demo_store_facts(3) b by auto
  then obtain balances where "check_balances (Store_Get MemStore_ops) s'' = (balances, 10000, True)"
    "length balances = numAccounts" "\<forall>x \<in> set balances. 0 \<le> x" using final_balances by blast
  from printResults_passes [OF demo_epoch(5) this] show ?thesis unfolding demo_epoch(1) .
next
  case (demo_immediate c s c' s' committed aborted)
  obtain b where b: "bank_reach (imm_world MemStore_ops) (bank_init (c, s)) b" "sys_world (bk_sys b) = (c', s')"
    using demo_immediate(4) by (cases rule: runTransfers.cases) auto
  have "commitSeq c \<le> 1" by (rule first_seq(1) [OF demo_immediate(3)])
  then have "unat (commitSeq c) + 801 < 2 ^ 64" by (simp add: word_le_nat_alt)
  moreover have "mem_wf s" "mem_view s = mem_view demo_store" "coherent (mem_view demo_store) c"
    using mem.new_coherent [OF demo_store_facts(1,2)] demo_immediate(3) by auto
  ultimately have "mem_wf s'" "money_ok (db_of (mem_view s'))"
    using mem.imm.bank_money [of "(c, s)" b] demo_store_facts(3) b by auto
  then obtain balances where "check_balances (Store_Get MemStore_ops) s' = (balances, 10000, True)"
    "length balances = numAccounts" "\<forall>x \<in> set balances. 0 \<le> x" using final_balances by blast
  from printResults_passes [OF demo_immediate(4) this] show ?thesis unfolding demo_immediate(1) .
qed

lemma runDemoWith_passes:
  assumes run: "runDemoWith (remote_load sconn) (GRPCCertifierClient_SyncFromStorage cconn) (remote_world sconn cconn) (c, s) r"
    and conn: "delivers sconn (StorageService_ServiceDesc MemStore_ops)"
      "delivers cconn (CertifierService_ServiceDesc (ImmediateCertifier_cert (GRPCStoreClient_ops sconn)))"
    and s: "mem_wf s" "view_pos (mem_view s)"
    and room: "unat (commitSeq (fst (GRPCCertifierClient_SyncFromStorage cconn (remote_load sconn (c, s) initData)))) + 801 < 2 ^ 64"
  shows "passes r"
  using run
proof (cases rule: runDemoWith.cases)
  case (demo_with w' committed aborted)
  obtain c' s' where w': "w' = (c', s')" by fastforce
  let ?w0 = "GRPCCertifierClient_SyncFromStorage cconn (c, GRPCStoreClient_LoadInitialData sconn s initData)"
  obtain b where b: "bank_reach (remote_world sconn cconn) (bank_init ?w0) b" "sys_world (bk_sys b) = w'"
    using demo_with(2) by (cases rule: runTransfers.cases) auto
  have sys: "remote_system MemStore_ops mem_view mem_wf sconn cconn" by unfold_locales (rule conn)+
  have st: "remote_store MemStore_ops mem_view mem_wf sconn" by unfold_locales (rule conn)
  note w0 = remote_start [OF conn s initData_wf refl]
  have money: "money_ok (db_of (mem_view (snd ?w0)))" by (simp add: w0(2) money_initData)
  have "unat (commitSeq (fst ?w0)) + 801 < 2 ^ 64" using room by simp
  with money have fin: "mem_wf s'" "money_ok (db_of (mem_view s'))"
    using certifier_contract.bank_money [OF remote_system.remote_contract [OF sys] w0(1) _ _ b(1)] b(2) w' by auto
  then have "check_balances (GRPCStoreClient_Get sconn) s' = (map (bal (db_of (mem_view s'))) [0..<numAccounts], 10000, True)"
    using store_contract.check_balances_pass [OF remote_store.client_contract [OF st]] by (simp add: GRPCStoreClient_ops_def)
  moreover have "W_Get (remote_world sconn cconn) = (\<lambda>(c, s) k. let (r, s') = GRPCStoreClient_Get sconn s k in (r, (c, s')))"
    by (simp only: remote_world_def World.select_convs)
  ultimately have "check_balances (W_Get (remote_world sconn cconn)) w' = (map (bal (db_of (mem_view s'))) [0..<numAccounts], 10000, True)"
    by (simp only: w' check_balances_lift)
  then show ?thesis
    unfolding demo_with(1) using fin(2) by (intro printResults_passes [OF demo_with(2)]) (auto simp: money_ok_def)
qed

lemma runDemoWith_epoch_passes:
  assumes run: "runDemoWith (epoch_load sconn) (epoch_resync (GRPCStoreClient_ops sconn)) (remote_epoch_world sconn srt) (c, s, None) r"
    and conn: "delivers sconn (StorageService_ServiceDesc MemStore_ops)"
    and s: "mem_wf s" "view_pos (mem_view s)"
    and room: "unat (commitSeq (fst (epoch_resync (GRPCStoreClient_ops sconn) (epoch_load sconn (c, s, None) initData)))) + 801 < 2 ^ 64"
  shows "passes r"
  using run
proof (cases rule: runDemoWith.cases)
  case (demo_with w' committed aborted)
  obtain c' s' ph where w': "w' = (c', s', ph)" by (cases w')
  let ?w0 = "epoch_resync (GRPCStoreClient_ops sconn) (epoch_load sconn (c, s, None) initData)"
  obtain b where b: "bank_reach (remote_epoch_world sconn srt) (bank_init ?w0) b" "sys_world (bk_sys b) = w'"
    using demo_with(2) by (cases rule: runTransfers.cases) auto
  have st: "remote_store MemStore_ops mem_view mem_wf sconn" by unfold_locales (rule conn)
  note cl = remote_store.client_contract [OF st]
  note w0 = remote_epoch_start [OF conn s initData_wf refl, where c = c and ph = None]
  have money: "money_ok (db_of (mem_view (fst (snd ?w0))))" unfolding w0(2) by (rule money_initData)
  have fin: "mem_wf s'" "money_ok (db_of (mem_view s'))"
    using certifier_contract.bank_money [OF store_contract.epoch_contract [OF cl], of ?w0 srt b] w0(1) room money b w'
    by (auto simp: remote_epoch_world_eq)
  then have "check_balances (GRPCStoreClient_Get sconn) s' = (map (bal (db_of (mem_view s'))) [0..<numAccounts], 10000, True)"
    using store_contract.check_balances_pass [OF cl] by (simp add: GRPCStoreClient_ops_def)
  moreover have "W_Get (remote_epoch_world sconn srt) = (\<lambda>(c, s, ph) k. let (r, s') = GRPCStoreClient_Get sconn s k in (r, (c, s', ph)))"
    by (simp only: remote_epoch_world_def World.select_convs)
  ultimately have "check_balances (W_Get (remote_epoch_world sconn srt)) w' = (map (bal (db_of (mem_view s'))) [0..<numAccounts], 10000, True)"
    by (simp only: w' check_balances_lift_epoch)
  then show ?thesis
    unfolding demo_with(1) using fin(2) by (intro printResults_passes [OF demo_with(2)]) (auto simp: money_ok_def)
qed

text \<open>When no call reaches a server, nothing commits and every balance is read as 0.\<close>

lemma nothing_commits:
  assumes "bank_reach W (bank_init w) b" "\<And>w i req r w'. W_Certify W w i req r w' \<Longrightarrow> \<not> res_Committed r"
  shows "bk_committed b = 0"
  using assms(1)
proof (induction "bank_init w" b rule: bank_reach.induct)
  case bank_refl
  show ?case by (simp add: bank_init_def)
next
  case (bank_more b' b'')
  from bank_more(3) show ?case
  proof (cases rule: bank_step.cases)
    case (bank_client i ev \<sigma> ph)
    have "ev \<noteq> EvCertify i True"
    proof
      assume "ev = EvCertify i True"
      with bank_client(4) show False
      proof (cases rule: sys_step.cases)
        case (step_certify i' txn l req r w')
        have "\<not> txn_committed txn" using step_certify(4) by (auto simp: Commit_request_def checkActive_def split: if_splits)
        with step_certify assms(2) show False using \<open>ev = EvCertify i True\<close> by (auto simp: Commit_finish_def split: if_splits)
      qed auto
    qed
    with bank_client(1) bank_more(2) show ?thesis by (simp add: bank_count_def)
  next
    case (bank_internal \<sigma>)
    with bank_more(2) show ?thesis by simp
  qed
qed

lemma print_loop_zero:
  "\<forall>k. get w k = (\<lparr>rr_Value = '''', rr_Version = 0, rr_Found = False\<rparr>, w) \<Longrightarrow> print_loop get w is bs 0 = (bs @ replicate (length is) 0, 0, w)"
  by (induction "is" arbitrary: bs) (simp_all add: Atoi_def)

lemma runDemoWith_unreachable:
  assumes run: "runDemoWith (remote_load sconn) (GRPCCertifierClient_SyncFromStorage cconn) (remote_world sconn cconn) (c, s) r"
    and down: "unreachable sconn (Immediate_server cconn c)"
  shows "rs_committed r = 0 \<and> rs_aborted r = 800 \<and> rs_sum r = 0 \<and> \<not> rs_pass r"
  using run
proof (cases rule: runDemoWith.cases)
  case (demo_with w' committed aborted)
  obtain c' s' where w': "w' = (c', s')" by fastforce
  let ?w0 = "GRPCCertifierClient_SyncFromStorage cconn (remote_load sconn (c, s) initData)"
  have fail: "\<not> res_Committed r" if "W_Certify (remote_world sconn cconn) w i req r w'" for w i req r w'
  proof -
    have "\<forall>w path m. \<exists>err. cconn w path m = (Inl err, w)" using down by (simp add: unreachable_def)
    then obtain err where "cconn w CertifierService_SubmitCommit_FullMethodName (M_SubmitCommitRequest (client_request req)) = (Inl err, w)"
      by blast
    with that show ?thesis
      by (auto simp: remote_world_def GRPCCertifierClient_SubmitCommit_def certifierServiceClient_SubmitCommit_def)
  qed
  obtain b where b: "bank_reach (remote_world sconn cconn) (bank_init ?w0) b" "committed = int (bk_committed b)"
    using demo_with(2) by (cases rule: runTransfers.cases) auto
  have "committed = 0" using nothing_commits [OF b(1) fail] b(2) by simp
  moreover have "aborted = 800" using runTransfers_counts [OF demo_with(2)] calculation by simp
  moreover have get: "GRPCStoreClient_Get sconn s' k = (\<lparr>rr_Value = '''', rr_Version = 0, rr_Found = False\<rparr>, s')" for k
  proof -
    have "\<forall>s path m. \<exists>err. sconn s path m = (Inl err, s)" using down by (simp add: unreachable_def)
    then obtain err where "sconn s' StorageService_Get_FullMethodName (M_GetRequest \<lparr>gq_Key = k\<rparr>) = (Inl err, s')"
      by blast
    then show ?thesis by (simp add: GRPCStoreClient_Get_def storageServiceClient_Get_def)
  qed
  have "print_loop (GRPCStoreClient_Get sconn) s' is [] 0 = (replicate (length is) 0, 0, s')" for "is"
    using print_loop_zero [of "GRPCStoreClient_Get sconn" s' "is" "[]"] get by simp
  then have "check_balances (GRPCStoreClient_Get sconn) s' = (replicate numAccounts 0, 0, False)"
    by (simp add: check_balances_def numAccounts_def initialBalance_def wrap64_def)
  moreover have "W_Get (remote_world sconn cconn) = (\<lambda>(c, s) k. let (r, s') = GRPCStoreClient_Get sconn s k in (r, (c, s')))"
    by (simp only: remote_world_def World.select_convs)
  ultimately have "check_balances (W_Get (remote_world sconn cconn)) w' = (replicate numAccounts 0, 0, False)" "committed = 0" "aborted = 800"
    by (simp_all only: w' check_balances_lift)
  then show ?thesis unfolding demo_with(1) printResults_def by simp
qed

subsection \<open>Properties\<close>

lemma demo_remote_seq:
  "commitSeq (fst (GRPCCertifierClient_SyncFromStorage lb_cert
     (remote_load lb_store (\<lparr>latestVersion = [], commitSeq = 0\<rparr>, NewMemStore) initData))) \<le> 1"
proof -
  have ld: "GRPCStoreClient_LoadInitialData lb_store NewMemStore initData = demo_store"
    by (simp add: client_LoadInitialData [OF loopback_storage] MemStore_ops_sel)
  obtain d where d: "GRPCStoreClient_DumpState lb_store demo_store = (d, demo_store)"
    using client_DumpState [OF loopback_storage, of MemStore_ops demo_store] mem_wf_ops(3) [OF demo_store_facts(1)]
    by (auto simp: MemStore_ops_sel)
  then show ?thesis
    using rmem.client.dump_seq_bound [OF demo_store_facts(1), of 1]
    by (auto simp: ld client_SyncFromStorage [OF loopback_certifier] ImmediateCertifier_cert_def mem_view_load [OF initData_wf]
        ImmediateCertifier_SyncFromStorage_def GRPCStoreClient_ops_def split: prod.splits)
qed

text \<open>\<^bold>\<open>C7.\<close> The demo command. In local mode, the two runs print PASS with the sum 10000 and ten balances that are
  not negative; the two counts add up to the 800 transfers, and the printed abort rate is their percentage
  up to \<open>2 ^ -45\<close>. In remote mode, with a certifier server in either mode, a run that finishes has these
  results if its connections deliver every call, to servers that no other process uses, a well-formed store
  and a certifier whose counter has room for the run. If no call reaches the servers, which
  \<open>grpc.NewClient\<close> does not report, a finished run has printed 800 aborts, the sum 0 and FAIL. The command
  ends without a result only in remote mode, when \<open>grpc.NewClient\<close> returns an error.\<close>

theorem demo_main_results:
  assumes run: "demo_main srt dialS dialC s flags out"
  shows "case out of
      Up outs \<Rightarrow>
        if fl_mode flags = ''remote''
        then \<exists>sconn cc r. dial_both dialS dialC flags = Up (sconn, cc) \<and> outs = [r] \<and>
          (remote_ready sconn cc s initData 801 \<longrightarrow> passes r) \<and>
          (unreachable sconn cc \<longrightarrow> rs_committed r = 0 \<and> rs_aborted r = 800 \<and> rs_sum r = 0 \<and> \<not> rs_pass r)
        else length outs = 2 \<and> (\<forall>r \<in> set outs. passes r)
    | Panicked p \<Rightarrow> False
    | Fatal msg \<Rightarrow> fl_mode flags = ''remote'' \<and>
        ((\<exists>err. dialS (fl_storageAddr flags) = Inl err) \<or> (\<exists>err. dialC (fl_ccaasAddr flags) = Inl err))"
  using run
proof (cases rule: demo_main.cases)
  case (main_fatal msg)
  then show ?thesis by (auto simp: dial_both_def split: sum.splits)
next
  case (main_remote sconn cconn c r)
  have "passes r" if "remote_ready sconn (Immediate_server cconn c) s initData 801"
    using that by (intro runDemoWith_passes [OF main_remote(4)]) (simp_all add: remote_ready_def)
  with runDemoWith_unreachable [OF main_remote(4)] main_remote show ?thesis by simp
next
  case (main_remote_epoch sconn e r)
  have "passes r" if "remote_ready sconn (Epoch_server e) s initData 801"
    using that by (intro runDemoWith_epoch_passes [OF main_remote_epoch(4)]) (simp_all add: remote_ready_def)
  with main_remote_epoch show ?thesis by (simp add: unreachable_def)
next
  case (main_local r1 r2)
  then show ?thesis using runDemo_passes by auto
qed

theorem demo_main_results_witness:
  "\<exists>r. demo_main (sort_key txn_key) (\<lambda>_. Inr lb_store) (\<lambda>_. Inr (Immediate_server lb_cert \<lparr>latestVersion = [], commitSeq = 0\<rparr>)) NewMemStore
       (client_defaults\<lparr>fl_mode := ''remote''\<rparr>) (Up [r]) \<and> passes r"
proof -
  let ?c = "\<lparr>latestVersion = [], commitSeq = 0\<rparr>" and ?W = "remote_world lb_store lb_cert"
  let ?dS = "\<lambda>_ :: string. Inr lb_store :: string + MemStore invoke" and ?fl = "client_defaults\<lparr>fl_mode := ''remote''\<rparr>"
  let ?dC = "\<lambda>_ :: string. Inr (Immediate_server lb_cert ?c) :: string + ccaas"
  let ?w = "GRPCCertifierClient_SyncFromStorage lb_cert (remote_load lb_store (?c, NewMemStore) initData)"
  have fl: "fl_mode ?fl = ''remote''" "dial_both ?dS ?dC ?fl = Up (lb_store, Immediate_server lb_cert ?c)" by (simp_all add: dial_both_def)
  obtain w' committed aborted where "runTransfers ?W ?w w' committed aborted"
    using runTransfers_exists [OF answers_remote] by blast
  from main_remote [OF fl demo_with [where load = "remote_load lb_store" and sync = "GRPCCertifierClient_SyncFromStorage lb_cert" and w = "(?c, NewMemStore)", OF this]]
  have run: "demo_main (sort_key txn_key) ?dS ?dC NewMemStore ?fl (Up [printResults (W_Get ?W) w' committed aborted])" .
  have "view_pos (mem_view NewMemStore)" by (simp add: view_pos_def)
  then have "remote_ready lb_store (Immediate_server lb_cert ?c) NewMemStore initData 801"
    using demo_remote_seq by (simp add: remote_ready_def word_le_nat_alt)
  then have "passes (printResults (W_Get ?W) w' committed aborted)"
    using demo_main_results [OF run] fl(2) by simp
  with run show ?thesis by blast
qed

end
