(* ===== verification/Metrics.thy ===== *)
theory Metrics
  imports Floats
begin

text \<open>
  The metrics collector, \<open>src/pkg/metrics/metrics.go\<close>.

  \<^item> \<open>Collector\<close> and \<open>Report\<close> as records. A \<open>time.Duration\<close> and an \<open>int\<close> are an \<open>int\<close> with \<open>wrap64\<close>
    where the code adds; a counter is a \<open>uint64\<close>. The clock is an argument of the two functions that
    read it.
  \<^item> The three rates are \<open>float64\<close> quotients (theory \<open>Floats\<close>), and so is the product that gives the index
    of the percentile. The constant \<open>0.95\<close> is the \<open>float64\<close> \<open>8556839292003942 / 2 ^ 53\<close>.
  \<^item> \<open>sorted[p95idx]\<close> panics when the index is out of range: \<open>Inl\<close>.
\<close>

record Collector =
  mc_totalCommitted :: uint64
  mc_totalAborted :: uint64
  mc_latencies :: "int list"
  mc_epochSizes :: "int list"
  mc_conflictCount :: uint64
  mc_startTime :: int

record Report =
  rp_TotalCommitted :: uint64
  rp_TotalAborted :: uint64
  rp_AbortRate :: float64
  rp_Throughput :: float64
  rp_AvgLatency :: int
  rp_P95Latency :: int
  rp_AvgEpochSize :: float64
  rp_ConflictCount :: uint64
  rp_ElapsedTime :: int

definition NewCollector :: "int \<Rightarrow> Collector" where
  "NewCollector now = \<lparr>mc_totalCommitted = 0, mc_totalAborted = 0, mc_latencies = [], mc_epochSizes = [],
     mc_conflictCount = 0, mc_startTime = now\<rparr>"

definition RecordCommit :: "int \<Rightarrow> Collector \<Rightarrow> Collector" where
  "RecordCommit latency c =
     c\<lparr>mc_totalCommitted := mc_totalCommitted c + 1, mc_latencies := mc_latencies c @ [latency]\<rparr>"

definition RecordAbort :: "int \<Rightarrow> Collector \<Rightarrow> Collector" where
  "RecordAbort latency c =
     c\<lparr>mc_totalAborted := mc_totalAborted c + 1, mc_latencies := mc_latencies c @ [latency]\<rparr>"

definition RecordEpochSize :: "int \<Rightarrow> Collector \<Rightarrow> Collector" where
  "RecordEpochSize sz c = c\<lparr>mc_epochSizes := mc_epochSizes c @ [sz]\<rparr>"

definition RecordConflict :: "Collector \<Rightarrow> Collector" where
  "RecordConflict c = c\<lparr>mc_conflictCount := mc_conflictCount c + 1\<rparr>"

subsection \<open>The report\<close>

definition p95 :: float64 where
  "p95 = 8556839292003942 / 2 ^ 53"

definition p95_index :: "nat \<Rightarrow> int" where
  "p95_index n =
     (let p95idx = go_int (fmul (go_float64 (int n)) p95)
      in if p95idx \<ge> int n then int n - 1 else p95idx)"

text \<open>\<open>Time.Sub\<close> saturates.\<close>

definition time_Sub :: "int \<Rightarrow> int \<Rightarrow> int" where
  "time_Sub t u = max (- (2 ^ 63)) (min (2 ^ 63 - 1) (t - u))"

text \<open>Go's integer division truncates towards zero.\<close>

definition go_div :: "int \<Rightarrow> int \<Rightarrow> int" where
  "go_div a b = wrap64 (sgn a * sgn b * (\<bar>a\<bar> div \<bar>b\<bar>))"

text \<open>\<open>Duration.Seconds\<close>, for a duration that is not negative.\<close>

definition duration_Seconds :: "int \<Rightarrow> float64" where
  "duration_Seconds d = fadd (go_float64 (d div 10 ^ 9)) (fdiv (go_float64 (d mod 10 ^ 9)) (10 ^ 9))"

definition go_sum :: "int list \<Rightarrow> int" where
  "go_sum xs = fold (\<lambda>x acc. wrap64 (acc + x)) xs 0"

definition Collector_Report :: "(int list \<Rightarrow> int list) \<Rightarrow> int \<Rightarrow> Collector \<Rightarrow> string + Report" where
  "Collector_Report srt now c =
     (let elapsed = time_Sub now (mc_startTime c);
          tot = mc_totalCommitted c + mc_totalAborted c;
          r = \<lparr>rp_TotalCommitted = mc_totalCommitted c, rp_TotalAborted = mc_totalAborted c,
               rp_AbortRate = 0, rp_Throughput = 0, rp_AvgLatency = 0, rp_P95Latency = 0, rp_AvgEpochSize = 0,
               rp_ConflictCount = mc_conflictCount c, rp_ElapsedTime = elapsed\<rparr>;
          r = (if tot > 0
               then r\<lparr>rp_AbortRate := fdiv (go_float64 (uint (mc_totalAborted c))) (go_float64 (uint tot))\<rparr> else r);
          r = (if elapsed > 0
               then r\<lparr>rp_Throughput := fdiv (go_float64 (uint (mc_totalCommitted c))) (duration_Seconds elapsed)\<rparr> else r);
          epoch = (\<lambda>r. if length (mc_epochSizes c) > 0
               then r\<lparr>rp_AvgEpochSize := fdiv (go_float64 (go_sum (mc_epochSizes c))) (go_float64 (int (length (mc_epochSizes c))))\<rparr>
               else r)
      in if length (mc_latencies c) > 0
         then let r = r\<lparr>rp_AvgLatency := go_div (go_sum (mc_latencies c)) (int (length (mc_latencies c)))\<rparr>;
                  s = srt (mc_latencies c);
                  p95idx = p95_index (length s)
              in if 0 \<le> p95idx \<and> p95idx < int (length s) then Inr (epoch (r\<lparr>rp_P95Latency := s ! nat p95idx\<rparr>))
                 else Inl ''index out of range''
         else Inr (epoch r))"


subsection \<open>The index of the percentile\<close>

lemma p95_index_enough:
  assumes "0 < n" "n < 2 ^ 48"
  shows "0 \<le> p95_index n" "p95_index n < int n" "19 * int n \<le> 20 * (p95_index n + 1)"
proof -
  let ?x = "of_nat n * p95"
  let ?i = "\<lfloor>fl ?x\<rfloor>"
  have pos: "0 \<le> ?x" by (simp add: p95_def)
  have "n < 2 ^ 53" using assms(2) by simp
  then have "go_float64 (int n) = of_nat n" using fl_nat [of n] by (simp add: go_float64_def)
  then have idx: "p95_index n = (if ?i \<ge> int n then int n - 1 else ?i)"
    using fl_nonneg [OF pos] by (simp add: p95_index_def fmul_def go_int_def Let_def)
  have "0 \<le> ?i" using fl_nonneg [OF pos] by simp
  then show "0 \<le> p95_index n" "p95_index n < int n" using assms(1) by (auto simp: idx)
  have "?x - ?x / 2 ^ 53 \<le> fl ?x" using fl_error [OF pos] by linarith
  also have "fl ?x < of_int ?i + 1" by linarith
  finally have "?x * (1 - 1 / 2 ^ 53) < of_int ?i + 1" by (simp add: algebra_simps)
  moreover have "(of_nat n :: rat) < of_nat (2 ^ 48)" using assms(2) by (simp only: of_nat_less_iff)
  ultimately have "of_int (19 * int n) - 1 < (of_int (20 * (?i + 1)) :: rat)" by (simp add: p95_def)
  then have "of_int (19 * int n - 1) < (of_int (20 * (?i + 1)) :: rat)" by simp
  then have "19 * int n - 1 < 20 * (?i + 1)" by (simp only: of_int_less_iff)
  then have "19 * int n \<le> 20 * (?i + 1)" by simp
  with assms(1) show "19 * int n \<le> 20 * (p95_index n + 1)" by (simp add: idx)
qed


subsection \<open>Reports\<close>

lemma count_below_index:
  assumes "sorted s" "i < length s"
  shows "i + 1 \<le> length (filter (\<lambda>x. x \<le> s ! i) s)"
proof -
  have all: "\<forall>x \<in> set (take (i + 1) s). x \<le> s ! i"
    using assms sorted_nth_mono [OF assms(1) _ assms(2)] by (auto simp: in_set_conv_nth less_Suc_eq_le)
  have "length (filter (\<lambda>x. x \<le> s ! i) s) =
      length (filter (\<lambda>x. x \<le> s ! i) (take (i + 1) s)) + length (filter (\<lambda>x. x \<le> s ! i) (drop (i + 1) s))"
    by (metis append_take_drop_id filter_append length_append)
  moreover have "filter (\<lambda>x. x \<le> s ! i) (take (i + 1) s) = take (i + 1) s" using all by (simp add: filter_id_conv)
  ultimately show ?thesis using assms(2) by simp
qed

lemma length_filter_mset: "mset xs = mset ys \<Longrightarrow> length (filter P xs) = length (filter P ys)"
  by (metis mset_filter size_mset)

lemma sum_no_wrap:
  assumes "\<forall>l \<in> set ls. 0 \<le> l" "0 \<le> acc" "acc + sum_list ls < 2 ^ 63"
  shows "fold (\<lambda>x acc. wrap64 (acc + x)) ls acc = acc + sum_list ls"
  using assms
proof (induction ls arbitrary: acc)
  case (Cons l ls)
  have "0 \<le> sum_list ls" using Cons.prems(1) by (intro sum_list_nonneg) auto
  then have "wrap64 (acc + l) = acc + l" using Cons.prems by (intro wrap64_id) auto
  with Cons show ?case by (simp add: add.assoc)
qed simp

lemma avg_bounds:
  fixes ls :: "int list"
  assumes "ls \<noteq> []" "\<forall>l \<in> set ls. lo \<le> l \<and> l \<le> hi"
  shows "lo \<le> sum_list ls div int (length ls) \<and> sum_list ls div int (length ls) \<le> hi"
proof -
  have "lo * int (length xs) \<le> sum_list xs \<and> sum_list xs \<le> hi * int (length xs)" if "set xs \<subseteq> set ls" for xs
    using that assms(2) by (induction xs) (auto simp: algebra_simps)
  from this [of ls] have "lo * int (length ls) \<le> sum_list ls" "sum_list ls \<le> hi * int (length ls)" by auto
  moreover have "0 < int (length ls)" using assms(1) by simp
  ultimately show ?thesis
    by (metis (no_types) nonzero_mult_div_cancel_right order_less_irrefl zdiv_mono1)
qed

text \<open>When a report is made, and its fields.\<close>

lemma report_ok:
  assumes "sortSlice_spec id srt" "length (mc_latencies c) < 2 ^ 48"
  shows "\<exists>r. Collector_Report srt now c = Inr r"
proof (cases "mc_latencies c = []")
  case False
  have "length (srt (mc_latencies c)) = length (mc_latencies c)"
    using assms(1) by (metis mset_eq_length sortSlice_spec_def)
  then show ?thesis using p95_index_enough [of "length (mc_latencies c)"] assms(2) False
    by (simp add: Collector_Report_def Let_def)
qed (simp add: Collector_Report_def Let_def)

lemma report_fields:
  assumes "Collector_Report srt now c = Inr r"
  shows "rp_AvgLatency r = (if mc_latencies c = [] then 0 else go_div (go_sum (mc_latencies c)) (int (length (mc_latencies c))))"
    and "rp_P95Latency r = (if mc_latencies c = [] then 0 else srt (mc_latencies c) ! nat (p95_index (length (srt (mc_latencies c)))))"
    and "rp_AbortRate r = (if mc_totalCommitted c + mc_totalAborted c > 0
          then fdiv (go_float64 (uint (mc_totalAborted c))) (go_float64 (uint (mc_totalCommitted c + mc_totalAborted c))) else 0)"
    and "rp_Throughput r = (if rp_ElapsedTime r > 0
          then fdiv (go_float64 (uint (mc_totalCommitted c))) (duration_Seconds (rp_ElapsedTime r)) else 0)"
    and "mc_epochSizes c = [] \<Longrightarrow> rp_AvgEpochSize r = 0"
    and "rp_TotalCommitted r = mc_totalCommitted c" "rp_TotalAborted r = mc_totalAborted c"
      "rp_ConflictCount r = mc_conflictCount c" "rp_ElapsedTime r = time_Sub now (mc_startTime c)"
proof -
  let ?elapsed = "time_Sub now (mc_startTime c)" and ?tot = "mc_totalCommitted c + mc_totalAborted c"
  have "r = \<lparr>rp_TotalCommitted = mc_totalCommitted c, rp_TotalAborted = mc_totalAborted c,
    rp_AbortRate = (if ?tot > 0 then fdiv (go_float64 (uint (mc_totalAborted c))) (go_float64 (uint ?tot)) else 0),
    rp_Throughput = (if ?elapsed > 0 then fdiv (go_float64 (uint (mc_totalCommitted c))) (duration_Seconds ?elapsed) else 0),
    rp_AvgLatency = (if mc_latencies c = [] then 0 else go_div (go_sum (mc_latencies c)) (int (length (mc_latencies c)))),
    rp_P95Latency = (if mc_latencies c = [] then 0 else srt (mc_latencies c) ! nat (p95_index (length (srt (mc_latencies c))))),
    rp_AvgEpochSize = (if mc_epochSizes c = [] then 0
      else fdiv (go_float64 (go_sum (mc_epochSizes c))) (go_float64 (int (length (mc_epochSizes c))))),
    rp_ConflictCount = mc_conflictCount c, rp_ElapsedTime = ?elapsed\<rparr>"
    using assms by (simp add: Collector_Report_def Let_def split: if_splits)
  then show "rp_AvgLatency r = (if mc_latencies c = [] then 0 else go_div (go_sum (mc_latencies c)) (int (length (mc_latencies c))))"
    "rp_P95Latency r = (if mc_latencies c = [] then 0 else srt (mc_latencies c) ! nat (p95_index (length (srt (mc_latencies c)))))"
    "rp_AbortRate r = (if mc_totalCommitted c + mc_totalAborted c > 0
       then fdiv (go_float64 (uint (mc_totalAborted c))) (go_float64 (uint (mc_totalCommitted c + mc_totalAborted c))) else 0)"
    "rp_Throughput r = (if rp_ElapsedTime r > 0
       then fdiv (go_float64 (uint (mc_totalCommitted c))) (duration_Seconds (rp_ElapsedTime r)) else 0)"
    "mc_epochSizes c = [] \<Longrightarrow> rp_AvgEpochSize r = 0"
    "rp_TotalCommitted r = mc_totalCommitted c" "rp_TotalAborted r = mc_totalAborted c"
    "rp_ConflictCount r = mc_conflictCount c" "rp_ElapsedTime r = time_Sub now (mc_startTime c)"
    by simp_all
qed

subsection \<open>Rates\<close>

lemma fl_rel:
  assumes "0 \<le> x"
  shows "x * (1 - 1 / 2 ^ 53) \<le> fl x" "fl x \<le> x * (1 + 1 / 2 ^ 53)"
  using fl_error [OF assms] by (simp_all only: abs_le_iff ring_distribs) simp_all

lemma go_float64_id: "0 \<le> i \<Longrightarrow> i < 2 ^ 53 \<Longrightarrow> go_float64 i = of_int i"
  using fl_nat [of "nat i"] by (simp add: go_float64_def nat_less_iff)

lemma seconds_rel:
  assumes "0 < d" "d < 2 ^ 63"
  shows "of_int d / 10 ^ 9 * (1 - 1 / 2 ^ 53) ^ 2 \<le> duration_Seconds d"
    "duration_Seconds d \<le> of_int d / 10 ^ 9 * (1 + 1 / 2 ^ 53) ^ 2"
proof -
  let ?s = "of_int (d div 10 ^ 9) :: rat" and ?n = "of_int (d mod 10 ^ 9) / 10 ^ 9 :: rat"
  define l h :: rat where "l = 1 - 1 / 2 ^ 53" and "h = 1 + 1 / 2 ^ 53"
  have lh: "0 \<le> l" "l \<le> 1" "1 \<le> h" by (simp_all add: l_def h_def)
  have "d div 10 ^ 9 \<le> (2 ^ 63) div 10 ^ 9" using assms(2) by (intro zdiv_mono1) simp_all
  moreover have "0 \<le> d div 10 ^ 9" using assms(1) by (simp add: pos_imp_zdiv_nonneg_iff)
  moreover have "0 \<le> d mod 10 ^ 9" "d mod 10 ^ 9 < 10 ^ 9" by simp_all
  ultimately have D: "duration_Seconds d = fl (?s + fl ?n)"
    by (simp add: duration_Seconds_def fadd_def fdiv_def go_float64_id)
  have pos: "0 \<le> ?s" "0 \<le> ?n" using \<open>0 \<le> d div 10 ^ 9\<close> \<open>0 \<le> d mod 10 ^ 9\<close> by simp_all
  have "of_int d = of_int (d div 10 ^ 9 * 10 ^ 9 + d mod 10 ^ 9) / (1 :: rat)" by simp
  then have sum: "of_int d / 10 ^ 9 = ?s + ?n" by (simp only: of_int_add of_int_mult) (simp add: add_divide_distrib)
  note n = fl_rel [OF pos(2), folded l_def h_def]
  have in0: "0 \<le> ?s + fl ?n" using pos fl_nonneg [OF pos(2)] by simp
  note f = fl_rel [OF in0, folded l_def h_def]
  have "(?s + ?n) * l \<le> ?s + fl ?n"
    using n(1) mult_left_le [OF lh(2) pos(1)] by (simp add: ring_distribs)
  then have "(?s + ?n) * l * l \<le> (?s + fl ?n) * l" using lh(1) by (rule mult_right_mono)
  with f(1) show "of_int d / 10 ^ 9 * (1 - 1 / 2 ^ 53) ^ 2 \<le> duration_Seconds d"
    unfolding D sum l_def [symmetric] power2_eq_square by (simp only: mult.assoc)
  have "?s + fl ?n \<le> (?s + ?n) * h"
    using n(2) mult_left_mono [OF lh(3) pos(1)] by (simp add: ring_distribs)
  then have "(?s + fl ?n) * h \<le> (?s + ?n) * h * h" using lh(3) by (intro mult_right_mono) simp_all
  with f(2) show "duration_Seconds d \<le> of_int d / 10 ^ 9 * (1 + 1 / 2 ^ 53) ^ 2"
    unfolding D sum h_def [symmetric] power2_eq_square by (simp only: mult.assoc)
qed

lemma throughput_rel:
  assumes "0 < d" "d < 2 ^ 63" "C < 2 ^ 53"
  shows "\<bar>fdiv (go_float64 (int C)) (duration_Seconds d) * (of_int d / 10 ^ 9) - of_nat C\<bar> \<le> of_nat C / 2 ^ 51"
proof -
  let ?T = "fdiv (go_float64 (int C)) (duration_Seconds d)" and ?n = "of_nat C :: rat"
  define S s l h :: rat where "S = of_int d / 10 ^ 9" and "s = duration_Seconds d" and "l = 1 - 1 / 2 ^ 53" and "h = 1 + 1 / 2 ^ 53"
  have lh: "0 < l" "0 < h" "l \<le> 1" "1 \<le> h" by (simp_all add: l_def h_def)
  have S: "0 < S" using assms(1) by (simp add: S_def)
  have s: "S * l ^ 2 \<le> s" "s \<le> S * h ^ 2" using seconds_rel [OF assms(1,2)] by (simp_all add: S_def s_def l_def h_def)
  have "0 < S * l ^ 2" using S lh by simp
  then have s0: "0 < s" using s(1) by linarith
  have conv: "go_float64 (int C) = ?n" using go_float64_id [of "int C"] assms(3) by simp
  have T: "?T = fl (?n / s)" by (simp add: conv fdiv_def s_def)
  have "?n / s * l * S \<le> ?T * S" "?T * S \<le> ?n / s * h * S"
    unfolding T using S s0
    by (intro mult_right_mono fl_rel [of "?n / s", folded l_def h_def]; simp)+
  moreover have "?n / s * x * S = ?n * (x * (S / s))" for x by simp
  ultimately have T': "?n * (l * (S / s)) \<le> ?T * S" "?T * S \<le> ?n * (h * (S / s))" by simp_all
  have "1 / h ^ 2 \<le> S / s" "S / s \<le> 1 / l ^ 2" using s S s0 lh by (simp_all add: divide_simps mult.commute)
  then have "l * (1 / h ^ 2) \<le> l * (S / s)" "h * (S / s) \<le> h * (1 / l ^ 2)" using lh by (intro mult_left_mono; simp)+
  moreover have "1 - 1 / 2 ^ 51 \<le> l * (1 / h ^ 2)" "h * (1 / l ^ 2) \<le> 1 + 1 / 2 ^ 51"
    by (simp_all add: l_def h_def power2_eq_square)
  ultimately have "1 - 1 / 2 ^ 51 \<le> l * (S / s)" "h * (S / s) \<le> 1 + 1 / 2 ^ 51" by (blast intro: order_trans)+
  then have "?n * (1 - 1 / 2 ^ 51) \<le> ?n * (l * (S / s))" "?n * (h * (S / s)) \<le> ?n * (1 + 1 / 2 ^ 51)"
    by (intro mult_left_mono; simp)+
  with T' have "?n * (1 - 1 / 2 ^ 51) \<le> ?T * S" "?T * S \<le> ?n * (1 + 1 / 2 ^ 51)"
    by (blast intro: order_trans)+
  moreover have "?n * (1 - 1 / 2 ^ 51) = ?n - ?n / 2 ^ 51" "?n * (1 + 1 / 2 ^ 51) = ?n + ?n / 2 ^ 51"
    by (simp_all only: right_diff_distrib distrib_left) simp_all
  ultimately show "\<bar>?T * (of_int d / 10 ^ 9) - ?n\<bar> \<le> ?n / 2 ^ 51"
    unfolding S_def [symmetric] abs_diff_le_iff by simp
qed

subsection \<open>Properties\<close>

text \<open>\<^bold>\<open>C26.\<close> The 95th percentile of a report: \<open>Report\<close> never indexes out of range, the reported value is one
  of the recorded latencies, and at least 95 in 100 of them are not above it, although the index is
  computed in floating point (for fewer than \<open>2 ^ 48\<close> latencies).\<close>

theorem report_p95:
  assumes "sortSlice_spec id srt" "mc_latencies c \<noteq> []" "length (mc_latencies c) < 2 ^ 48"
  shows "\<exists>r. Collector_Report srt now c = Inr r \<and> rp_P95Latency r \<in> set (mc_latencies c) \<and>
    19 * length (mc_latencies c) \<le> 20 * length (filter (\<lambda>l. l \<le> rp_P95Latency r) (mc_latencies c))"
proof -
  let ?ls = "mc_latencies c" and ?s = "srt (mc_latencies c)"
  have ms: "mset ?s = mset ?ls" and srt: "sorted ?s" using assms(1) by (simp_all add: sortSlice_spec_def)
  have len: "length ?s = length ?ls" using ms by (rule mset_eq_length)
  let ?i = "nat (p95_index (length ?ls))"
  have "0 \<le> p95_index (length ?ls)" "p95_index (length ?ls) < int (length ?ls)"
    "19 * int (length ?ls) \<le> 20 * (p95_index (length ?ls) + 1)"
    using p95_index_enough assms(2,3) by auto
  moreover from this(1) obtain j where "p95_index (length ?ls) = int j" using zero_le_imp_eq_int by blast
  ultimately have i: "?i < length ?ls" "19 * length ?ls \<le> 20 * (?i + 1)" by simp_all
  have "?i + 1 \<le> length (filter (\<lambda>l. l \<le> ?s ! ?i) ?ls)"
    using count_below_index [OF srt] i(1) len length_filter_mset [OF ms] by metis
  moreover have "?s ! ?i \<in> set ?ls" using i(1) len ms by (metis nth_mem set_mset_mset)
  moreover obtain r where r: "Collector_Report srt now c = Inr r" using report_ok [OF assms(1,3)] by blast
  then have "rp_P95Latency r = ?s ! ?i" using report_fields(2) [OF r] assms(2) len by simp
  ultimately show ?thesis using i(2) r by auto
qed

theorem report_p95_witness:
  "\<exists>r. Collector_Report sort 7 (RecordAbort 9 (RecordCommit 4 (NewCollector 0))) = Inr r \<and> rp_P95Latency r = 9"
  using report_p95 [of sort "RecordAbort 9 (RecordCommit 4 (NewCollector 0))" 7] sortSlice_sort_key [of "id :: int \<Rightarrow> int"]
  by (auto simp: RecordAbort_def RecordCommit_def NewCollector_def id_def split: if_splits)

text \<open>\<^bold>\<open>C36.\<close> The average latency of a report lies between the smallest and the largest recorded latency,
  when the latencies are not negative and their sum fits in 64 bits.\<close>

theorem report_average:
  assumes "mc_latencies c \<noteq> []" "\<forall>l \<in> set (mc_latencies c). 0 \<le> l \<and> lo \<le> l \<and> l \<le> hi"
    and "sum_list (mc_latencies c) < 2 ^ 63" "Collector_Report srt now c = Inr r"
  shows "lo \<le> rp_AvgLatency r \<and> rp_AvgLatency r \<le> hi"
proof -
  let ?ls = "mc_latencies c"
  have pos: "0 \<le> sum_list ?ls" using assms(2) by (intro sum_list_nonneg) auto
  have n: "0 < int (length ?ls)" using assms(1) by simp
  have le: "sum_list ?ls div int (length ?ls) \<le> sum_list ?ls" using zdiv_mono2 [OF pos, of 1 "int (length ?ls)"] n by simp
  have eq: "sgn (sum_list ?ls) * sgn (int (length ?ls)) * (\<bar>sum_list ?ls\<bar> div \<bar>int (length ?ls)\<bar>) = sum_list ?ls div int (length ?ls)"
    using pos n by (cases "sum_list ?ls = 0") simp_all
  have "0 \<le> sum_list ?ls div int (length ?ls)" using pos n by (simp add: pos_imp_zdiv_nonneg_iff)
  then have "go_div (sum_list ?ls) (int (length ?ls)) = sum_list ?ls div int (length ?ls)"
    unfolding go_div_def eq using le assms(3) by (intro wrap64_id) auto
  moreover have "rp_AvgLatency r = go_div (go_sum ?ls) (int (length ?ls))"
    using report_fields(1) [OF assms(4)] assms(1) by simp
  ultimately show ?thesis unfolding go_sum_def using sum_no_wrap [of ?ls 0] assms(1-3) avg_bounds [of ?ls lo hi] by auto
qed

theorem report_average_witness:
  "\<exists>r. Collector_Report sort 7 (RecordAbort 9 (RecordCommit 4 (NewCollector 0))) = Inr r \<and> 4 \<le> rp_AvgLatency r \<and> rp_AvgLatency r \<le> 9"
proof -
  let ?c = "RecordAbort 9 (RecordCommit 4 (NewCollector 0))"
  have ls: "mc_latencies ?c = [4, 9]" by (simp add: RecordAbort_def RecordCommit_def NewCollector_def)
  then obtain r where "Collector_Report sort 7 ?c = Inr r"
    using report_ok [of sort ?c 7] sortSlice_sort_key [of "id :: int \<Rightarrow> int"] by (auto simp: id_def)
  with report_average [of ?c 4 9 sort 7 r] ls show ?thesis by auto
qed

text \<open>\<^bold>\<open>C35.\<close> The rates of a report, for fewer than \<open>2 ^ 53\<close> transactions: the abort rate lies between 0 and 1
  and differs from the exact quotient by at most \<open>2 ^ -53\<close>; the throughput times the elapsed seconds is
  the number of committed transactions up to one part in \<open>2 ^ 51\<close>. Counters, conversion, division and
  \<open>Seconds\<close> are the \<open>float64\<close> operations of the code.\<close>

theorem report_rates:
  assumes "Collector_Report srt now c = Inr r" "unat (mc_totalCommitted c) + unat (mc_totalAborted c) < 2 ^ 53"
    and "0 < unat (mc_totalCommitted c) + unat (mc_totalAborted c)" "mc_startTime c < now"
  shows "0 \<le> rp_AbortRate r \<and> rp_AbortRate r \<le> 1 \<and>
    \<bar>rp_AbortRate r - of_nat (unat (mc_totalAborted c)) / of_nat (unat (mc_totalCommitted c) + unat (mc_totalAborted c))\<bar> \<le> 1 / 2 ^ 53 \<and>
    \<bar>rp_Throughput r * (of_int (rp_ElapsedTime r) / 10 ^ 9) - of_nat (unat (mc_totalCommitted c))\<bar> \<le> of_nat (unat (mc_totalCommitted c)) / 2 ^ 51"
proof (intro conjI)
  define C A where "C = unat (mc_totalCommitted c)" and "A = unat (mc_totalAborted c)"
  note fold = C_def [symmetric] A_def [symmetric]
  have CA: "C + A < 2 ^ 53" "0 < C + A" using assms(2,3) by (simp_all only: fold)
  have tot: "unat (mc_totalCommitted c + mc_totalAborted c) = C + A"
    unfolding C_def A_def using assms(2) by (intro unat_add_lem [THEN iffD1]) simp
  then have "0 < mc_totalCommitted c + mc_totalAborted c" using CA(2) by (simp add: word_less_nat_alt)
  then have "rp_AbortRate r = fdiv (go_float64 (int A)) (go_float64 (int (C + A)))"
    using report_fields(3) [OF assms(1)] by (simp only: if_True uint_nat tot fold)
  then show "0 \<le> rp_AbortRate r" "rp_AbortRate r \<le> 1"
    "\<bar>rp_AbortRate r - of_nat (unat (mc_totalAborted c)) / of_nat (unat (mc_totalCommitted c) + unat (mc_totalAborted c))\<bar> \<le> 1 / 2 ^ 53"
    unfolding fold using fdiv_bounds [of "int A" "int (C + A)"] CA by simp_all
  have d: "0 < rp_ElapsedTime r" "rp_ElapsedTime r < 2 ^ 63"
    using report_fields(9) [OF assms(1)] assms(4) by (auto simp: time_Sub_def)
  then have "rp_Throughput r = fdiv (go_float64 (int C)) (duration_Seconds (rp_ElapsedTime r))"
    using report_fields(4) [OF assms(1)] by (simp only: if_True uint_nat fold)
  then show "\<bar>rp_Throughput r * (of_int (rp_ElapsedTime r) / 10 ^ 9) - of_nat (unat (mc_totalCommitted c))\<bar>
      \<le> of_nat (unat (mc_totalCommitted c)) / 2 ^ 51"
    unfolding fold using throughput_rel [OF d, of C] CA(1) by simp
qed

theorem report_rates_witness:
  "\<exists>r. Collector_Report sort 7 (RecordAbort 9 (RecordCommit 4 (NewCollector 0))) = Inr r \<and>
     0 \<le> rp_AbortRate r \<and> rp_AbortRate r \<le> 1 \<and> \<bar>rp_AbortRate r - 1 / 2\<bar> \<le> 1 / 2 ^ 53"
proof -
  let ?c = "RecordAbort 9 (RecordCommit 4 (NewCollector 0))"
  have c: "mc_totalCommitted ?c = 1" "mc_totalAborted ?c = 1" "mc_startTime ?c = 0" "mc_latencies ?c = [4, 9]"
    by (simp_all add: RecordAbort_def RecordCommit_def NewCollector_def)
  obtain r where r: "Collector_Report sort 7 ?c = Inr r"
    using report_ok [of sort ?c 7] sortSlice_sort_key [of "id :: int \<Rightarrow> int"] c by (auto simp: id_def)
  with report_rates [OF r] c show ?thesis by auto
qed

end
