(* ===== verification/Benchmark.thy ===== *)
theory Benchmark
  imports Remote Metrics
begin

text \<open>
  The benchmark, \<open>src/pkg/benchmark/workload.go\<close> and \<open>driver.go\<close>, and the command \<open>src/cmd/benchmark/main.go\<close>
  that runs it (\<open>bench_main\<close>, \<open>bench_banner\<close>).

  \<^item> \<open>WorkloadConfig\<close> and the three predefined workloads. The two \<open>float64\<close> fields are rational
    numbers (theory \<open>Floats\<close>); the constant \<open>0.1\<close> is \<open>7205759403792794 / 2 ^ 56\<close> and \<open>0.9\<close> is
    \<open>8106479329266893 / 2 ^ 53\<close>.
  \<^item> \<open>'r Rng\<close> holds what the code calls of \<open>math/rand\<close> on a generator state \<open>'r\<close>; \<open>rng_ok\<close> is what the
    package documents: \<open>Intn\<close> stays in its range and \<open>Shuffle\<close> permutes.
  \<^item> \<open>pick_loop\<close> is the loop of \<open>pickKeys\<close>, which need not end: \<open>None\<close> is the value of a loop that runs
    forever. A panic is \<open>Inl\<close>. Memory is not bounded in the model: \<open>make\<close> also panics for a count whose
    slice exceeds the address space, far above any key count that could be loaded.
  \<^item> \<open>client_step\<close> is the body of the loop in \<open>runClient\<close> as an automaton over the events of \<open>System\<close>, as
    in \<open>Bank\<close>; \<open>bench_step\<close> runs the clients interleaved and feeds the collector. The clock readings are
    arbitrary. \<open>BPanic\<close> is a client that has panicked, \<open>BSpin\<close> one whose \<open>pickKeys\<close> runs forever.
\<close>

subsection \<open>Workloads\<close>

record WorkloadConfig =
  wc_NumClients :: int
  wc_NumKeys :: int
  wc_ReadsPerTxn :: int
  wc_WritesPerTxn :: int
  wc_TotalTxnsPerClient :: int
  wc_ContentionMode :: string
  wc_HotKeyFraction :: float64
  wc_HotKeyAccessProb :: float64
  wc_EpochDurationMs :: int
  wc_RetryOnAbort :: bool

definition DefaultConfig :: WorkloadConfig where
  "DefaultConfig =
     \<lparr>wc_NumClients = 4, wc_NumKeys = 1000, wc_ReadsPerTxn = 3, wc_WritesPerTxn = 2, wc_TotalTxnsPerClient = 1000,
      wc_ContentionMode = ''uniform'', wc_HotKeyFraction = 7205759403792794 / 2 ^ 56,
      wc_HotKeyAccessProb = 8106479329266893 / 2 ^ 53, wc_EpochDurationMs = 0, wc_RetryOnAbort = True\<rparr>"

definition LowContentionReadHeavy :: WorkloadConfig where
  "LowContentionReadHeavy =
     DefaultConfig\<lparr>wc_NumKeys := 1000, wc_ReadsPerTxn := 8, wc_WritesPerTxn := 2, wc_ContentionMode := ''uniform''\<rparr>"

definition HighContentionWriteHeavy :: WorkloadConfig where
  "HighContentionWriteHeavy =
     DefaultConfig\<lparr>wc_NumKeys := 100, wc_ReadsPerTxn := 5, wc_WritesPerTxn := 5, wc_ContentionMode := ''hotspot'',
                   wc_HotKeyFraction := 7205759403792794 / 2 ^ 56, wc_HotKeyAccessProb := 8106479329266893 / 2 ^ 53\<rparr>"

subsection \<open>Picking keys\<close>

record 'r Rng =
  rng_Intn :: "'r \<Rightarrow> int \<Rightarrow> int \<times> 'r"
  rng_Float64 :: "'r \<Rightarrow> float64 \<times> 'r"
  rng_Shuffle :: "'r \<Rightarrow> string list \<Rightarrow> string list \<times> 'r"

definition rng_ok :: "'r Rng \<Rightarrow> bool" where
  "rng_ok rng \<longleftrightarrow>
     (\<forall>r n. 0 < n \<longrightarrow> 0 \<le> fst (rng_Intn rng r n) \<and> fst (rng_Intn rng r n) < n) \<and>
     (\<forall>r xs. mset (fst (rng_Shuffle rng r xs)) = mset xs)"

definition bkey :: "int \<Rightarrow> string" where
  "bkey i = ''key-'' @ Itoa i"

text \<open>\<open>Intn\<close> panics when its argument is not positive.\<close>

definition Intn :: "'r Rng \<Rightarrow> 'r \<Rightarrow> int \<Rightarrow> string + int \<times> 'r" where
  "Intn rng r n = (if n \<le> 0 then Inl ''invalid argument to Intn'' else Inr (rng_Intn rng r n))"

definition hot_keys :: "WorkloadConfig \<Rightarrow> int" where
  "hot_keys config =
     (let hotKeys = go_int (fmul (go_float64 (wc_NumKeys config)) (wc_HotKeyFraction config))
      in if hotKeys < 1 then 1 else hotKeys)"

definition pick_idx :: "WorkloadConfig \<Rightarrow> 'r Rng \<Rightarrow> 'r \<Rightarrow> string + int \<times> 'r" where
  "pick_idx config rng r =
     (if wc_ContentionMode config = ''hotspot''
      then let hotKeys = hot_keys config;
               (p, r') = rng_Float64 rng r
           in if p < wc_HotKeyAccessProb config then Intn rng r' hotKeys else Intn rng r' (wc_NumKeys config)
      else Intn rng r (wc_NumKeys config))"

partial_function (option) pick_loop ::
    "WorkloadConfig \<Rightarrow> 'r Rng \<Rightarrow> int \<Rightarrow> (string, bool) gomap \<Rightarrow> string list \<Rightarrow> 'r \<Rightarrow> (string + string list \<times> 'r) option" where
  "pick_loop config rng cnt seen keys r =
     (if int (length keys) < cnt
      then (case pick_idx config rng r of
              Inl p \<Rightarrow> Some (Inl p)
            | Inr (idx, r') \<Rightarrow>
                if map_of seen (bkey idx) \<noteq> Some True
                then pick_loop config rng cnt (AList.update (bkey idx) True seen) (keys @ [bkey idx]) r'
                else pick_loop config rng cnt seen keys r')
      else Some (Inr (keys, r)))"

definition pickKeys :: "WorkloadConfig \<Rightarrow> 'r Rng \<Rightarrow> 'r \<Rightarrow> int \<Rightarrow> (string + string list \<times> 'r) option" where
  "pickKeys config rng r cnt =
     (if cnt < 0 then Some (Inl ''makeslice: cap out of range'') else pick_loop config rng cnt [] [] r)"

definition pickFromSlice :: "'r Rng \<Rightarrow> 'r \<Rightarrow> string list \<Rightarrow> int \<Rightarrow> string + string list \<times> 'r" where
  "pickFromSlice rng r keys cnt =
     (if cnt \<ge> int (length keys) then Inr (keys, r)
      else let (shuffled, r') = rng_Shuffle rng r keys
           in if cnt < 0 then Inl ''slice bounds out of range'' else Inr (take (nat cnt) shuffled, r'))"


subsection \<open>The clients\<close>

datatype 'r cphase =
    BIdle 'r
  | BRead 'r "string list" "string list" "(string, string) gomap"
  | BWrite 'r "string list" "(string, string) gomap"
  | BWait 'r
  | BPanic string
  | BSpin

definition lookup_value :: "(string, string) gomap \<Rightarrow> string \<Rightarrow> string" where
  "lookup_value values k = (case map_of values k of None \<Rightarrow> '''' | Some v \<Rightarrow> v)"

definition bump :: "string \<Rightarrow> string" where
  "bump oldVal = Itoa (wrap64 (fst (Atoi oldVal) + 1))"

text \<open>The next point of the loop while keys are left to read, and after the last read.\<close>

definition read_next ::
    "WorkloadConfig \<Rightarrow> 'r Rng \<Rightarrow> 'r \<Rightarrow> string list \<Rightarrow> string list \<Rightarrow> (string, string) gomap \<Rightarrow> 'r cphase" where
  "read_next config rng r readKeys todo values =
     (if todo \<noteq> [] then BRead r readKeys todo values
      else case pickFromSlice rng r readKeys (wc_WritesPerTxn config) of
             Inl p \<Rightarrow> BPanic p
           | Inr (writeKeys, r') \<Rightarrow> BWrite r' writeKeys values)"

inductive client_step ::
    "WorkloadConfig \<Rightarrow> 'r Rng \<Rightarrow> nat \<Rightarrow> 'r cphase \<Rightarrow> event \<Rightarrow> 'r cphase \<Rightarrow> bool" for config rng i where
  c_begin: "pickKeys config rng r (wc_ReadsPerTxn config) = Some (Inr (readKeys, r')) \<Longrightarrow>
    client_step config rng i (BIdle r) (EvBegin i) (read_next config rng r' readKeys readKeys [])"
| c_begin_panic: "pickKeys config rng r (wc_ReadsPerTxn config) = Some (Inl p) \<Longrightarrow>
    client_step config rng i (BIdle r) (EvBegin i) (BPanic p)"
| c_begin_spin: "pickKeys config rng r (wc_ReadsPerTxn config) = None \<Longrightarrow>
    client_step config rng i (BIdle r) (EvBegin i) BSpin"
| c_read: "client_step config rng i (BRead r readKeys (key # todo) values) (EvRead i key val)
    (read_next config rng r readKeys todo (AList.update key val values))"
| c_write: "client_step config rng i (BWrite r (key # todo) values) (EvWrite i key (bump (lookup_value values key)))
    (BWrite r todo values)"
| c_commit: "client_step config rng i (BWrite r [] values) (EvSubmit i) (BWait r)"
| c_result: "client_step config rng i (BWait r) (EvCertify i committed) (BIdle r)"

record ('w, 'r) bench =
  bn_sys :: "'w sys"
  bn_phase :: "nat \<Rightarrow> 'r cphase"
  bn_completed :: "nat \<Rightarrow> int"
  bn_collector :: Collector

definition bench_record :: "WorkloadConfig \<Rightarrow> nat \<Rightarrow> event \<Rightarrow> int \<Rightarrow> ('w, 'r) bench \<Rightarrow> ('w, 'r) bench" where
  "bench_record config i ev latency b =
     (if ev = EvCertify i True
      then b\<lparr>bn_collector := RecordCommit latency (bn_collector b),
             bn_completed := (bn_completed b)(i := bn_completed b i + 1)\<rparr>
      else if ev = EvCertify i False
      then b\<lparr>bn_collector := RecordConflict (RecordAbort latency (bn_collector b)),
             bn_completed := (if wc_RetryOnAbort config then bn_completed b
                              else (bn_completed b)(i := bn_completed b i + 1))\<rparr>
      else b)"

inductive bench_step :: "'w World \<Rightarrow> WorkloadConfig \<Rightarrow> 'r Rng \<Rightarrow> ('w, 'r) bench \<Rightarrow> ('w, 'r) bench \<Rightarrow> bool"
  for W config rng where
  bench_client: "int i < wc_NumClients config \<Longrightarrow> bn_completed b i < wc_TotalTxnsPerClient config \<Longrightarrow>
    sys_step W (bn_sys b) ev \<sigma> \<Longrightarrow> client_step config rng i (bn_phase b i) ev ph \<Longrightarrow>
    bench_step W config rng b
      (bench_record config i ev latency (b\<lparr>bn_sys := \<sigma>, bn_phase := (bn_phase b)(i := ph)\<rparr>))"
| bench_internal: "sys_step W (bn_sys b) EvInternal \<sigma> \<Longrightarrow> bench_step W config rng b (b\<lparr>bn_sys := \<sigma>\<rparr>)"

inductive bench_reach :: "'w World \<Rightarrow> WorkloadConfig \<Rightarrow> 'r Rng \<Rightarrow> ('w, 'r) bench \<Rightarrow> ('w, 'r) bench \<Rightarrow> bool"
  for W config rng where
  bench_refl: "bench_reach W config rng b b"
| bench_more: "bench_reach W config rng b b' \<Longrightarrow> bench_step W config rng b' b'' \<Longrightarrow> bench_reach W config rng b b''"

text \<open>The start of \<open>RunWith\<close>: the keys with value \<open>0\<close>, an engine, a collector and a generator per client.\<close>

definition bench_data :: "WorkloadConfig \<Rightarrow> (string, string) gomap" where
  "bench_data config = fold (\<lambda>i. AList.update (bkey i) ''0'') [0..wc_NumKeys config - 1] []"

definition bench_init :: "'w \<Rightarrow> (nat \<Rightarrow> 'r) \<Rightarrow> int \<Rightarrow> ('w, 'r) bench" where
  "bench_init w seeds now =
     \<lparr>bn_sys = sys_init w, bn_phase = (\<lambda>i. BIdle (seeds i)), bn_completed = (\<lambda>_. 0), bn_collector = NewCollector now\<rparr>"


text \<open>The store that \<open>RunWith\<close> creates when none is injected.\<close>

abbreviation bench_store :: "WorkloadConfig \<Rightarrow> MemStore" where
  "bench_store config \<equiv> MemStore_LoadInitialData NewMemStore (bench_data config)"

text \<open>A run ends when every client has left its loop, and then returns the collector's report.\<close>

definition bench_finished :: "WorkloadConfig \<Rightarrow> ('w, 'r) bench \<Rightarrow> bool" where
  "bench_finished config b \<longleftrightarrow>
     (\<forall>i < nat (wc_NumClients config). wc_TotalTxnsPerClient config \<le> bn_completed b i \<and>
        (case bn_phase b i of BIdle r \<Rightarrow> True | _ \<Rightarrow> False))"

inductive run_clients ::
    "'w World \<Rightarrow> WorkloadConfig \<Rightarrow> 'r Rng \<Rightarrow> (int list \<Rightarrow> int list) \<Rightarrow> 'w \<Rightarrow> 'w \<Rightarrow> string + Report \<Rightarrow> bool"
  for W config rng lsort w where
  run_clients: "bench_reach W config rng (bench_init w seeds t0) b \<Longrightarrow> bench_finished config b \<Longrightarrow>
    run_clients W config rng lsort w (sys_world (bn_sys b)) (Collector_Report lsort now (bn_collector b))"

text \<open>\<open>RunWith\<close> with neither a store nor a certifier injected (that is, \<open>Run\<close>): the in-memory store with all
  keys, and the certifier the configuration asks for. The result is the report and the final store.\<close>

inductive Run ::
    "(pendingTxn list \<Rightarrow> pendingTxn list) \<Rightarrow> (int list \<Rightarrow> int list) \<Rightarrow> 'r Rng \<Rightarrow> WorkloadConfig \<Rightarrow> MemStore \<Rightarrow> string + Report \<Rightarrow> bool"
  for srt lsort rng config where
  run_epoch: "wc_EpochDurationMs config > 0 \<Longrightarrow>
    NewEpochCertifier MemStore_ops (bench_store config) (wrap64 (wc_EpochDurationMs config * 10 ^ 6)) = (c, s) \<Longrightarrow>
    EpochCertifier_Start c = Inr c' \<Longrightarrow>
    run_clients (epoch_world MemStore_ops srt) config rng lsort (c', s, None) (c'', s'', None) rep \<Longrightarrow>
    EpochCertifier_Stop c'' = Inr c3 \<Longrightarrow>
    Run srt lsort rng config s'' rep"
| run_immediate: "\<not> wc_EpochDurationMs config > 0 \<Longrightarrow>
    NewImmediateCertifier MemStore_ops (bench_store config) = (c, s) \<Longrightarrow>
    run_clients (imm_world MemStore_ops) config rng lsort (c, s) (c', s') rep \<Longrightarrow>
    Run srt lsort rng config s' rep"


text \<open>The command: what \<open>main\<close> does with its flags, up to the printing. The outcome carries the store that the
  run leaves, which the command does not print.\<close>

inductive bench_main ::
    "(pendingTxn list \<Rightarrow> pendingTxn list) \<Rightarrow> (int list \<Rightarrow> int list) \<Rightarrow> 'r Rng \<Rightarrow> (string \<Rightarrow> string + MemStore invoke) \<Rightarrow>
     (string \<Rightarrow> string + ccaas) \<Rightarrow> client_flags \<Rightarrow> WorkloadConfig \<Rightarrow>
     MemStore \<Rightarrow> (MemStore \<times> (string + Report)) boot \<Rightarrow> bool"
  for srt lsort rng dialS dialC flags config s where
  bench_fatal: "fl_mode flags = ''remote'' \<Longrightarrow> dial_both dialS dialC flags = Fatal msg \<Longrightarrow>
    bench_main srt lsort rng dialS dialC flags config s (Fatal msg)"
| bench_remote: "fl_mode flags = ''remote'' \<Longrightarrow> dial_both dialS dialC flags = Up (sconn, Immediate_server cconn c) \<Longrightarrow>
    run_clients (remote_world sconn cconn) config rng lsort
      (GRPCCertifierClient_SyncFromStorage cconn (remote_load sconn (c, s) (bench_data config))) w rep \<Longrightarrow>
    bench_main srt lsort rng dialS dialC flags config s (Up (snd w, rep))"
| bench_remote_epoch: "fl_mode flags = ''remote'' \<Longrightarrow> dial_both dialS dialC flags = Up (sconn, Epoch_server e) \<Longrightarrow>
    run_clients (remote_epoch_world sconn srt) config rng lsort
      (epoch_resync (GRPCStoreClient_ops sconn) (epoch_load sconn (e, s, None) (bench_data config))) w rep \<Longrightarrow>
    bench_main srt lsort rng dialS dialC flags config s (Up (fst (snd w), rep))"
| bench_local: "fl_mode flags \<noteq> ''remote'' \<Longrightarrow> Run srt lsort rng config s' rep \<Longrightarrow>
    bench_main srt lsort rng dialS dialC flags config s (Up (s', rep))"

text \<open>The lines it prints before the run.\<close>

definition fmt_bool :: "bool \<Rightarrow> string" where
  "fmt_bool b = (if b then ''true'' else ''false'')"

definition bench_banner :: "client_flags \<Rightarrow> WorkloadConfig \<Rightarrow> string list" where
  "bench_banner flags config =
     (let certMode = (if wc_EpochDurationMs config > 0 then ''epoch ('' @ Itoa (wc_EpochDurationMs config) @ ''ms)'' else ''immediate'')
      in [''CCaaS Benchmark'',
          ''==============='',
          ''Mode:            '' @ fl_mode flags @ '' ('' @ certMode @ '')'',
          ''Clients:         '' @ Itoa (wc_NumClients config),
          ''Keys:            '' @ Itoa (wc_NumKeys config),
          ''Reads/Txn:       '' @ Itoa (wc_ReadsPerTxn config),
          ''Writes/Txn:      '' @ Itoa (wc_WritesPerTxn config),
          ''Txns/Client:     '' @ Itoa (wc_TotalTxnsPerClient config),
          ''Contention:      '' @ wc_ContentionMode config,
          ''Retry on abort:  '' @ fmt_bool (wc_RetryOnAbort config)] @
         (if fl_mode flags = ''remote''
          then [''Storage:         '' @ fl_storageAddr flags, ''CCaaS:           '' @ fl_ccaasAddr flags]
          else []) @
         [[], ''Running...''])"

subsection \<open>Facts about picking\<close>

definition config_ok :: "WorkloadConfig \<Rightarrow> bool" where
  "config_ok config \<longleftrightarrow> 0 < wc_NumKeys config \<and> wc_NumKeys config < 2 ^ 53 \<and>
     0 \<le> wc_HotKeyFraction config \<and> wc_HotKeyFraction config \<le> 1"

abbreviation all_keys :: "WorkloadConfig \<Rightarrow> string set" where
  "all_keys config \<equiv> bkey ` {0..<wc_NumKeys config}"

lemma bkey_inj: "inj_on bkey {0..}"
  by (auto simp: inj_on_def bkey_def Itoa_def dest: decimal_inj)

lemma card_all_keys: "card (all_keys config) = nat (wc_NumKeys config)"
  by (subst card_image) (auto intro: inj_on_subset [OF bkey_inj])

lemma hot_keys_range:
  assumes "config_ok config"
  shows "0 < hot_keys config" "hot_keys config \<le> wc_NumKeys config"
proof -
  let ?x = "fmul (go_float64 (wc_NumKeys config)) (wc_HotKeyFraction config)"
  have "0 \<le> ?x" "?x \<le> of_int (wc_NumKeys config)" using fmul_le assms by (auto simp: config_ok_def)
  then have "go_int ?x \<le> wc_NumKeys config" by (simp add: go_int_def) linarith
  then show "hot_keys config \<le> wc_NumKeys config" "0 < hot_keys config"
    using assms by (auto simp: hot_keys_def Let_def config_ok_def)
qed

lemma pick_idx_range:
  assumes "rng_ok rng" "config_ok config"
  shows "\<exists>idx r'. pick_idx config rng r = Inr (idx, r') \<and> idx \<in> {0..<wc_NumKeys config}"
proof -
  have Intn: "\<exists>idx r'. Intn rng s n = Inr (idx, r') \<and> idx \<in> {0..<wc_NumKeys config}"
    if "0 < n" "n \<le> wc_NumKeys config" for s n
  proof -
    have "0 \<le> fst (rng_Intn rng s n) \<and> fst (rng_Intn rng s n) < n" using that(1) assms(1) by (simp add: rng_ok_def)
    with that show ?thesis by (cases "rng_Intn rng s n") (simp add: Intn_def)
  qed
  show ?thesis
    using Intn [of "hot_keys config"] Intn [of "wc_NumKeys config"] hot_keys_range [OF assms(2)] assms(2)
    by (auto simp: pick_idx_def Let_def config_ok_def split: prod.splits)
qed

definition picking :: "WorkloadConfig \<Rightarrow> (string, bool) gomap \<Rightarrow> string list \<Rightarrow> bool" where
  "picking config seen keys \<longleftrightarrow> distinct keys \<and> set keys \<subseteq> all_keys config \<and>
     (\<forall>k. map_of seen k = Some True \<longleftrightarrow> k \<in> set keys)"

lemma picking_add:
  "picking config seen keys \<Longrightarrow> idx \<in> {0..<wc_NumKeys config} \<Longrightarrow> map_of seen (bkey idx) \<noteq> Some True \<Longrightarrow>
   picking config (AList.update (bkey idx) True seen) (keys @ [bkey idx])"
  by (auto simp: picking_def)

lemma picking_length: "picking config seen keys \<Longrightarrow> length keys \<le> nat (wc_NumKeys config)"
  using card_mono [of "all_keys config" "set keys"] by (simp add: picking_def distinct_card card_all_keys)

text \<open>One turn of the loop.\<close>

lemma pick_loop_turn:
  assumes "rng_ok rng" "config_ok config" "int (length keys) < cnt"
  obtains idx r' where "pick_idx config rng r = Inr (idx, r')" "idx \<in> {0..<wc_NumKeys config}"
    "pick_loop config rng cnt seen keys r =
       (if map_of seen (bkey idx) \<noteq> Some True
        then pick_loop config rng cnt (AList.update (bkey idx) True seen) (keys @ [bkey idx]) r'
        else pick_loop config rng cnt seen keys r')"
  using pick_idx_range [OF assms(1,2), of r] assms(3) by (auto simp: pick_loop.simps [of config rng cnt seen keys r])

text \<open>If the loop ends, it ends with \<open>cnt\<close> different keys of the key space.\<close>

lemma pick_loop_result:
  assumes "pick_loop config rng cnt seen keys r = Some res"
    and "rng_ok rng" "config_ok config" "picking config seen keys" "int (length keys) \<le> cnt"
  shows "\<exists>keys' r'. res = Inr (keys', r') \<and> distinct keys' \<and> set keys' \<subseteq> all_keys config \<and> int (length keys') = cnt"
  using assms
proof (induction rule: pick_loop.raw_induct [rotated, consumes 1])
  case (1 pl config rng cnt seen keys r res)
  show ?case
  proof (cases "int (length keys) < cnt")
    case False
    with "1"(2-) show ?thesis by (auto simp: picking_def)
  next
    case True
    obtain idx r' where idx: "pick_idx config rng r = Inr (idx, r')" "idx \<in> {0..<wc_NumKeys config}"
      using pick_idx_range [OF "1"(3,4), of r] by blast
    show ?thesis
    proof (cases "map_of seen (bkey idx) = Some True")
      case True
      with "1"(2) idx \<open>int (length keys) < cnt\<close> have "pl config rng cnt seen keys r' = Some res" by simp
      then show ?thesis by (rule "1"(1)) (use "1"(3-) in auto)
    next
      case False
      with "1"(2) idx \<open>int (length keys) < cnt\<close>
      have "pl config rng cnt (AList.update (bkey idx) True seen) (keys @ [bkey idx]) r' = Some res" by simp
      then show ?thesis
        by (rule "1"(1)) (use "1"(3-) True picking_add [OF "1"(5) idx(2) False] in auto)
    qed
  qed
qed


text \<open>A generator is fair when every index keeps being drawn.\<close>

definition next_rng :: "WorkloadConfig \<Rightarrow> 'r Rng \<Rightarrow> 'r \<Rightarrow> 'r" where
  "next_rng config rng r = (case pick_idx config rng r of Inr (idx, r') \<Rightarrow> r' | Inl _ \<Rightarrow> r)"

definition fair :: "WorkloadConfig \<Rightarrow> 'r Rng \<Rightarrow> 'r \<Rightarrow> bool" where
  "fair config rng r \<longleftrightarrow> (\<forall>i \<in> {0..<wc_NumKeys config}. \<forall>n. \<exists>m \<ge> n. \<exists>r'.
     pick_idx config rng ((next_rng config rng ^^ m) r) = Inr (i, r'))"

lemma fair_next:
  assumes "fair config rng r"
  shows "fair config rng (next_rng config rng r)"
  unfolding fair_def
proof (intro ballI allI)
  fix i n
  assume "i \<in> {0..<wc_NumKeys config}"
  then obtain m r' where m: "Suc n \<le> m" "pick_idx config rng ((next_rng config rng ^^ m) r) = Inr (i, r')"
    using assms unfolding fair_def by blast
  obtain m' where m': "m = Suc m'" using m(1) by (cases m) auto
  then have "pick_idx config rng ((next_rng config rng ^^ m') (next_rng config rng r)) = Inr (i, r')"
    using m(2) by (simp add: funpow_Suc_right del: funpow.simps)
  with m(1) m' show "\<exists>m\<ge>n. \<exists>r'. pick_idx config rng ((next_rng config rng ^^ m) (next_rng config rng r)) = Inr (i, r')"
    by auto
qed

lemma pick_loop_progress:
  assumes "rng_ok rng" "config_ok config" "int (length keys) < cnt" "picking config seen keys"
    and longer: "\<And>seen' keys' r'. length keys' = Suc (length keys) \<Longrightarrow> fair config rng r' \<Longrightarrow> picking config seen' keys' \<Longrightarrow>
      \<exists>res. pick_loop config rng cnt seen' keys' r' = Some res"
    and i: "bkey i \<notin> set keys" "pick_idx config rng ((next_rng config rng ^^ m) r) = Inr (i, ri)" and "fair config rng r"
  shows "\<exists>res. pick_loop config rng cnt seen keys r = Some res"
  using i(2) assms(8)
proof (induction m arbitrary: r)
  case (0 r)
  obtain idx r' where turn: "pick_idx config rng r = Inr (idx, r')" "idx \<in> {0..<wc_NumKeys config}"
    "pick_loop config rng cnt seen keys r =
      (if map_of seen (bkey idx) \<noteq> Some True
       then pick_loop config rng cnt (AList.update (bkey idx) True seen) (keys @ [bkey idx]) r'
       else pick_loop config rng cnt seen keys r')"
    by (rule pick_loop_turn [OF assms(1-3)])
  then have "idx = i" "fair config rng r'" using 0 fair_next [OF 0(2)] by (simp_all add: next_rng_def)
  moreover have "map_of seen (bkey i) \<noteq> Some True" using i(1) assms(4) by (simp add: picking_def)
  ultimately show ?case using turn longer picking_add [OF assms(4) turn(2)] by simp
next
  case (Suc m r)
  obtain idx r' where turn: "pick_idx config rng r = Inr (idx, r')" "idx \<in> {0..<wc_NumKeys config}"
    "pick_loop config rng cnt seen keys r =
      (if map_of seen (bkey idx) \<noteq> Some True
       then pick_loop config rng cnt (AList.update (bkey idx) True seen) (keys @ [bkey idx]) r'
       else pick_loop config rng cnt seen keys r')"
    by (rule pick_loop_turn [OF assms(1-3)])
  then have nx: "next_rng config rng r = r'" by (simp add: next_rng_def)
  then have fr: "fair config rng r'" using fair_next [OF Suc.prems(2)] by simp
  have "pick_idx config rng ((next_rng config rng ^^ m) r') = Inr (i, ri)"
    using Suc.prems(1) nx by (simp add: funpow_Suc_right del: funpow.simps)
  with Suc.IH fr turn(3) longer [OF _ fr picking_add [OF assms(4) turn(2)]] show ?case by simp
qed

lemma pick_loop_returns:
  assumes "rng_ok rng" "config_ok config" "cnt \<le> wc_NumKeys config" "fair config rng r" "picking config seen keys"
  shows "\<exists>res. pick_loop config rng cnt seen keys r = Some res"
  using assms(4,5)
proof (induction "nat cnt - length keys" arbitrary: seen keys r)
  case 0
  then have "\<not> int (length keys) < cnt" by linarith
  then show ?case by (simp add: pick_loop.simps [of config rng cnt seen keys r])
next
  case (Suc d)
  have less: "int (length keys) < cnt" using Suc.hyps(2) by linarith
  have "card (set keys) < card (all_keys config)"
    using Suc.prems(2) less assms(3) by (simp add: picking_def distinct_card card_all_keys)
  then obtain i where i: "i \<in> {0..<wc_NumKeys config}" "bkey i \<notin> set keys"
    by (metis card_mono finite_set image_subset_iff linorder_not_le)
  then obtain m ri where "pick_idx config rng ((next_rng config rng ^^ m) r) = Inr (i, ri)"
    using Suc.prems(1) unfolding fair_def by blast
  then show ?case
    using Suc.hyps by (intro pick_loop_progress [OF assms(1,2) less Suc.prems(2) _ i(2) _ Suc.prems(1)]) simp_all
qed

subsection \<open>What the clients have read and written\<close>

definition rd_log :: "(string \<times> string) list \<Rightarrow> txn_op list" where
  "rd_log rs = map (\<lambda>(k, v). RdOp k v) rs"

definition wr_log :: "(string, string) gomap \<Rightarrow> string list \<Rightarrow> txn_op list" where
  "wr_log rs ks = map (\<lambda>k. WrOp k (bump (lookup_value rs k))) ks"

definition keys_ok :: "WorkloadConfig \<Rightarrow> string list \<Rightarrow> bool" where
  "keys_ok config ks \<longleftrightarrow> distinct ks \<and> set ks \<subseteq> all_keys config \<and> int (length ks) = wc_ReadsPerTxn config"

definition writes_ok :: "WorkloadConfig \<Rightarrow> string list \<Rightarrow> string list \<Rightarrow> bool" where
  "writes_ok config ks wks \<longleftrightarrow> distinct wks \<and> set wks \<subseteq> set ks \<and>
     int (length wks) = min (wc_WritesPerTxn config) (wc_ReadsPerTxn config)"

definition bench_log :: "WorkloadConfig \<Rightarrow> txn_op list \<Rightarrow> bool" where
  "bench_log config l \<longleftrightarrow> (\<exists>rs wks. keys_ok config (map fst rs) \<and> writes_ok config (map fst rs) wks \<and> l = rd_log rs @ wr_log rs wks)"

fun cmatches :: "WorkloadConfig \<Rightarrow> 'r cphase \<Rightarrow> client \<Rightarrow> bool" where
  "cmatches config (BIdle r) c = (c = Idle)"
| "cmatches config (BRead r ks todo vals) c = (\<exists>txn rs. c = Active txn (rd_log rs) \<and> keys_ok config ks \<and>
     ks = map fst rs @ todo \<and> map_of vals = map_of rs)"
| "cmatches config (BWrite r todo vals) c = (\<exists>txn rs ws. c = Active txn (rd_log rs @ wr_log rs ws) \<and>
     keys_ok config (map fst rs) \<and> writes_ok config (map fst rs) (ws @ todo) \<and> map_of vals = map_of rs)"
| "cmatches config (BWait r) c = (\<exists>txn l. c = Waiting txn l \<and> bench_log config l)"
| "cmatches config (BPanic p) c = True"
| "cmatches config BSpin c = True"

lemma pickFromSlice_ok:
  assumes "rng_ok rng" "pickFromSlice rng r ks cnt = Inr (wks, r')" "distinct ks"
  shows "distinct wks \<and> set wks \<subseteq> set ks \<and> int (length wks) = min cnt (int (length ks))"
proof (cases "cnt \<ge> int (length ks)")
  case False
  obtain sh r1 where sh: "rng_Shuffle rng r ks = (sh, r1)" by fastforce
  then have m: "mset sh = mset ks" using assms(1) by (metis fst_conv rng_ok_def)
  then have "distinct sh" "set sh = set ks" "length sh = length ks"
    using assms(3) by (auto dest: mset_eq_setD mset_eq_length mset_eq_imp_distinct_iff)
  with False sh assms(2) show ?thesis
    by (auto simp: pickFromSlice_def dest: in_set_takeD split: if_splits)
qed (use assms in \<open>auto simp: pickFromSlice_def\<close>)

lemma read_next_matches:
  assumes "rng_ok rng" "keys_ok config ks" "ks = map fst rs @ todo" "map_of vals = map_of rs"
  shows "cmatches config (read_next config rng r ks todo vals) (Active txn (rd_log rs))"
proof (cases "todo = []")
  case False
  with assms show ?thesis by (auto simp: read_next_def)
next
  case True
  show ?thesis
  proof (cases "pickFromSlice rng r ks (wc_WritesPerTxn config)")
    case (Inl p)
    with True show ?thesis by (simp add: read_next_def)
  next
    case (Inr x)
    obtain wks r' where x: "x = (wks, r')" by fastforce
    with Inr pickFromSlice_ok [OF assms(1), of r ks "wc_WritesPerTxn config"] assms(2,3) True
    have "writes_ok config (map fst rs) ([] @ wks)" by (simp add: keys_ok_def writes_ok_def)
    moreover have "rd_log rs = rd_log rs @ wr_log rs []" by (simp add: wr_log_def)
    moreover have "read_next config rng r ks todo vals = BWrite r' wks vals" using True Inr x by (simp add: read_next_def)
    ultimately show ?thesis using assms True
      by (simp only: cmatches.simps) (intro exI [of _ txn] exI [of _ rs] exI [of _ "[]"], simp)
  qed
qed


lemma rd_log_snoc: "rd_log rs @ [RdOp k v] = rd_log (rs @ [(k, v)])"
  by (simp add: rd_log_def)

lemma wr_log_snoc: "wr_log rs ks @ [WrOp k (bump (lookup_value rs k))] = wr_log rs (ks @ [k])"
  by (simp add: wr_log_def)

lemma pickKeys_ok:
  assumes "rng_ok rng" "config_ok config" "pickKeys config rng r cnt = Some (Inr (ks, r'))"
  shows "distinct ks \<and> set ks \<subseteq> all_keys config \<and> int (length ks) = cnt"
  using assms(3) pick_loop_result [of config rng cnt "[]" "[]" r, OF _ assms(1,2)]
  by (auto simp: pickKeys_def picking_def split: if_splits)

lemma bench_logI:
  "keys_ok config (map fst rs) \<Longrightarrow> writes_ok config (map fst rs) wks \<Longrightarrow> bench_log config (rd_log rs @ wr_log rs wks)"
  unfolding bench_log_def by blast

text \<open>One call of one client.\<close>

text \<open>The two calls that a client repeats, a read and a write, keep its phase in step with its transaction.\<close>

lemma client_reads:
  assumes "sys_step W \<sigma> (EvRead i key v) \<sigma>'" "cmatches config (BRead r readKeys (key # todo) vals) (sys_clients \<sigma> i)" "rng_ok rng"
    and ph: "ph' = read_next config rng r readKeys todo (AList.update key v vals)"
  shows "cmatches config ph' (sys_clients \<sigma>' i) \<and> (\<forall>j. j \<noteq> i \<longrightarrow> sys_clients \<sigma>' j = sys_clients \<sigma> j) \<and> sys_hist \<sigma>' = sys_hist \<sigma>"
proof -
  obtain txn rs where c: "sys_clients \<sigma> i = Active txn (rd_log rs)" "keys_ok config readKeys"
    "readKeys = map fst rs @ key # todo" "map_of vals = map_of rs"
    using assms(2) by auto
  have new: "map_of (AList.update key v vals) = map_of (rs @ [(key, v)])"
    using c by (auto simp: keys_ok_def map_of_eq_None_iff intro!: single_add_absent [symmetric])
  obtain txn' where "sys_clients \<sigma>' = (sys_clients \<sigma>)(i := Active txn' (rd_log (rs @ [(key, v)])))" "sys_hist \<sigma>' = sys_hist \<sigma>"
    using sys_step_effect [OF assms(1)] c(1) by (auto simp: rd_log_snoc)
  then show ?thesis
    using read_next_matches [OF assms(3) c(2), of "rs @ [(key, v)]" todo, OF _ new] c(3) by (simp add: ph)
qed

lemma client_writes:
  assumes "sys_step W \<sigma> (EvWrite i key (bump (lookup_value vals key))) \<sigma>'" "cmatches config (BWrite r (key # todo) vals) (sys_clients \<sigma> i)"
  shows "cmatches config (BWrite r todo vals) (sys_clients \<sigma>' i) \<and> (\<forall>j. j \<noteq> i \<longrightarrow> sys_clients \<sigma>' j = sys_clients \<sigma> j) \<and>
    sys_hist \<sigma>' = sys_hist \<sigma>"
proof -
  obtain txn rs ws where c: "sys_clients \<sigma> i = Active txn (rd_log rs @ wr_log rs ws)" "keys_ok config (map fst rs)"
    "writes_ok config (map fst rs) (ws @ key # todo)" "map_of vals = map_of rs"
    using assms(2) by auto
  have "lookup_value vals key = lookup_value rs key" using c(4) by (simp add: lookup_value_def)
  then obtain txn' where "sys_clients \<sigma>' = (sys_clients \<sigma>)(i := Active txn' (rd_log rs @ wr_log rs (ws @ [key])))" "sys_hist \<sigma>' = sys_hist \<sigma>"
    using sys_step_effect [OF assms(1)] c(1) by (auto simp: wr_log_snoc)
  moreover have "writes_ok config (map fst rs) ((ws @ [key]) @ todo)" using c(3) by simp
  ultimately show ?thesis using c(2,4) by (auto intro!: exI [of _ rs] exI [of _ "ws @ [key]"])
qed

lemma client_sys_step:
  assumes "sys_step W \<sigma> ev \<sigma>'" "client_step config rng i ph ev ph'" "cmatches config ph (sys_clients \<sigma> i)"
    and "rng_ok rng" "config_ok config"
  shows "cmatches config ph' (sys_clients \<sigma>' i) \<and> (\<forall>j. j \<noteq> i \<longrightarrow> sys_clients \<sigma>' j = sys_clients \<sigma> j) \<and>
    (if ev = EvCertify i True then \<exists>l. bench_log config l \<and> sys_hist \<sigma>' = sys_hist \<sigma> @ [l] else sys_hist \<sigma>' = sys_hist \<sigma>)"
  using assms(2)
proof (cases rule: client_step.cases)
  case (c_begin r readKeys r')
  have "keys_ok config readKeys"
    using pickKeys_ok [OF assms(4,5)] c_begin by (simp add: keys_ok_def)
  moreover obtain txn where "sys_clients \<sigma>' = (sys_clients \<sigma>)(i := Active txn [])" "sys_hist \<sigma>' = sys_hist \<sigma>"
    using sys_step_effect [OF assms(1)] c_begin(2) by auto
  ultimately show ?thesis
    using read_next_matches [OF assms(4), of config readKeys "[]" readKeys "[]" r' txn] c_begin by (simp add: rd_log_def)
next
  case (c_begin_panic r p)
  then show ?thesis using sys_step_effect [OF assms(1)] by auto
next
  case (c_begin_spin r)
  then show ?thesis using sys_step_effect [OF assms(1)] by auto
next
  case (c_read r readKeys key todo vals v)
  with client_reads [of W \<sigma> i key v \<sigma>' config r readKeys todo vals rng] assms(1,3,4) show ?thesis by simp
next
  case (c_write r key todo vals)
  with client_writes [of W \<sigma> i key vals \<sigma>' config r todo] assms(1,3) show ?thesis by simp
next
  case (c_commit r vals)
  then show ?thesis using assms(3) sys_step_effect [OF assms(1)] by (auto intro: bench_logI)
next
  case (c_result r committed)
  then show ?thesis using assms(3) sys_step_effect [OF assms(1)] by (cases committed) auto
qed


subsection \<open>Counters in the store\<close>

definition db_val :: "(string \<rightharpoonup> string) \<Rightarrow> string \<Rightarrow> string" where
  "db_val db k = (case db k of None \<Rightarrow> '''' | Some v \<Rightarrow> v)"

definition cell :: "(string \<rightharpoonup> string) \<Rightarrow> int \<Rightarrow> int" where
  "cell db j = fst (Atoi (db_val db (bkey j)))"

definition cells_sum :: "WorkloadConfig \<Rightarrow> (string \<rightharpoonup> string) \<Rightarrow> int" where
  "cells_sum config db = (\<Sum>j \<in> {0..<wc_NumKeys config}. cell db j)"

definition cells_in :: "WorkloadConfig \<Rightarrow> (string \<rightharpoonup> string) \<Rightarrow> nat \<Rightarrow> bool" where
  "cells_in config db n \<longleftrightarrow> (\<forall>j \<in> {0..<wc_NumKeys config}. 0 \<le> cell db j \<and> cell db j \<le> int n)"

lemma replay_rd:
  "replay db (rd_log rs @ l) = Some db' \<Longrightarrow> (\<forall>(k, v) \<in> set rs. db_val db k = v) \<and> replay db l = Some db'"
  by (induction rs) (auto simp: rd_log_def db_val_def split: if_splits)

lemma replay_wr:
  "replay db (map (\<lambda>k. WrOp k (f k)) ks) = Some (\<lambda>k. if k \<in> set ks then Some (f k) else db k)"
  by (induction ks arbitrary: db) (auto simp: fun_eq_iff)

lemma lookup_read:
  assumes "\<forall>(k, v) \<in> set rs. db_val db k = v" "k \<in> fst ` set rs"
  shows "lookup_value rs k = db_val db k"
proof -
  obtain v where "map_of rs k = Some v" using assms(2) by (metis map_of_eq_None_iff not_None_eq)
  then show ?thesis using assms(1) by (auto simp: lookup_value_def dest: map_of_SomeD)
qed

lemma bench_log_cells:
  assumes "bench_log config l" "replay db l = Some db'" "cells_in config db n" "n < 2 ^ 63 - 1"
  shows "cells_in config db' (n + 1)"
    and "cells_sum config db' = cells_sum config db + min (wc_WritesPerTxn config) (wc_ReadsPerTxn config)"
proof -
  obtain rs wks where l: "keys_ok config (map fst rs)" "writes_ok config (map fst rs) wks" "l = rd_log rs @ wr_log rs wks"
    using assms(1) by (auto simp: bench_log_def)
  have rd: "\<forall>(k, v) \<in> set rs. db_val db k = v" and wr: "replay db (wr_log rs wks) = Some db'"
    using replay_rd [OF assms(2) [unfolded l(3)]] by auto
  have "lookup_value rs k = db_val db k" if "k \<in> set wks" for k
    by (rule lookup_read [OF rd]) (use l(2) that in \<open>auto simp: writes_ok_def\<close>)
  then have db': "db' = (\<lambda>k. if k \<in> set wks then Some (bump (db_val db k)) else db k)"
    using wr by (auto simp: wr_log_def replay_wr)
  let ?J = "{0..<wc_NumKeys config}"
  have cell': "cell db' j = cell db j + of_bool (bkey j \<in> set wks)" if "j \<in> ?J" for j
  proof -
    have j: "0 \<le> cell db j" "cell db j \<le> int n" using assms(3) that by (auto simp: cells_in_def)
    then have "Atoi (bump (db_val db (bkey j))) = (cell db j + 1, None)"
      using assms(4) by (simp add: bump_def cell_def Atoi_Itoa)
    then show ?thesis by (simp add: cell_def db' db_val_def [of db'])
       (simp add: db' db_val_def)
  qed
  then show "cells_in config db' (n + 1)" using assms(3) by (auto simp: cells_in_def)
  have "set wks \<subseteq> set (map fst rs)" "set (map fst rs) \<subseteq> all_keys config"
    using l(1,2) by (simp_all add: keys_ok_def writes_ok_def)
  then have "bkey ` {j \<in> ?J. bkey j \<in> set wks} = set wks" by blast
  moreover have "inj_on bkey {j \<in> ?J. bkey j \<in> set wks}" by (rule inj_on_subset [OF bkey_inj]) auto
  ultimately have "card {j \<in> ?J. bkey j \<in> set wks} = length wks"
    using l(2) by (metis card_image distinct_card writes_ok_def)
  moreover have "(\<Sum>j \<in> ?J. of_bool (bkey j \<in> set wks)) = int (card {j \<in> ?J. bkey j \<in> set wks})"
    by (simp add: of_bool_def sum.If_cases Int_def)
  ultimately show "cells_sum config db' = cells_sum config db + min (wc_WritesPerTxn config) (wc_ReadsPerTxn config)"
    using l(2) by (simp add: cells_sum_def cell' sum.distrib writes_ok_def)
qed

lemma bench_logs_cells:
  "\<forall>l \<in> set ls. bench_log config l \<Longrightarrow> replay db (concat ls) = Some db' \<Longrightarrow> cells_in config db n \<Longrightarrow>
   n + length ls < 2 ^ 63 \<Longrightarrow>
   cells_sum config db' = cells_sum config db + int (length ls) * min (wc_WritesPerTxn config) (wc_ReadsPerTxn config)"
proof (induction ls arbitrary: db n)
  case (Cons l ls)
  obtain d where d: "replay db l = Some d" "replay d (concat ls) = Some db'"
    using Cons.prems(2) by (auto simp: replay_append bind_eq_Some_conv)
  have log: "bench_log config l" and n: "n < 2 ^ 63 - 1" using Cons.prems by auto
  note step = bench_log_cells [OF log d(1) Cons.prems(3) n]
  show ?case using Cons.IH [OF _ d(2) step(1)] Cons.prems(1,4) step(2) by (simp add: algebra_simps)
qed simp


subsection \<open>The invariant of a run\<close>

definition bench_inv :: "WorkloadConfig \<Rightarrow> ('w, 'r) bench \<Rightarrow> bool" where
  "bench_inv config b \<longleftrightarrow>
     (\<forall>i. int i < wc_NumClients config \<longrightarrow> cmatches config (bn_phase b i) (sys_clients (bn_sys b) i)) \<and>
     (\<forall>l \<in> set (sys_hist (bn_sys b)). bench_log config l) \<and>
     mc_totalCommitted (bn_collector b) = of_nat (length (sys_hist (bn_sys b))) \<and>
     mc_conflictCount (bn_collector b) = mc_totalAborted (bn_collector b) \<and> mc_epochSizes (bn_collector b) = [] \<and>
     (\<forall>i. 0 \<le> bn_completed b i \<and> bn_completed b i \<le> max 0 (wc_TotalTxnsPerClient config)) \<and>
     length (sys_hist (bn_sys b)) \<le> length (mc_latencies (bn_collector b)) \<and>
     mc_totalAborted (bn_collector b) = of_nat (length (mc_latencies (bn_collector b)) - length (sys_hist (bn_sys b))) \<and>
     (\<Sum>i < nat (wc_NumClients config). bn_completed b i)
       = int (if wc_RetryOnAbort config then length (sys_hist (bn_sys b)) else length (mc_latencies (bn_collector b)))"

lemma bench_inv_init: "bench_inv config (bench_init w seeds now)"
  by (simp add: bench_inv_def bench_init_def sys_init_def NewCollector_def)

lemma sum_bump:
  assumes "int i < n"
  shows "(\<Sum>j < nat n. (f(i := f i + 1)) j) = (\<Sum>j < nat n. f j) + (1 :: int)"
proof -
  have "i \<in> {..<nat n}" using assms by auto
  then show ?thesis by (simp add: sum.remove [where x = i])
qed

lemma bench_inv_step:
  assumes "bench_inv config b" "bench_step W config rng b b'" "rng_ok rng" "config_ok config"
  shows "bench_inv config b'"
  using assms(2)
proof (cases rule: bench_step.cases)
  case (bench_internal \<sigma>)
  then show ?thesis using assms(1) sys_step_effect [OF bench_internal(2)] by (simp add: bench_inv_def)
next
  case (bench_client i ev \<sigma> ph latency)
  have m: "cmatches config (bn_phase b i) (sys_clients (bn_sys b) i)"
    using assms(1) bench_client(2) by (simp add: bench_inv_def)
  note step = client_sys_step [OF bench_client(4,5) m assms(3,4)]
  note sum = sum_bump [OF bench_client(2), of "bn_completed b"]
  have top: "bn_completed b i + 1 \<le> max 0 (wc_TotalTxnsPerClient config)" using bench_client(3) by simp
  consider "ev = EvCertify i True" | "ev = EvCertify i False" | "ev \<noteq> EvCertify i True" "ev \<noteq> EvCertify i False" by blast
  then show ?thesis
  proof cases
    case 1
    with step obtain l where "bench_log config l" "sys_hist \<sigma> = sys_hist (bn_sys b) @ [l]" by auto
    with 1 step sum top assms(1) show ?thesis
      by (auto simp: bench_client(1) bench_inv_def bench_record_def RecordCommit_def algebra_simps)
  next
    case 2
    with step sum top assms(1) show ?thesis
      by (auto simp: bench_client(1) bench_inv_def bench_record_def RecordAbort_def RecordConflict_def algebra_simps)
  next
    case 3
    with step assms(1) show ?thesis by (auto simp: bench_client(1) bench_inv_def bench_record_def)
  qed
qed

lemma bench_inv_reach:
  assumes "bench_reach W config rng (bench_init w seeds now) b" "rng_ok rng" "config_ok config"
  shows "bench_inv config b"
  using assms(1)
  by (induction "bench_init w seeds now" b rule: bench_reach.induct)
     (auto intro: bench_inv_init bench_inv_step [OF _ _ assms(2,3)])

lemma bench_sys_reach:
  "bench_reach W config rng (bench_init w seeds now) b \<Longrightarrow> sys_reach W (sys_init w) (bn_sys b)"
proof (induction "bench_init w seeds now" b rule: bench_reach.induct)
  case bench_refl
  then show ?case by (simp add: bench_init_def reach_refl)
next
  case (bench_more b' b'')
  from bench_more(3) obtain ev where "sys_step W (bn_sys b') ev (bn_sys b'')"
    by (cases rule: bench_step.cases) (auto simp: bench_record_def)
  with bench_more(2) show ?case by (rule reach_step)
qed

context certifier_contract
begin

lemma bench_sum:
  assumes "wok w0" "unat (wseq w0) + length (sys_hist (bn_sys b)) + 1 < 2 ^ 64" "length (sys_hist (bn_sys b)) < 2 ^ 63"
    and "cells_in config (db_of (wview w0)) 0" "bench_reach W config rng (bench_init w0 seeds now) b" "rng_ok rng" "config_ok config"
  shows "cells_sum config (db_of (wview (sys_world (bn_sys b)))) = cells_sum config (db_of (wview w0)) +
    int (length (sys_hist (bn_sys b))) * min (wc_WritesPerTxn config) (wc_ReadsPerTxn config)"
proof -
  have inv: "bench_inv config b" by (rule bench_inv_reach [OF assms(5-7)])
  have "sys_inv w0 (bn_sys b)" by (rule sys_inv_reach [OF bench_sys_reach [OF assms(5)] assms(1,2)])
  then have "replay (db_of (wview w0)) (concat (sys_hist (bn_sys b))) = Some (db_of (wview (sys_world (bn_sys b))))"
    by (simp add: sys_inv_def)
  then show ?thesis using inv assms(3,4) by (intro bench_logs_cells) (auto simp: bench_inv_def)
qed

end

lemma Atoi_zero: "Atoi ''0'' = (0, None)"
proof -
  have "Itoa 0 = ''0''" by (simp add: Itoa_def decimal.simps [of 0] digit_char_def char_of_def bit_0)
  with Atoi_Itoa [of 0] show ?thesis by simp
qed

lemma bench_data_wf: "gomap_wf (bench_data config)"
  unfolding bench_data_def by (rule gomap_wf_fold_update) simp

lemma map_of_bench_data: "map_of (bench_data config) k = (if k \<in> all_keys config then Some ''0'' else None)"
proof -
  have "{0..wc_NumKeys config - 1} = {0..<wc_NumKeys config}" by auto
  then show ?thesis by (simp add: bench_data_def map_simps)
qed

lemma bench_store_facts:
  "mem_wf (bench_store config)" "view_pos (mem_view (bench_store config))"
  "cells_in config (db_of (mem_view (bench_store config))) 0" "cells_sum config (db_of (mem_view (bench_store config))) = 0"
proof -
  have v: "mem_view (bench_store config) = (\<lambda>k. if k \<in> all_keys config then Some (''0'', 1) else None)"
    by (auto simp: mem_view_load [OF bench_data_wf] map_of_bench_data fun_eq_iff)
  have "cell (db_of (mem_view (bench_store config))) j = 0" if "j \<in> {0..<wc_NumKeys config}" for j
    using that by (simp add: v cell_def db_val_def db_of_def Atoi_zero)
  then show "cells_in config (db_of (mem_view (bench_store config))) 0" "cells_sum config (db_of (mem_view (bench_store config))) = 0"
    by (simp_all add: cells_in_def cells_sum_def)
  show "mem_wf (bench_store config)" by (simp add: mem_wf_ops)
  show "view_pos (mem_view (bench_store config))" by (simp add: v view_pos_def)
qed


subsection \<open>A concrete generator and a concrete run\<close>

text \<open>A generator that counts, and one client that increments one key.\<close>

definition counter_rng :: "nat Rng" where
  "counter_rng = \<lparr>rng_Intn = (\<lambda>r n. (int r mod n, r + 1)), rng_Float64 = (\<lambda>r. (0, r)),
                  rng_Shuffle = (\<lambda>r xs. (xs, r))\<rparr>"

lemma counter_rng_ok: "rng_ok counter_rng"
  by (simp add: rng_ok_def counter_rng_def)

lemma counter_pick:
  "0 < wc_NumKeys config \<Longrightarrow> wc_ContentionMode config \<noteq> ''hotspot'' \<Longrightarrow>
   pick_idx config counter_rng r = Inr (int r mod wc_NumKeys config, r + 1)"
  by (simp add: pick_idx_def Intn_def counter_rng_def Let_def)

lemma counter_fair:
  assumes "0 < wc_NumKeys config" "wc_ContentionMode config \<noteq> ''hotspot''"
  shows "fair config counter_rng r"
  unfolding fair_def
proof (intro ballI allI)
  fix i n
  assume i: "i \<in> {0..<wc_NumKeys config}"
  let ?N = "wc_NumKeys config"
  have "next_rng config counter_rng = Suc" using assms by (simp add: fun_eq_iff next_rng_def counter_pick)
  then have st: "(next_rng config counter_rng ^^ m) r = r + m" for m by (induction m) simp_all
  define m where "m = n + nat ((i - int (r + n)) mod ?N)"
  have "int (r + m) = int (r + n) + (i - int (r + n)) mod ?N" using assms by (simp add: m_def)
  then have "int (r + m) mod ?N = i mod ?N" by (simp only: mod_add_right_eq) simp
  with i have "pick_idx config counter_rng ((next_rng config counter_rng ^^ m) r) = Inr (i, r + m + 1)"
    using assms by (simp add: st counter_pick)
  moreover have "n \<le> m" by (simp add: m_def)
  ultimately show "\<exists>m\<ge>n. \<exists>r'. pick_idx config counter_rng ((next_rng config counter_rng ^^ m) r) = Inr (i, r')" by blast
qed

abbreviation tiny :: WorkloadConfig where
  "tiny \<equiv> DefaultConfig\<lparr>wc_NumClients := 1, wc_NumKeys := 1, wc_ReadsPerTxn := 1, wc_WritesPerTxn := 1, wc_TotalTxnsPerClient := 1\<rparr>"

lemma tiny_ok: "config_ok tiny"
  by (simp add: config_ok_def DefaultConfig_def)

lemma bench_client_eq:
  assumes "int i < wc_NumClients config" "bn_completed b i < wc_TotalTxnsPerClient config"
    and "sys_step W (bn_sys b) ev (bn_sys b')" "client_step config rng i (bn_phase b i) ev ph"
    and "b' = bench_record config i ev latency (b\<lparr>bn_sys := bn_sys b', bn_phase := (bn_phase b)(i := ph)\<rparr>)"
  shows "bench_step W config rng b b'"
  using bench_client [OF assms(1-4), of latency] assms(5) by simp

lemma tiny_run:
  assumes get: "W_Get W w (bkey 0) = (\<lparr>rr_Value = v, rr_Version = n, rr_Found = True\<rparr>, w)"
    and turn: "W_Internal W (W_Submit W w 0 req) w1 \<or> w1 = W_Submit W w 0 req"
    and req: "req = request (''txn-'' @ fmt_d 1) [(bkey 0, n)] [(bkey 0, bump v)]"
    and cert: "W_Certify W w1 0 req r w2" "res_Committed r"
  shows "\<exists>b. bench_reach W tiny counter_rng (bench_init w (\<lambda>_. 0) 0) b \<and> bench_finished tiny b \<and> sys_world (bn_sys b) = w2 \<and>
    bn_collector b = RecordCommit 5 (NewCollector 0)"
proof -
  define st where "st w c h ph m col = \<lparr>bn_sys = \<lparr>sys_world = w, sys_engine = \<lparr>eng_idCounter = 1\<rparr>, sys_clients = (\<lambda>_. Idle)(0 := c), sys_hist = h\<rparr>,
    bn_phase = (\<lambda>_. BIdle 0)(0 := ph), bn_completed = (\<lambda>_. 0)(0 := m), bn_collector = col\<rparr>"
    for w :: 'a and c h and ph :: "nat cphase" and m col
  let ?k = "bkey 0" and ?t2 = "rmw_txn (bkey 0) (bump v) n" and ?col = "NewCollector 0"
  let ?t1 = "?t2\<lparr>txn_WriteSet := [], txn_writeBuffer := []\<rparr>"
  let ?t0 = "?t1\<lparr>txn_ReadSet := [], txn_readVersions := []\<rparr>"
  let ?l1 = "[RdOp ?k v]" and ?l2 = "[RdOp ?k v, WrOp ?k (bump v)]"
  let ?b0 = "st w (Active ?t0 []) [] (BRead 1 [?k] [?k] []) 0 ?col"
  let ?b1 = "st w (Active ?t1 ?l1) [] (BWrite 1 [?k] [(?k, v)]) 0 ?col"
  let ?b2 = "st w (Active ?t2 ?l2) [] (BWrite 1 [] [(?k, v)]) 0 ?col"
  let ?b3 = "\<lambda>w. st w (Waiting ?t2 ?l2) [] (BWait 1) 0 ?col"
  let ?b4 = "st w2 Idle [?l2] (BIdle 1) 1 (RecordCommit 5 ?col)"
  have "pick_idx tiny counter_rng 0 = Inr (0, 1)" using counter_pick [of tiny 0] by (simp add: DefaultConfig_def)
  then have pk: "pickKeys tiny counter_rng 0 (wc_ReadsPerTxn tiny) = Some (Inr ([?k], 1))"
    by (simp add: pickKeys_def pick_loop.simps [of _ _ _ _ _ 0] pick_loop.simps [of _ _ _ _ _ "Suc 0"])
  have s0: "bench_step W tiny counter_rng (bench_init w (\<lambda>_. 0) 0) ?b0"
    using step_begin [of "sys_init w" 0 ?t0 "\<lparr>eng_idCounter = 1\<rparr>" W] c_begin [OF pk, of 0]
    by (intro bench_client_eq [of 0 _ _ W "EvBegin 0" _ _ "BRead 1 [?k] [?k] []"])
       (simp_all add: sys_init_def bench_init_def NewEngine_def Engine_Begin_def Let_def st_def bench_record_def DefaultConfig_def
          read_next_def fun_upd_idem)
  have s1: "bench_step W tiny counter_rng ?b0 ?b1"
    using step_read [of "bn_sys ?b0" 0 ?t0 "[]" W ?k v ?t1 w] get c_read [of tiny counter_rng 0 1 "[?k]" ?k "[]" "[]" v]
    by (intro bench_client_eq [of 0 _ _ W "EvRead 0 ?k v" _ _ "BWrite 1 [?k] [(?k, v)]"])
       (simp_all add: st_def Engine_Read_def checkActive_def bench_record_def DefaultConfig_def read_next_def pickFromSlice_def)
  have s2: "bench_step W tiny counter_rng ?b1 ?b2"
    using step_write [of "bn_sys ?b1" 0 ?t1 ?l1 ?k "bump v" ?t2 W] c_write [of tiny counter_rng 0 1 ?k "[]" "[(?k, v)]"]
    by (intro bench_client_eq [of 0 _ _ W "EvWrite 0 ?k (bump v)" _ _ "BWrite 1 [] [(?k, v)]"])
       (simp_all add: st_def Engine_Write_def checkActive_def bench_record_def DefaultConfig_def lookup_value_def)
  have s3: "bench_step W tiny counter_rng ?b2 (?b3 (W_Submit W w 0 req))"
    using step_submit [of "bn_sys ?b2" 0 ?t2 ?l2 req W] req c_commit [of tiny counter_rng 0 1 "[(?k, v)]"]
    by (intro bench_client_eq [of 0 _ _ W "EvSubmit 0" _ _ "BWait 1"])
       (simp_all add: st_def Commit_request_def checkActive_def bench_record_def DefaultConfig_def)
  have s4: "bench_reach W tiny counter_rng b (?b3 w1)" if "bench_reach W tiny counter_rng b (?b3 (W_Submit W w 0 req))" for b
    using turn that bench_more [OF that bench_internal [OF step_internal]] by (auto simp: st_def)
  have s5: "bench_step W tiny counter_rng (?b3 w1) ?b4"
    using step_certify [of "bn_sys (?b3 w1)" 0 ?t2 ?l2 req W r w2] cert req c_result [of tiny counter_rng 0 1 True]
    by (intro bench_client_eq [of 0 _ _ W "EvCertify 0 True" _ _ "BIdle 1" 5])
       (simp_all add: st_def Commit_request_def checkActive_def Commit_finish_def bench_record_def DefaultConfig_def)
  have "bench_reach W tiny counter_rng (bench_init w (\<lambda>_. 0) 0) ?b4"
    by (rule bench_more [OF s4 s5], (rule bench_more [OF _ s3] bench_more [OF _ s2] bench_more [OF _ s1] bench_more [OF bench_refl s0])+)
  moreover have "bench_finished tiny ?b4" by (simp add: bench_finished_def st_def DefaultConfig_def)
  ultimately show ?thesis by (intro exI [of _ ?b4]) (simp add: st_def)
qed


subsection \<open>What a finished run has done\<close>

lemma bench_final:
  assumes "bench_inv config b" "bench_finished config b" "0 \<le> wc_NumClients config" "0 \<le> wc_TotalTxnsPerClient config"
  shows "int (if wc_RetryOnAbort config then length (sys_hist (bn_sys b)) else length (mc_latencies (bn_collector b)))
      = wc_NumClients config * wc_TotalTxnsPerClient config"
    and "int (length (sys_hist (bn_sys b))) \<le> wc_NumClients config * wc_TotalTxnsPerClient config"
proof -
  have "bn_completed b i = wc_TotalTxnsPerClient config" if "i < nat (wc_NumClients config)" for i
  proof (rule antisym)
    have "bn_completed b i \<le> max 0 (wc_TotalTxnsPerClient config)" using assms(1) unfolding bench_inv_def by blast
    then show "bn_completed b i \<le> wc_TotalTxnsPerClient config" using assms(4) by simp
    show "wc_TotalTxnsPerClient config \<le> bn_completed b i" using assms(2) that by (simp add: bench_finished_def)
  qed
  then have "(\<Sum>i < nat (wc_NumClients config). bn_completed b i) = wc_NumClients config * wc_TotalTxnsPerClient config"
    using assms(3) by simp
  then show eq: "int (if wc_RetryOnAbort config then length (sys_hist (bn_sys b)) else length (mc_latencies (bn_collector b)))
      = wc_NumClients config * wc_TotalTxnsPerClient config"
    using assms(1) unfolding bench_inv_def by metis
  have "length (sys_hist (bn_sys b)) \<le> length (mc_latencies (bn_collector b))" using assms(1) by (simp add: bench_inv_def)
  with eq show "int (length (sys_hist (bn_sys b))) \<le> wc_NumClients config * wc_TotalTxnsPerClient config"
    by (simp split: if_splits)
qed

text \<open>The report of a run against the database it leaves.\<close>

definition report_exact :: "WorkloadConfig \<Rightarrow> (string \<rightharpoonup> string) \<Rightarrow> Report \<Rightarrow> bool" where
  "report_exact config db r \<longleftrightarrow>
     cells_sum config db = uint (rp_TotalCommitted r) * min (wc_WritesPerTxn config) (wc_ReadsPerTxn config) \<and>
     (if wc_RetryOnAbort config then uint (rp_TotalCommitted r) = wc_NumClients config * wc_TotalTxnsPerClient config
      else rp_TotalCommitted r + rp_TotalAborted r = of_int (wc_NumClients config * wc_TotalTxnsPerClient config)) \<and>
     rp_ConflictCount r = rp_TotalAborted r \<and> rp_AvgEpochSize r = 0"

context certifier_contract
begin

lemma run_exact:
  assumes run: "run_clients W config rng lsort w0 w (Inr r)" and ok: "rng_ok rng" "config_ok config"
    and start: "wok w0" "cells_in config (db_of (wview w0)) 0" "cells_sum config (db_of (wview w0)) = 0"
      "unat (wseq w0) + nat (wc_NumClients config * wc_TotalTxnsPerClient config) + 1 < 2 ^ 64"
    and pos: "0 \<le> wc_NumClients config" "0 \<le> wc_TotalTxnsPerClient config"
      "wc_NumClients config * wc_TotalTxnsPerClient config < 2 ^ 63"
  shows "report_exact config (db_of (wview w)) r"
  using run
proof (cases rule: run_clients.cases)
  case (run_clients seeds t0 b now)
  have inv: "bench_inv config b" by (rule bench_inv_reach [OF run_clients(3) ok])
  note fin = bench_final [OF inv run_clients(4) pos(1,2)]
  define n where "n = length (sys_hist (bn_sys b))"
  have n: "int n < 2 ^ 63" "unat (wseq w0) + n + 1 < 2 ^ 64" using fin(2) pos start(4) by (simp_all add: n_def)
  then have "cells_sum config (db_of (wview w)) = int n * min (wc_WritesPerTxn config) (wc_ReadsPerTxn config)"
    using bench_sum [OF start(1) _ _ start(2) run_clients(3) ok] start(3) run_clients(1) by (simp add: n_def)
  moreover have "rp_TotalCommitted r = of_nat n" "rp_ConflictCount r = rp_TotalAborted r" "rp_AvgEpochSize r = 0"
    using report_fields [OF run_clients(2) [symmetric]] inv by (auto simp: bench_inv_def n_def)
  moreover have "uint (of_nat n :: uint64) = int n" using n(1) by (simp add: unsigned_of_nat take_bit_nat_eq_self)
  moreover have "rp_TotalCommitted r + rp_TotalAborted r = of_nat (length (mc_latencies (bn_collector b)))"
    using report_fields(6,7) [OF run_clients(2) [symmetric]] inv by (auto simp: bench_inv_def simp flip: of_nat_add)
  moreover have "of_nat (length (mc_latencies (bn_collector b))) = (of_int (wc_NumClients config * wc_TotalTxnsPerClient config) :: uint64)"
    if "\<not> wc_RetryOnAbort config"
    using fin(1) that by (metis of_int_of_nat_eq)
  ultimately show ?thesis using fin(1) by (cases "wc_RetryOnAbort config") (simp_all add: report_exact_def n_def)
qed

end

lemma bench_view: "mem_view (bench_store config) = (\<lambda>k. if k \<in> all_keys config then Some (''0'', 1) else None)"
  by (auto simp: mem_view_load [OF bench_data_wf] map_of_bench_data fun_eq_iff)

lemma bench_store_seq: "snd (load_versions (MemStore_DumpState (bench_store config))) \<le> 1"
  using mem.dump_seq_bound [OF bench_store_facts(1), of config 1] by (auto simp: MemStore_ops_sel bench_view split: if_splits)

lemma one_report:
  obtains r where "Collector_Report sort 7 (RecordCommit 5 (NewCollector 0)) = Inr r" "rp_TotalCommitted r = 1"
proof -
  obtain r where r: "Collector_Report sort 7 (RecordCommit 5 (NewCollector 0)) = Inr r"
    using report_ok [of sort "RecordCommit 5 (NewCollector 0)" 7] sortSlice_sort_key [of "id :: int \<Rightarrow> int"]
    by (auto simp: id_def RecordCommit_def NewCollector_def)
  moreover have "rp_TotalCommitted r = 1" using report_fields(6) [OF r] by (simp add: RecordCommit_def NewCollector_def)
  ultimately show thesis by (rule that)
qed

lemma bench_room:
  assumes "commitSeq c \<le> 1" "n < 2 ^ 63"
  shows "unat (commitSeq c) + nat n + 1 < 2 ^ 64"
  using assms by (simp add: word_le_nat_alt nat_less_iff)

subsection \<open>Local and remote runs are exact\<close>

lemma local_run_exact:
  assumes "Run srt lsort rng config s (Inr r)" "rng_ok rng" "config_ok config"
    and "0 \<le> wc_NumClients config" "0 \<le> wc_TotalTxnsPerClient config"
      "wc_NumClients config * wc_TotalTxnsPerClient config < 2 ^ 63"
  shows "report_exact config (db_of (mem_view s)) r"
  using assms(1)
proof (cases rule: Run.cases)
  case (run_epoch c s0 c' c'')
  note st = bench_store_facts [of config]
  have c: "mem_wf s0" "mem_view s0 = mem_view (bench_store config)" "coherent (mem_view (bench_store config)) c"
    using mem.new_epoch_coherent [OF st(1,2), of "wrap64 (wc_EpochDurationMs config * 10 ^ 6)"] run_epoch(2) by auto
  have c': "commitSeq c' = commitSeq c" "latestVersion c' = latestVersion c"
    using run_epoch(3) by (auto simp: EpochCertifier_Start_def split: if_splits)
  have "commitSeq c \<le> 1" using run_epoch(2) bench_store_seq [of config]
    by (auto simp: NewEpochCertifier_def MemStore_ops_sel split: prod.splits)
  then have "unat (commitSeq c') + nat (wc_NumClients config * wc_TotalTxnsPerClient config) + 1 < 2 ^ 64"
    using bench_room assms(6) c' by metis
  then have "report_exact config (db_of (mem_view (fst (snd (c'', s, None :: ((string, string) gomap \<times> pendingTxn list) option))))) r"
    using c c' st(3,4) by (intro mem.epoch.run_exact [OF run_epoch(4) assms(2,3) _ _ _ _ assms(4-6)]) (simp_all add: coherent_def)
  then show ?thesis by simp
next
  case (run_immediate c s0 c')
  note st = bench_store_facts [of config]
  have c: "mem_wf s0" "mem_view s0 = mem_view (bench_store config)" "coherent (mem_view (bench_store config)) c"
    using mem.new_coherent [OF st(1,2)] run_immediate(2) by auto
  have "commitSeq c \<le> 1" using run_immediate(2) bench_store_seq [of config]
    by (auto simp: NewImmediateCertifier_def MemStore_ops_sel split: prod.splits)
  then have "report_exact config (db_of (mem_view (snd (c', s)))) r"
    using c st(3,4) bench_room assms(6) by (intro mem.imm.run_exact [OF run_immediate(3) assms(2,3) _ _ _ _ assms(4-6)]) simp_all
  then show ?thesis by simp
qed

lemma remote_run_exact:
  assumes conn: "delivers sconn (StorageService_ServiceDesc MemStore_ops)"
      "delivers cconn (CertifierService_ServiceDesc (ImmediateCertifier_cert (GRPCStoreClient_ops sconn)))"
    and s: "mem_wf s" "view_pos (mem_view s)"
    and start: "GRPCCertifierClient_SyncFromStorage cconn (c, GRPCStoreClient_LoadInitialData sconn s (bench_data config)) = w0"
    and run: "run_clients (remote_world sconn cconn) config rng lsort w0 w (Inr r)" "rng_ok rng" "config_ok config"
    and pos: "0 \<le> wc_NumClients config" "0 \<le> wc_TotalTxnsPerClient config"
      "wc_NumClients config * wc_TotalTxnsPerClient config < 2 ^ 63"
      "unat (commitSeq (fst w0)) + nat (wc_NumClients config * wc_TotalTxnsPerClient config) + 1 < 2 ^ 64"
  shows "report_exact config (db_of (mem_view (snd w))) r"
proof -
  have sys: "remote_system MemStore_ops mem_view mem_wf sconn cconn" by unfold_locales (rule conn)+
  note w0 = remote_start [OF conn s bench_data_wf start]
  have "cell (db_of (mem_view (snd w0))) j = 0" if "j \<in> {0..<wc_NumKeys config}" for j
    using that by (simp add: w0(2) cell_def db_val_def map_add_def map_of_bench_data Atoi_zero)
  then have "cells_in config (db_of (mem_view (snd w0))) 0" "cells_sum config (db_of (mem_view (snd w0))) = 0"
    by (simp_all add: cells_in_def cells_sum_def)
  from certifier_contract.run_exact [OF remote_system.remote_contract [OF sys] run w0(1) this pos(4,1-3)] show ?thesis .
qed

lemma remote_epoch_run_exact:
  assumes conn: "delivers sconn (StorageService_ServiceDesc MemStore_ops)"
    and s: "mem_wf s" "view_pos (mem_view s)"
    and start: "epoch_resync (GRPCStoreClient_ops sconn) (epoch_load sconn (c, s, None) (bench_data config)) = w0"
    and run: "run_clients (remote_epoch_world sconn srt) config rng lsort w0 w (Inr r)" "rng_ok rng" "config_ok config"
    and pos: "0 \<le> wc_NumClients config" "0 \<le> wc_TotalTxnsPerClient config"
      "wc_NumClients config * wc_TotalTxnsPerClient config < 2 ^ 63"
      "unat (commitSeq (fst w0)) + nat (wc_NumClients config * wc_TotalTxnsPerClient config) + 1 < 2 ^ 64"
  shows "report_exact config (db_of (mem_view (fst (snd w)))) r"
proof -
  have st: "remote_store MemStore_ops mem_view mem_wf sconn" by unfold_locales (rule conn)
  note w0 = remote_epoch_start [OF conn s bench_data_wf start]
  have "cell (db_of (mem_view (fst (snd w0)))) j = 0" if "j \<in> {0..<wc_NumKeys config}" for j
    using that by (simp add: w0(2) cell_def db_val_def map_add_def map_of_bench_data Atoi_zero)
  then have "cells_in config (db_of (mem_view (fst (snd w0)))) 0" "cells_sum config (db_of (mem_view (fst (snd w0)))) = 0"
    by (simp_all add: cells_in_def cells_sum_def)
  then show ?thesis
    using certifier_contract.run_exact [OF store_contract.epoch_contract [OF remote_store.client_contract [OF st]]
        run [unfolded remote_epoch_world_eq] _ _ _ pos(4,1-3)] w0(1) by simp
qed

lemma tiny_remote_run:
  "\<exists>w r. run_clients (remote_world lb_store lb_cert) tiny counter_rng sort
       (GRPCCertifierClient_SyncFromStorage lb_cert (\<lparr>latestVersion = [], commitSeq = 0\<rparr>,
          GRPCStoreClient_LoadInitialData lb_store NewMemStore (bench_data tiny))) w (Inr r) \<and>
     rp_TotalCommitted r = 1"
  "GRPCCertifierClient_SyncFromStorage lb_cert (\<lparr>latestVersion = [], commitSeq = 0\<rparr>,
     GRPCStoreClient_LoadInitialData lb_store NewMemStore (bench_data tiny))
     = (\<lparr>latestVersion = [(bkey 0, 1)], commitSeq = 1\<rparr>, store_with (bkey 0) ''0'' 1)"
proof -
  let ?W = "remote_world lb_store lb_cert" and ?s = "store_with (bkey 0) ''0'' 1" and ?c = "\<lparr>latestVersion = [(bkey 0, 1)], commitSeq = 1\<rparr>"
  let ?old = "\<lparr>latestVersion = [], commitSeq = 0\<rparr>"
  let ?req = "request (''txn-'' @ fmt_d 1) [(bkey 0, 1)] [(bkey 0, bump ''0'')]"
  let ?w2 = "(\<lparr>latestVersion = [(bkey 0, 2)], commitSeq = 2\<rparr>, store_with (bkey 0) (bump ''0'') 2)"
  have ld: "GRPCStoreClient_LoadInitialData lb_store NewMemStore (bench_data tiny) = ?s"
    by (simp add: client_LoadInitialData [OF loopback_storage] MemStore_ops_sel bench_data_def MemStore_LoadInitialData_def NewMemStore_def)
  show start: "GRPCCertifierClient_SyncFromStorage lb_cert (?old, GRPCStoreClient_LoadInitialData lb_store NewMemStore (bench_data tiny)) = (?c, ?s)"
    unfolding ld
    by (simp add: rpc_simps ImmediateCertifier_SyncFromStorage_def)
  have "W_Certify ?W (?c, ?s) 0 ?req (committed_result (''txn-'' @ fmt_d 1) 2) ?w2"
    by (simp add: remote_world_def rpc_simps ImmediateCertifier_SubmitCommit_def MemStore_ApplyCommit_def commit_record_def
        write_entries_def word_le_nat_alt)
  moreover have "W_Get ?W (?c, ?s) (bkey 0) = (\<lparr>rr_Value = ''0'', rr_Version = 1, rr_Found = True\<rparr>, (?c, ?s))"
    by (simp add: remote_world_def rpc_simps MemStore_Get_def)
  ultimately obtain b where b: "bench_reach ?W tiny counter_rng (bench_init (?c, ?s) (\<lambda>_. 0) 0) b" "bench_finished tiny b"
    "sys_world (bn_sys b) = ?w2" "bn_collector b = RecordCommit 5 (NewCollector 0)"
    using tiny_run [of ?W "(?c, ?s)" "''0''" 1 ?req "(?c, ?s)" _ ?w2] by (auto simp: remote_world_def)
  obtain r where r: "Collector_Report sort 7 (bn_collector b) = Inr r" "rp_TotalCommitted r = 1"
    unfolding b(4) by (rule one_report)
  have run: "run_clients ?W tiny counter_rng sort (?c, ?s) ?w2 (Inr r)"
    using run_clients.run_clients [OF b(1,2), of sort 7] by (simp add: b(3) r)
  with r(2) show "\<exists>w r. run_clients ?W tiny counter_rng sort
      (GRPCCertifierClient_SyncFromStorage lb_cert (?old, GRPCStoreClient_LoadInitialData lb_store NewMemStore (bench_data tiny))) w (Inr r) \<and>
      rp_TotalCommitted r = 1" unfolding start by blast
qed

subsection \<open>Properties\<close>

text \<open>\<^bold>\<open>C6.\<close> The benchmark command measures what happened: when a run finishes and reports, in local mode with
  either certifier, or in remote mode with a certifier server in either mode, no increment was lost or counted
  twice. The numbers in the store add up to the reported commits times the keys written per transaction, the
  commits (with retries) or the attempts (without) are exactly clients times transactions per client, conflicts
  and aborts agree, and the reported average epoch size is 0, also with the epoch certifier, because nothing
  records an epoch. In remote mode this holds for connections that deliver every call, to servers that no
  other process uses, a well-formed store (whatever else it held before) and a certifier whose counter has
  room for the run; that \<open>grpc.NewClient\<close> succeeds does not give this. A response that is lost on the way
  commits a transaction that is counted as aborted (\<open>lost_response_commits\<close> in \<open>Fleet\<close>).\<close>

theorem bench_main_exact:
  assumes run: "bench_main srt lsort rng dialS dialC flags config s (Up (s', Inr r))" and ok: "rng_ok rng" "config_ok config"
    and pos: "0 \<le> wc_NumClients config" "0 \<le> wc_TotalTxnsPerClient config"
      "wc_NumClients config * wc_TotalTxnsPerClient config < 2 ^ 63"
    and remote: "\<And>sconn cc. fl_mode flags = ''remote'' \<Longrightarrow> dial_both dialS dialC flags = Up (sconn, cc) \<Longrightarrow>
      remote_ready sconn cc s (bench_data config) (nat (wc_NumClients config * wc_TotalTxnsPerClient config) + 1)"
  shows "report_exact config (db_of (mem_view s')) r"
  using run
proof (cases rule: bench_main.cases)
  case bench_local
  then show ?thesis by (intro local_run_exact [OF _ ok pos])
next
  case (bench_remote sconn cconn c w)
  note rm = remote [OF bench_remote(2,3), unfolded remote_ready_def]
  have "report_exact config (db_of (mem_view (snd w))) r"
    by (rule remote_run_exact [OF _ _ _ _ refl _ ok pos, where c = c and s = s]) (use rm bench_remote(4) in auto)
  with bench_remote show ?thesis by simp
next
  case (bench_remote_epoch sconn e w)
  note rm = remote [OF bench_remote_epoch(2,3), unfolded remote_ready_def]
  have "report_exact config (db_of (mem_view (fst (snd w)))) r"
    by (rule remote_epoch_run_exact [OF _ _ _ refl _ ok pos, where c = e and s = s]) (use rm bench_remote_epoch(4) in auto)
  with bench_remote_epoch show ?thesis by simp
qed

theorem bench_main_exact_witness:
  "\<exists>s r. bench_main (sort_key txn_key) sort counter_rng (\<lambda>_. Inr lb_store) (\<lambda>_. Inr (Immediate_server lb_cert \<lparr>latestVersion = [], commitSeq = 0\<rparr>))
       (client_defaults\<lparr>fl_mode := ''remote''\<rparr>) tiny NewMemStore (Up (s, Inr r)) \<and>
     report_exact tiny (db_of (mem_view s)) r \<and> rp_TotalCommitted r = 1"
proof -
  let ?fl = "client_defaults\<lparr>fl_mode := ''remote''\<rparr>" and ?c = "\<lparr>latestVersion = [], commitSeq = 0\<rparr>"
  let ?dS = "\<lambda>_ :: string. Inr lb_store :: string + MemStore invoke"
  let ?dC = "\<lambda>_ :: string. Inr (Immediate_server lb_cert ?c) :: string + ccaas"
  let ?w0 = "GRPCCertifierClient_SyncFromStorage lb_cert (remote_load lb_store (?c, NewMemStore) (bench_data tiny))"
  have fl: "fl_mode ?fl = ''remote''" "dial_both ?dS ?dC ?fl = Up (lb_store, Immediate_server lb_cert ?c)" by (simp_all add: dial_both_def)
  obtain w r where w: "run_clients (remote_world lb_store lb_cert) tiny counter_rng sort ?w0 w (Inr r)" "rp_TotalCommitted r = 1"
    using tiny_remote_run(1) by auto
  from bench_remote [OF fl w(1)]
  have run: "bench_main (sort_key txn_key) sort counter_rng ?dS ?dC ?fl tiny NewMemStore (Up (snd w, Inr r))" .
  have "view_pos (mem_view NewMemStore)" by (simp add: view_pos_def)
  then have ready: "remote_ready lb_store (Immediate_server lb_cert ?c) NewMemStore (bench_data tiny)
      (nat (wc_NumClients tiny * wc_TotalTxnsPerClient tiny) + 1)"
    using tiny_remote_run(2) by (simp add: remote_ready_def loopback_storage loopback_certifier DefaultConfig_def)
  have "report_exact tiny (db_of (mem_view (snd w))) r"
    using fl(2) ready by (intro bench_main_exact [OF run counter_rng_ok tiny_ok]) (auto simp: DefaultConfig_def)
  with run w(2) show ?thesis by blast
qed

text \<open>\<^bold>\<open>C18.\<close> \<open>pickKeys\<close> returns: when the generator keeps drawing every index and no more keys are asked for
  than there are, the loop ends, and the result is that many different keys of the key space.\<close>

theorem pickKeys_returns:
  assumes "rng_ok rng" "config_ok config" "fair config rng r" "0 \<le> cnt" "cnt \<le> wc_NumKeys config"
  shows "\<exists>keys r'. pickKeys config rng r cnt = Some (Inr (keys, r')) \<and> distinct keys \<and>
    set keys \<subseteq> bkey ` {0..<wc_NumKeys config} \<and> int (length keys) = cnt"
proof -
  have start: "picking config [] []" by (simp add: picking_def)
  obtain res where "pick_loop config rng cnt [] [] r = Some res" using pick_loop_returns [OF assms(1,2,5,3) start] by blast
  with pick_loop_result [OF _ assms(1,2) start] assms(4) show ?thesis by (fastforce simp: pickKeys_def)
qed

theorem pickKeys_returns_witness:
  "\<exists>keys r'. pickKeys DefaultConfig counter_rng 0 3 = Some (Inr (keys, r')) \<and> distinct keys \<and> length keys = 3"
  using pickKeys_returns [of counter_rng DefaultConfig 0 3] counter_rng_ok counter_fair [of DefaultConfig 0]
  by (auto simp: config_ok_def DefaultConfig_def)

text \<open>\<^bold>\<open>C34.\<close> \<open>pickKeys\<close> never returns when more keys are asked for than there are, whatever the generator does:
  a configuration with \<open>ReadsPerTxn\<close> above \<open>NumKeys\<close> makes every client spin in the loop.\<close>

theorem pickKeys_spins:
  assumes "rng_ok rng" "config_ok config" "wc_NumKeys config < cnt"
  shows "pickKeys config rng r cnt = None"
proof (rule ccontr)
  assume "pickKeys config rng r cnt \<noteq> None"
  moreover have "\<not> cnt < 0" using assms(2,3) by (simp add: config_ok_def)
  ultimately obtain res where "pick_loop config rng cnt [] [] r = Some res" by (auto simp: pickKeys_def)
  then obtain keys r' where "distinct keys" "set keys \<subseteq> all_keys config" "int (length keys) = cnt"
    using pick_loop_result [of config rng cnt "[]" "[]" r, OF _ assms(1,2)] assms(2,3) by (auto simp: picking_def config_ok_def)
  then have "length keys \<le> nat (wc_NumKeys config)"
    using card_mono [of "all_keys config" "set keys"] by (simp add: distinct_card card_all_keys)
  then have "int (length keys) \<le> wc_NumKeys config" using assms(2) unfolding config_ok_def by linarith
  with \<open>int (length keys) = cnt\<close> assms(3) show False by simp
qed

theorem pickKeys_spins_witness:
  "pickKeys tiny counter_rng 0 2 = None"
  using pickKeys_spins [of counter_rng tiny 2 0] counter_rng_ok tiny_ok by (simp add: DefaultConfig_def)

end
