(* ===== verification/Locking.thy ===== *)
theory Locking
  imports Storage
begin

text \<open>
  The in-memory store under concurrent calls, \<open>src/pkg/storage/storage.go\<close>: why each method may be
  taken for one atomic step, as \<open>Storage\<close> and the theories above it do.

  \<^item> The methods are broken into the steps that other goroutines can see: the lock, each turn of a loop over
    the map or over the writes, the deferred unlock. \<open>pc\<close> is the point that a call has reached.
  \<^item> \<open>RWMutex\<close> is \<open>sync.RWMutex\<close>: any number of readers or one writer. (A waiting writer makes \<open>RLock\<close> wait
    as well; without that the model has more runs, not fewer.)
  \<^item> \<open>run_step\<close> is a step of one call in progress, \<open>conc_step\<close> that or a new call. \<open>cs_order\<close> records the order
    in which the calls got the lock; the code does not keep it.
  \<^item> \<open>conc_inv\<close> is the invariant: each call inside its critical section, run to its end alone, gives the
    result that the serial run in the order of the locks gives it.
\<close>

subsection \<open>Calls, locks and steps\<close>

datatype ms_call =
    Call_Get string
  | Call_ApplyCommit CommitRecord
  | Call_LoadInitialData "(string, string) gomap"
  | Call_DumpState

datatype outcome =
    Ret_Get ReadResult
  | Ret_ApplyCommit apply_outcome
  | Ret_LoadInitialData
  | Ret_DumpState "(string, ReadResult) gomap"

datatype pc =
    At_lock
  | Get_lookup string
  | Apply_check CommitRecord "CommitWrite list"
  | Apply_write "CommitWrite list"
  | Load_write "(string, string) gomap"
  | Dump_read nat "(string, ReadResult) gomap"
  | Unlocking outcome
  | Done outcome

record RWMutex =
  rw_writer :: bool
  rw_readers :: nat

datatype lock_kind = Shared | Exclusive

text \<open>The first two lines of each method.\<close>

fun method_lock :: "ms_call \<Rightarrow> lock_kind" where
  "method_lock (Call_Get key) = Shared"
| "method_lock (Call_ApplyCommit record) = Exclusive"
| "method_lock (Call_LoadInitialData data) = Exclusive"
| "method_lock Call_DumpState = Shared"

text \<open>\<open>None\<close> when the call has to wait, or unlocks what is not locked.\<close>

fun rw_lock :: "lock_kind \<Rightarrow> RWMutex \<Rightarrow> RWMutex option" where
  "rw_lock Shared mu = (if rw_writer mu then None else Some (mu\<lparr>rw_readers := rw_readers mu + 1\<rparr>))"
| "rw_lock Exclusive mu = (if rw_writer mu \<or> rw_readers mu \<noteq> 0 then None else Some (mu\<lparr>rw_writer := True\<rparr>))"

fun rw_unlock :: "lock_kind \<Rightarrow> RWMutex \<Rightarrow> RWMutex option" where
  "rw_unlock Shared mu = (if rw_readers mu = 0 then None else Some (mu\<lparr>rw_readers := rw_readers mu - 1\<rparr>))"
| "rw_unlock Exclusive mu = (if rw_writer mu then Some (mu\<lparr>rw_writer := False\<rparr>) else None)"

text \<open>The first point of a method behind its lock, and one step from there on.\<close>

fun method_entry :: "ms_call \<Rightarrow> pc" where
  "method_entry (Call_Get key) = Get_lookup key"
| "method_entry (Call_ApplyCommit record) = Apply_check record (cr_Writes record)"
| "method_entry (Call_LoadInitialData data) = Load_write data"
| "method_entry Call_DumpState = Dump_read 0 []"

fun method_step :: "MemStore \<Rightarrow> pc \<Rightarrow> MemStore \<times> pc" where
  "method_step s (Get_lookup key) =
     (case map_of (ms_data s) key of
        None \<Rightarrow> (s, Unlocking (Ret_Get \<lparr>rr_Value = '''', rr_Version = 0, rr_Found = False\<rparr>))
      | Some e \<Rightarrow> (s, Unlocking (Ret_Get \<lparr>rr_Value = e_value e, rr_Version = e_version e, rr_Found = True\<rparr>)))"
| "method_step s (Apply_check record []) = (s, Apply_write (cr_Writes record))"
| "method_step s (Apply_check record (w # ws)) =
     (case map_of (ms_data s) (cw_Key w) of
        Some existing \<Rightarrow>
          if cw_NewVersion w \<le> e_version existing
          then (s, Unlocking (Ret_ApplyCommit (ApplyErr (monotonicity_error (cw_Key w) (cw_NewVersion w) (e_version existing)))))
          else (s, Apply_check record ws)
      | None \<Rightarrow> (s, Apply_check record ws))"
| "method_step s (Apply_write []) = (s, Unlocking (Ret_ApplyCommit ApplyOk))"
| "method_step s (Apply_write (w # ws)) =
     (s\<lparr>ms_data := AList.update (cw_Key w) \<lparr>e_value = cw_Value w, e_version = cw_NewVersion w\<rparr> (ms_data s)\<rparr>, Apply_write ws)"
| "method_step s (Load_write []) = (s, Unlocking Ret_LoadInitialData)"
| "method_step s (Load_write (kv # kvs)) =
     (s\<lparr>ms_data := AList.update (fst kv) \<lparr>e_value = snd kv, e_version = 1\<rparr> (ms_data s)\<rparr>, Load_write kvs)"
| "method_step s (Dump_read i result) =
     (if i < length (ms_data s)
      then (case ms_data s ! i of (k, e) \<Rightarrow>
              (s, Dump_read (i + 1) (AList.update k \<lparr>rr_Value = e_value e, rr_Version = e_version e, rr_Found = True\<rparr> result)))
      else (s, Unlocking (Ret_DumpState result)))"
| "method_step s pc = (s, pc)"

fun thread_step :: "MemStore \<Rightarrow> RWMutex \<Rightarrow> ms_call \<Rightarrow> pc \<Rightarrow> (MemStore \<times> RWMutex \<times> pc) option" where
  "thread_step s mu m At_lock =
     (case rw_lock (method_lock m) mu of None \<Rightarrow> None | Some mu' \<Rightarrow> Some (s, mu', method_entry m))"
| "thread_step s mu m (Unlocking r) =
     (case rw_unlock (method_lock m) mu of None \<Rightarrow> None | Some mu' \<Rightarrow> Some (s, mu', Done r))"
| "thread_step s mu m (Done r) = None"
| "thread_step s mu m pc = (case method_step s pc of (s', pc') \<Rightarrow> Some (s', mu, pc'))"

record conc =
  cs_store :: MemStore
  cs_mu :: RWMutex
  cs_threads :: "(ms_call \<times> pc) list"
  cs_order :: "(nat \<times> ms_call) list"

definition conc_init :: "MemStore \<Rightarrow> conc" where
  "conc_init s = \<lparr>cs_store = s, cs_mu = \<lparr>rw_writer = False, rw_readers = 0\<rparr>, cs_threads = [], cs_order = []\<rparr>"

inductive run_step :: "conc \<Rightarrow> conc \<Rightarrow> bool" where
  run_stepI: "t < length (cs_threads \<sigma>) \<Longrightarrow> cs_threads \<sigma> ! t = (m, pc) \<Longrightarrow>
    thread_step (cs_store \<sigma>) (cs_mu \<sigma>) m pc = Some (s, mu, pc') \<Longrightarrow>
    run_step \<sigma> \<lparr>cs_store = s, cs_mu = mu, cs_threads = (cs_threads \<sigma>)[t := (m, pc')],
                cs_order = (if pc = At_lock then cs_order \<sigma> @ [(t, m)] else cs_order \<sigma>)\<rparr>"

inductive conc_step :: "conc \<Rightarrow> conc \<Rightarrow> bool" where
  conc_call: "conc_step \<sigma> (\<sigma>\<lparr>cs_threads := cs_threads \<sigma> @ [(m, At_lock)]\<rparr>)"
| conc_run: "run_step \<sigma> \<sigma>' \<Longrightarrow> conc_step \<sigma> \<sigma>'"

inductive conc_reach :: "conc \<Rightarrow> conc \<Rightarrow> bool" where
  conc_refl: "conc_reach \<sigma> \<sigma>"
| conc_more: "conc_reach \<sigma> \<sigma>' \<Longrightarrow> conc_step \<sigma>' \<sigma>'' \<Longrightarrow> conc_reach \<sigma> \<sigma>''"

inductive_cases conc_stepE: "conc_step \<sigma> \<sigma>'"

text \<open>The methods as \<open>Storage\<close> has them, and a serial run of calls, each with its number.\<close>

fun run_method :: "MemStore \<Rightarrow> ms_call \<Rightarrow> outcome \<times> MemStore" where
  "run_method s (Call_Get key) = (Ret_Get (MemStore_Get s key), s)"
| "run_method s (Call_ApplyCommit record) = apfst Ret_ApplyCommit (MemStore_ApplyCommit s record)"
| "run_method s (Call_LoadInitialData data) = (Ret_LoadInitialData, MemStore_LoadInitialData s data)"
| "run_method s Call_DumpState = (Ret_DumpState (MemStore_DumpState s), s)"

fun serial :: "MemStore \<Rightarrow> (nat \<times> ms_call) list \<Rightarrow> (nat \<times> outcome) list \<times> MemStore" where
  "serial s [] = ([], s)"
| "serial s ((t, m) # ms) =
     (case run_method s m of (r, s') \<Rightarrow> (case serial s' ms of (rs, s'') \<Rightarrow> ((t, r) # rs, s'')))"

subsection \<open>The rest of a call\<close>

text \<open>\<open>finish s pc\<close>: the result of a call that goes on from \<open>pc\<close> alone, and the store that it leaves.\<close>

fun finish :: "MemStore \<Rightarrow> pc \<Rightarrow> outcome \<times> MemStore" where
  "finish s (Get_lookup key) = (Ret_Get (MemStore_Get s key), s)"
| "finish s (Apply_check record ws) =
     (case check_monotonic (ms_data s) ws of
        Some err \<Rightarrow> (Ret_ApplyCommit (ApplyErr err), s)
      | None \<Rightarrow> (Ret_ApplyCommit ApplyOk, s\<lparr>ms_data := write_entries (cr_Writes record) (ms_data s)\<rparr>))"
| "finish s (Apply_write ws) = (Ret_ApplyCommit ApplyOk, s\<lparr>ms_data := write_entries ws (ms_data s)\<rparr>)"
| "finish s (Load_write kvs) = (Ret_LoadInitialData, MemStore_LoadInitialData s kvs)"
| "finish s (Dump_read i result) =
     (Ret_DumpState (fold (\<lambda>ke. AList.update (fst ke) \<lparr>rr_Value = e_value (snd ke), rr_Version = e_version (snd ke), rr_Found = True\<rparr>)
        (drop i (ms_data s)) result), s)"
| "finish s (Unlocking r) = (r, s)"
| "finish s (Done r) = (r, s)"
| "finish s At_lock = (Ret_LoadInitialData, s)"

lemma finish_entry: "finish s (method_entry m) = run_method s m"
  by (cases m) (simp_all add: MemStore_ApplyCommit_def MemStore_DumpState_def split: option.split)

lemma finish_step: "finish (fst (method_step s pc)) (snd (method_step s pc)) = finish s pc"
  by (cases "(s, pc)" rule: method_step.cases)
     (auto simp: MemStore_Get_def MemStore_LoadInitialData_def write_entries_def Cons_nth_drop_Suc [symmetric] split: option.splits prod.splits)

fun writes_store :: "pc \<Rightarrow> bool" where
  "writes_store (Apply_check record ws) = True"
| "writes_store (Apply_write ws) = True"
| "writes_store (Load_write kvs) = True"
| "writes_store pc = False"

lemma reads_only: "\<not> writes_store pc \<Longrightarrow> fst (method_step s pc) = s \<and> \<not> writes_store (snd (method_step s pc))"
  by (cases "(s, pc)" rule: method_step.cases) (auto split: option.splits prod.splits)

lemma finish_reads_only: "\<not> writes_store pc \<Longrightarrow> snd (finish s pc) = s"
  by (cases pc) auto

lemma serial_append:
  "serial s (xs @ ys) = (case serial s xs of (rs, s') \<Rightarrow> (case serial s' ys of (rs', s'') \<Rightarrow> (rs @ rs', s'')))"
  by (induction xs arbitrary: s) (auto split: prod.splits)

lemma map_fst_serial: "map fst (fst (serial s xs)) = map fst xs"
  by (induction xs arbitrary: s) (auto simp: case_prod_beta)

text \<open>One more call at the end of the serial run.\<close>

lemma serial_snoc:
  assumes "serial s0 xs = (rs, s)" "t \<notin> fst ` set xs" "run_method s m = (r, s')"
  shows "serial s0 (xs @ [(t, m)]) = (rs @ [(t, r)], s')"
    and "map_of (rs @ [(t, r)]) = (map_of rs)(t \<mapsto> r)"
proof -
  show "serial s0 (xs @ [(t, m)]) = (rs @ [(t, r)], s')" using assms(1,3) by (simp add: serial_append)
  have "map fst rs = map fst xs" using map_fst_serial [of s0 xs] assms(1) by simp
  then have "t \<notin> fst ` set rs" using assms(2) by (metis list.set_map)
  then have "map_of rs t = None" by (simp add: map_of_eq_None_iff)
  then show "map_of (rs @ [(t, r)]) = (map_of rs)(t \<mapsto> r)" by (auto simp: fun_eq_iff map_add_def split: option.splits)
qed

lemma length_filter_update:
  "i < length xs \<Longrightarrow> length (filter P (xs[i := y])) + of_bool (P (xs ! i)) = length (filter P xs) + of_bool (P y)"
proof (induction xs arbitrary: i)
  case (Cons x xs)
  then show ?case by (cases i) auto
qed simp

lemma none_counted: "length (filter P xs) = 0 \<Longrightarrow> i < length xs \<Longrightarrow> \<not> P (xs ! i)"
  by (auto simp: filter_empty_conv)

subsection \<open>The invariant\<close>

definition inside :: "lock_kind \<Rightarrow> ms_call \<times> pc \<Rightarrow> bool" where
  "inside kind x \<longleftrightarrow> method_lock (fst x) = kind \<and> snd x \<noteq> At_lock \<and> (\<forall>r. snd x \<noteq> Done r)"

lemma inside_simps [simp]:
  "\<not> inside kind (m, At_lock)" "\<not> inside kind (m, Done r)" "inside kind (m, Unlocking r) = (method_lock m = kind)"
  "inside kind (m, method_entry m) = (method_lock m = kind)"
  by (cases m; simp add: inside_def)+

definition locks_ok :: "conc \<Rightarrow> bool" where
  "locks_ok \<sigma> \<longleftrightarrow> length (filter (inside Shared) (cs_threads \<sigma>)) = rw_readers (cs_mu \<sigma>) \<and>
     length (filter (inside Exclusive) (cs_threads \<sigma>)) = of_bool (rw_writer (cs_mu \<sigma>)) \<and>
     (rw_writer (cs_mu \<sigma>) \<longrightarrow> rw_readers (cs_mu \<sigma>) = 0) \<and>
     (\<forall>t < length (cs_threads \<sigma>). writes_store (snd (cs_threads \<sigma> ! t)) \<longrightarrow> method_lock (fst (cs_threads \<sigma> ! t)) = Exclusive)"

definition order_ok :: "conc \<Rightarrow> bool" where
  "order_ok \<sigma> \<longleftrightarrow> distinct (map fst (cs_order \<sigma>)) \<and>
     (\<forall>t < length (cs_threads \<sigma>). snd (cs_threads \<sigma> ! t) \<noteq> At_lock \<longrightarrow> (t, fst (cs_threads \<sigma> ! t)) \<in> set (cs_order \<sigma>)) \<and>
     (\<forall>t m. (t, m) \<in> set (cs_order \<sigma>) \<longrightarrow> t < length (cs_threads \<sigma>) \<and> fst (cs_threads \<sigma> ! t) = m \<and> snd (cs_threads \<sigma> ! t) \<noteq> At_lock)"

definition results_ok :: "MemStore \<Rightarrow> conc \<Rightarrow> bool" where
  "results_ok s0 \<sigma> \<longleftrightarrow> (case serial s0 (cs_order \<sigma>) of (rs, s) \<Rightarrow>
     (\<forall>t < length (cs_threads \<sigma>). snd (cs_threads \<sigma> ! t) \<noteq> At_lock \<longrightarrow>
        map_of rs t = Some (fst (finish (cs_store \<sigma>) (snd (cs_threads \<sigma> ! t))))) \<and>
     (if rw_writer (cs_mu \<sigma>)
      then \<exists>t < length (cs_threads \<sigma>). inside Exclusive (cs_threads \<sigma> ! t) \<and> snd (finish (cs_store \<sigma>) (snd (cs_threads \<sigma> ! t))) = s
      else cs_store \<sigma> = s))"

definition conc_inv :: "MemStore \<Rightarrow> conc \<Rightarrow> bool" where
  "conc_inv s0 \<sigma> \<longleftrightarrow> locks_ok \<sigma> \<and> order_ok \<sigma> \<and> results_ok s0 \<sigma>"

lemma conc_inv_init: "conc_inv s0 (conc_init s0)"
  by (simp add: conc_inv_def conc_init_def locks_ok_def order_ok_def results_ok_def)

text \<open>A writer is alone in its critical section.\<close>

lemma writer_alone:
  assumes "locks_ok \<sigma>" "t < length (cs_threads \<sigma>)" "inside Exclusive (cs_threads \<sigma> ! t)"
    and "u < length (cs_threads \<sigma>)" "u \<noteq> t"
  shows "rw_writer (cs_mu \<sigma>) \<and> \<not> inside kind (cs_threads \<sigma> ! u)"
proof -
  let ?ts = "(cs_threads \<sigma>)[t := (fst (cs_threads \<sigma> ! t), At_lock)]"
  have w: "rw_writer (cs_mu \<sigma>)" using assms(1-3) none_counted [OF _ assms(2), of "inside Exclusive"] by (auto simp: locks_ok_def)
  then have "length (filter (inside Exclusive) ?ts) = 0"
    using length_filter_update [OF assms(2), of "inside Exclusive" "(fst (cs_threads \<sigma> ! t), At_lock)"] assms(1,3) by (simp add: locks_ok_def)
  then have "\<not> inside Exclusive (cs_threads \<sigma> ! u)"
    using none_counted [of "inside Exclusive" ?ts u] assms(4,5) by simp
  moreover have "\<not> inside Shared (cs_threads \<sigma> ! u)"
    using w assms(1,4) none_counted [of "inside Shared" "cs_threads \<sigma>" u] by (simp add: locks_ok_def)
  ultimately show ?thesis using w by (cases kind) auto
qed

subsection \<open>Every step keeps it\<close>

lemma thread_step_cases [consumes 1, case_names lock unlock body]:
  assumes "thread_step s mu m pc = Some (s', mu', pc')"
  obtains "pc = At_lock" "s' = s" "rw_lock (method_lock m) mu = Some mu'" "pc' = method_entry m"
  | r where "pc = Unlocking r" "s' = s" "rw_unlock (method_lock m) mu = Some mu'" "pc' = Done r"
  | "pc \<noteq> At_lock" "\<forall>r. pc \<noteq> Done r" "\<forall>r. pc \<noteq> Unlocking r" "mu' = mu" "s' = fst (method_step s pc)" "pc' = snd (method_step s pc)"
  using assms by (cases pc) (auto simp del: method_step.simps split: option.splits prod.splits)

lemma step_inside:
  assumes "pc \<noteq> At_lock" "\<forall>r. pc \<noteq> Done r"
  shows "snd (method_step s pc) \<noteq> At_lock \<and> (\<forall>r. snd (method_step s pc) \<noteq> Done r)"
  using assms by (cases "(s, pc)" rule: method_step.cases) (auto split: option.splits prod.splits)

lemma writes_store_entry: "writes_store (method_entry m) \<longrightarrow> method_lock m = Exclusive"
  by (cases m) auto

lemma locks_ok_step:
  assumes "locks_ok \<sigma>" "t < length (cs_threads \<sigma>)" "cs_threads \<sigma> ! t = (m, pc)"
    and "thread_step (cs_store \<sigma>) (cs_mu \<sigma>) m pc = Some (s, mu, pc')"
  shows "locks_ok \<lparr>cs_store = s, cs_mu = mu, cs_threads = (cs_threads \<sigma>)[t := (m, pc')], cs_order = ord\<rparr>"
proof -
  note count = length_filter_update [OF assms(2), of "inside kind" "(m, pc')" for kind, unfolded assms(3)]
  have pc: "writes_store pc \<longrightarrow> method_lock m = Exclusive"
    using assms(1-3) by (auto simp: locks_ok_def)
  let ?ts = "(cs_threads \<sigma>)[t := (m, pc')]"
  have upd: "\<forall>u < length ?ts. writes_store (snd (?ts ! u)) \<longrightarrow> method_lock (fst (?ts ! u)) = Exclusive"
    if "writes_store pc' \<longrightarrow> method_lock m = Exclusive"
    using that assms(1,2) by (auto simp: locks_ok_def nth_list_update)
  show ?thesis
    using assms(4)
  proof (cases rule: thread_step_cases)
    case lock
    with count [of Shared] count [of Exclusive] upd writes_store_entry [of m] assms(1) show ?thesis
      by (cases "method_lock m") (auto simp: locks_ok_def split: if_splits)
  next
    case (unlock r)
    with count [of Shared] count [of Exclusive] upd assms(1) show ?thesis
      by (cases "method_lock m") (auto simp: locks_ok_def split: if_splits)
  next
    case body
    have "inside kind (m, pc') = inside kind (m, pc)" for kind using step_inside body by (auto simp: inside_def)
    moreover have "writes_store pc' \<longrightarrow> method_lock m = Exclusive" using reads_only body(6) pc by auto
    ultimately show ?thesis using count [of Shared] count [of Exclusive] upd body(4) assms(1) by (simp add: locks_ok_def)
  qed
qed

lemma started_step:
  assumes "thread_step s mu m pc = Some (s', mu', pc')"
  shows "pc' \<noteq> At_lock"
  using assms
proof (cases rule: thread_step_cases)
  case lock
  then show ?thesis by (cases m) auto
qed (use step_inside in auto)

lemma order_ok_step:
  assumes "order_ok \<sigma>" "t < length (cs_threads \<sigma>)" "cs_threads \<sigma> ! t = (m, pc)" "pc' \<noteq> At_lock"
  shows "order_ok \<lparr>cs_store = s, cs_mu = mu, cs_threads = (cs_threads \<sigma>)[t := (m, pc')],
    cs_order = (if pc = At_lock then cs_order \<sigma> @ [(t, m)] else cs_order \<sigma>)\<rparr>"
proof (cases "pc = At_lock")
  case True
  then have "t \<notin> fst ` set (cs_order \<sigma>)" using assms(1,3) by (fastforce simp: order_ok_def)
  with True assms show ?thesis by (fastforce simp: order_ok_def nth_list_update)
next
  case False
  with assms show ?thesis by (fastforce simp: order_ok_def nth_list_update)
qed

lemma not_inside_done:
  assumes "\<not> inside (method_lock (fst x)) x" "snd x \<noteq> At_lock"
  shows "fst (finish s (snd x)) = fst (finish s' (snd x))"
  using assms by (auto simp: inside_def)

lemma the_writer:
  assumes "locks_ok \<sigma>" "results_ok s0 \<sigma>" "serial s0 (cs_order \<sigma>) = (rs, sx)"
    and "t < length (cs_threads \<sigma>)" "inside Exclusive (cs_threads \<sigma> ! t)"
  shows "snd (finish (cs_store \<sigma>) (snd (cs_threads \<sigma> ! t))) = sx"
proof -
  have "rw_writer (cs_mu \<sigma>)"
    using assms(1,4,5) none_counted [of "inside Exclusive" "cs_threads \<sigma>" t] by (auto simp: locks_ok_def)
  then obtain u where "u < length (cs_threads \<sigma>)" "inside Exclusive (cs_threads \<sigma> ! u)" "snd (finish (cs_store \<sigma>) (snd (cs_threads \<sigma> ! u))) = sx"
    using assms(2,3) by (auto simp: results_ok_def)
  with writer_alone [OF assms(1,4,5), of u Exclusive] show ?thesis by (cases "u = t") auto
qed

lemma results_lock:
  assumes inv: "conc_inv s0 \<sigma>" and t: "t < length (cs_threads \<sigma>)" "cs_threads \<sigma> ! t = (m, At_lock)"
    and lock: "rw_lock (method_lock m) (cs_mu \<sigma>) = Some mu"
  shows "results_ok s0 \<lparr>cs_store = cs_store \<sigma>, cs_mu = mu, cs_threads = (cs_threads \<sigma>)[t := (m, method_entry m)],
    cs_order = cs_order \<sigma> @ [(t, m)]\<rparr>"
proof -
  obtain rs sx where ser: "serial s0 (cs_order \<sigma>) = (rs, sx)" by fastforce
  have free: "\<not> rw_writer (cs_mu \<sigma>)" using lock by (cases "method_lock m") (auto split: if_splits)
  with inv ser have sx: "cs_store \<sigma> = sx" by (simp add: conc_inv_def results_ok_def)
  obtain r s' where run: "run_method sx m = (r, s')" by fastforce
  have new: "t \<notin> fst ` set (cs_order \<sigma>)" using inv t by (fastforce simp: conc_inv_def order_ok_def)
  note ser' = serial_snoc [OF ser new run]
  have fin: "finish sx (method_entry m) = (r, s')" using finish_entry run by simp
  have "method_entry m \<noteq> At_lock" by (cases m) auto
  moreover have "s' = sx" if "method_lock m = Shared" using that run by (cases m) auto
  moreover have "rw_writer mu \<longleftrightarrow> method_lock m = Exclusive" using lock free by (cases "method_lock m") (auto split: if_splits)
  ultimately show ?thesis
    using inv ser ser' sx fin t free by (cases "method_lock m") (auto simp: conc_inv_def results_ok_def nth_list_update)
qed

lemma results_unlock:
  assumes inv: "conc_inv s0 \<sigma>" and t: "t < length (cs_threads \<sigma>)" "cs_threads \<sigma> ! t = (m, Unlocking r)"
    and unlock: "rw_unlock (method_lock m) (cs_mu \<sigma>) = Some mu"
  shows "results_ok s0 \<lparr>cs_store = cs_store \<sigma>, cs_mu = mu, cs_threads = (cs_threads \<sigma>)[t := (m, Done r)], cs_order = cs_order \<sigma>\<rparr>"
proof -
  obtain rs sx where ser: "serial s0 (cs_order \<sigma>) = (rs, sx)" by fastforce
  note ok = inv [unfolded conc_inv_def]
  have old: "map_of rs t = Some r" using ok ser t by (simp add: results_ok_def)
  show ?thesis
  proof (cases "method_lock m")
    case Exclusive
    then have "cs_store \<sigma> = sx" using the_writer [of \<sigma> s0 rs sx t] ok ser t by simp
    with Exclusive unlock ok ser t old show ?thesis by (auto simp: results_ok_def nth_list_update split: if_splits)
  next
    case Shared
    then have free: "\<not> rw_writer (cs_mu \<sigma>)" using unlock ok by (auto simp: locks_ok_def split: if_splits)
    with Shared unlock ok ser t old show ?thesis by (auto simp: results_ok_def nth_list_update split: if_splits)
  qed
qed

lemma results_body:
  assumes inv: "conc_inv s0 \<sigma>" and t: "t < length (cs_threads \<sigma>)" "cs_threads \<sigma> ! t = (m, pc)"
    and pc: "pc \<noteq> At_lock" "\<forall>r. pc \<noteq> Done r"
  shows "results_ok s0 \<lparr>cs_store = fst (method_step (cs_store \<sigma>) pc), cs_mu = cs_mu \<sigma>,
    cs_threads = (cs_threads \<sigma>)[t := (m, snd (method_step (cs_store \<sigma>) pc))], cs_order = cs_order \<sigma>\<rparr>" (is "results_ok s0 ?\<sigma>")
proof -
  obtain rs sx where ser: "serial s0 (cs_order \<sigma>) = (rs, sx)" by fastforce
  note ok = inv [unfolded conc_inv_def]
  let ?s = "fst (method_step (cs_store \<sigma>) pc)" and ?pc = "snd (method_step (cs_store \<sigma>) pc)"
  have ins: "inside kind (m, ?pc) = inside kind (m, pc)" for kind using step_inside [OF pc] pc by (simp add: inside_def)
  have fin: "finish ?s ?pc = finish (cs_store \<sigma>) pc" by (rule finish_step)
  have others: "fst (finish ?s (snd (cs_threads \<sigma> ! u))) = fst (finish (cs_store \<sigma>) (snd (cs_threads \<sigma> ! u)))"
    if "u < length (cs_threads \<sigma>)" "u \<noteq> t" "snd (cs_threads \<sigma> ! u) \<noteq> At_lock" for u
  proof (cases "writes_store pc")
    case True
    then have "inside Exclusive (cs_threads \<sigma> ! t)" using ok t pc by (auto simp: locks_ok_def inside_def)
    with writer_alone [of \<sigma> t u] ok t that show ?thesis by (intro not_inside_done) auto
  next
    case False
    with reads_only show ?thesis by simp
  qed
  have res: "map_of rs u = Some (fst (finish ?s (snd (cs_threads ?\<sigma> ! u))))"
    if "u < length (cs_threads \<sigma>)" "snd (cs_threads ?\<sigma> ! u) \<noteq> At_lock" for u
    using that others fin ok ser t pc by (cases "u = t") (auto simp: results_ok_def)
  show ?thesis
  proof (cases "inside Exclusive (m, pc)")
    case True
    then have "rw_writer (cs_mu \<sigma>)" using ok t none_counted [of "inside Exclusive" "cs_threads \<sigma>" t] by (auto simp: locks_ok_def)
    moreover have "snd (finish ?s ?pc) = sx" using the_writer [of \<sigma> s0 rs sx t] ok ser t True fin by simp
    ultimately show ?thesis using res ser t True ins by (auto simp: results_ok_def intro!: exI [of _ t])
  next
    case False
    then have "\<not> writes_store pc" using ok t pc by (auto simp: locks_ok_def inside_def)
    then have s: "?s = cs_store \<sigma>" using reads_only by blast
    show ?thesis
    proof (cases "rw_writer (cs_mu \<sigma>)")
      case True
      then obtain u where "u < length (cs_threads \<sigma>)" "inside Exclusive (cs_threads \<sigma> ! u)" "snd (finish (cs_store \<sigma>) (snd (cs_threads \<sigma> ! u))) = sx"
        using ok ser by (auto simp: results_ok_def)
      moreover from this have "u \<noteq> t" using False t by auto
      ultimately show ?thesis using res ser s True by (auto simp: results_ok_def intro!: exI [of _ u])
    qed (use res ser s ok in \<open>auto simp: results_ok_def\<close>)
  qed
qed

lemma run_step_inv:
  assumes "run_step \<sigma> \<sigma>'" "conc_inv s0 \<sigma>"
  shows "conc_inv s0 \<sigma>'"
  using assms(1)
proof cases
  case (run_stepI t m pc s mu pc')
  have "results_ok s0 \<sigma>'"
    using run_stepI(4)
  proof (cases rule: thread_step_cases)
    case lock
    with results_lock [OF assms(2) run_stepI(2), of m mu] run_stepI show ?thesis by simp
  next
    case (unlock r)
    with results_unlock [OF assms(2) run_stepI(2), of m r mu] run_stepI show ?thesis by simp
  next
    case body
    with results_body [OF assms(2) run_stepI(2,3)] run_stepI show ?thesis by simp
  qed
  with assms(2) run_stepI locks_ok_step [OF _ run_stepI(2-4)] order_ok_step [OF _ run_stepI(2,3) started_step [OF run_stepI(4)]]
  show ?thesis by (simp add: conc_inv_def)
qed

lemma call_inv:
  assumes "conc_inv s0 \<sigma>"
  shows "conc_inv s0 (\<sigma>\<lparr>cs_threads := cs_threads \<sigma> @ [(m, At_lock)]\<rparr>)"
proof -
  let ?ts = "cs_threads \<sigma> @ [(m, At_lock)]"
  have old: "?ts ! t = cs_threads \<sigma> ! t" if "t < length (cs_threads \<sigma>)" for t using that by (simp add: nth_append)
  have new: "t = length (cs_threads \<sigma>)" "snd (?ts ! t) = At_lock" if "t < length ?ts" "\<not> t < length (cs_threads \<sigma>)" for t
    using that by (simp_all add: nth_append)
  have "locks_ok (\<sigma>\<lparr>cs_threads := ?ts\<rparr>)"
    using assms by (auto simp: conc_inv_def locks_ok_def nth_append less_Suc_eq)
  moreover have "order_ok (\<sigma>\<lparr>cs_threads := ?ts\<rparr>)"
    using assms by (fastforce simp: conc_inv_def order_ok_def nth_append less_Suc_eq)
  moreover have "results_ok s0 (\<sigma>\<lparr>cs_threads := ?ts\<rparr>)"
    using assms old by (fastforce simp: conc_inv_def results_ok_def nth_append less_Suc_eq split: prod.splits)
  ultimately show ?thesis by (simp add: conc_inv_def)
qed

lemma conc_inv_reach: "conc_reach \<sigma> \<sigma>' \<Longrightarrow> conc_inv s0 \<sigma> \<Longrightarrow> conc_inv s0 \<sigma>'"
  by (induction rule: conc_reach.induct) (auto elim!: conc_stepE intro: run_step_inv call_inv)

text \<open>The order of the locks only grows, by calls that had not got it before.\<close>

lemma order_grows:
  "conc_reach \<sigma> \<sigma>' \<Longrightarrow> order_ok \<sigma> \<Longrightarrow> length (cs_threads \<sigma>) \<le> length (cs_threads \<sigma>') \<and>
     (\<exists>later. cs_order \<sigma>' = cs_order \<sigma> @ later \<and>
        (\<forall>(t, m) \<in> set later. t < length (cs_threads \<sigma>) \<longrightarrow> cs_threads \<sigma> ! t = (m, At_lock))) \<and>
     (\<forall>t < length (cs_threads \<sigma>). fst (cs_threads \<sigma>' ! t) = fst (cs_threads \<sigma> ! t) \<and>
        (snd (cs_threads \<sigma>' ! t) = At_lock \<longrightarrow> snd (cs_threads \<sigma> ! t) = At_lock))"
proof (induction rule: conc_reach.induct)
  case (conc_refl \<sigma>)
  show ?case by simp
next
  case (conc_more \<sigma> \<sigma>' \<sigma>'')
  note IH = conc_more.IH [OF conc_more.prems]
  from conc_more.hyps(2) show ?case
  proof (cases rule: conc_step.cases)
    case (conc_call m)
    with IH show ?thesis by (auto simp: nth_append)
  next
    case conc_run
    then show ?thesis
    proof cases
      case (run_stepI t m pc s mu pc')
      then have "pc' \<noteq> At_lock" using started_step by blast
      moreover have "cs_threads \<sigma> ! t = (m, At_lock)" if "t < length (cs_threads \<sigma>)" "pc = At_lock"
        using IH run_stepI(3) that by (metis fst_conv prod.collapse snd_conv)
      ultimately show ?thesis using IH run_stepI by (auto simp: nth_list_update)
    qed
  qed
qed

subsection \<open>Every call returns\<close>

fun left :: "MemStore \<Rightarrow> pc \<Rightarrow> nat" where
  "left s (Get_lookup key) = 2"
| "left s (Apply_check record ws) = length ws + length (cr_Writes record) + 3"
| "left s (Apply_write ws) = length ws + 2"
| "left s (Load_write kvs) = length kvs + 2"
| "left s (Dump_read i result) = length (ms_data s) - i + 2"
| "left s (Unlocking r) = 1"
| "left s pc = 0"

definition work :: "conc \<Rightarrow> nat \<times> nat" where
  "work \<sigma> = (length (filter (\<lambda>x. snd x = At_lock) (cs_threads \<sigma>)),
     \<Sum>t < length (cs_threads \<sigma>). left (cs_store \<sigma>) (snd (cs_threads \<sigma> ! t)))"

lemma left_step:
  assumes "pc \<noteq> At_lock" "\<forall>r. pc \<noteq> Done r" "\<forall>r. pc \<noteq> Unlocking r"
  shows "left (fst (method_step s pc)) (snd (method_step s pc)) < left s pc"
  using assms by (cases "(s, pc)" rule: method_step.cases) (auto split: option.splits prod.splits)

lemma left_other:
  assumes "locks_ok \<sigma>" "t < length (cs_threads \<sigma>)" "cs_threads \<sigma> ! t = (m, pc)" "pc \<noteq> At_lock" "\<forall>r. pc \<noteq> Done r"
    and "u < length (cs_threads \<sigma>)" "u \<noteq> t"
  shows "left (fst (method_step (cs_store \<sigma>) pc)) (snd (cs_threads \<sigma> ! u)) = left (cs_store \<sigma>) (snd (cs_threads \<sigma> ! u))"
proof (cases "writes_store pc")
  case True
  then have "inside Exclusive (cs_threads \<sigma> ! t)" using assms by (auto simp: locks_ok_def inside_def)
  with writer_alone [OF assms(1,2) _ assms(6,7)] have "\<not> inside (method_lock (fst (cs_threads \<sigma> ! u))) (cs_threads \<sigma> ! u)" by blast
  then show ?thesis by (auto simp: inside_def)
next
  case False
  with reads_only show ?thesis by simp
qed

lemma work_decreases:
  assumes "run_step \<sigma> \<sigma>'" "locks_ok \<sigma>"
  shows "(work \<sigma>', work \<sigma>) \<in> less_than <*lex*> less_than"
  using assms(1)
proof cases
  case (run_stepI t m pc s mu pc')
  let ?P = "\<lambda>x. snd x = At_lock"
  note count = length_filter_update [OF run_stepI(2), of ?P "(m, pc')", unfolded run_stepI(3)]
  have started: "pc' \<noteq> At_lock" by (rule started_step [OF run_stepI(4)])
  show ?thesis
  proof (cases "pc = At_lock")
    case True
    with count started run_stepI(1) show ?thesis by (simp add: work_def)
  next
    case False
    then have starts: "fst (work \<sigma>') = fst (work \<sigma>)" using count started run_stepI(1) by (simp add: work_def)
    have "left s pc' < left (cs_store \<sigma>) pc \<and>
        (\<forall>u < length (cs_threads \<sigma>). u \<noteq> t \<longrightarrow> left s (snd (cs_threads \<sigma> ! u)) = left (cs_store \<sigma>) (snd (cs_threads \<sigma> ! u)))"
      using run_stepI(4)
    proof (cases rule: thread_step_cases)
      case body
      with left_step left_other [OF assms(2) run_stepI(2,3)] show ?thesis by simp
    qed (use False in auto)
    then have less: "left s pc' < left (cs_store \<sigma>) pc"
      and same: "(\<Sum>u \<in> {..<length (cs_threads \<sigma>)} - {t}. left s (snd (cs_threads \<sigma>' ! u)))
        = (\<Sum>u \<in> {..<length (cs_threads \<sigma>)} - {t}. left (cs_store \<sigma>) (snd (cs_threads \<sigma> ! u)))"
      using run_stepI(1) by (auto intro!: sum.cong)
    have "snd (work \<sigma>') < snd (work \<sigma>)"
      using run_stepI(1-3) less same by (simp add: work_def sum.remove [where x = t])
    with starts show ?thesis by (auto simp: work_def)
  qed
qed

lemma step_enabled:
  assumes "locks_ok \<sigma>" "t < length (cs_threads \<sigma>)" "\<forall>r. snd (cs_threads \<sigma> ! t) \<noteq> Done r"
  shows "\<exists>\<sigma>'. run_step \<sigma> \<sigma>'"
proof -
  have run: "\<exists>\<sigma>'. run_step \<sigma> \<sigma>'"
    if "u < length (cs_threads \<sigma>)" "thread_step (cs_store \<sigma>) (cs_mu \<sigma>) (fst (cs_threads \<sigma> ! u)) (snd (cs_threads \<sigma> ! u)) \<noteq> None" for u
    using that run_stepI [of u \<sigma>] by (cases "cs_threads \<sigma> ! u") fastforce
  show ?thesis
  proof (cases "\<exists>u < length (cs_threads \<sigma>). \<exists>kind. inside kind (cs_threads \<sigma> ! u)")
    case True
    then obtain u m pc where u: "u < length (cs_threads \<sigma>)" "cs_threads \<sigma> ! u = (m, pc)" "inside (method_lock m) (m, pc)"
      by (metis inside_def prod.collapse fst_conv)
    have "rw_unlock (method_lock m) (cs_mu \<sigma>) \<noteq> None"
      using assms(1) u none_counted [of "inside (method_lock m)" "cs_threads \<sigma>" u] by (cases "method_lock m") (auto simp: locks_ok_def)
    with u have "thread_step (cs_store \<sigma>) (cs_mu \<sigma>) m pc \<noteq> None"
      by (cases pc) (auto simp: inside_def simp del: method_step.simps split: prod.splits)
    with run [OF u(1)] u(2) show ?thesis by simp
  next
    case False
    then have none: "filter (inside kind) (cs_threads \<sigma>) = []" for kind
      by (auto simp: filter_empty_conv in_set_conv_nth) metis
    then have "rw_lock kind (cs_mu \<sigma>) \<noteq> None" for kind
      using assms(1) none [of Shared] none [of Exclusive] by (cases kind) (auto simp: locks_ok_def)
    moreover have "snd (cs_threads \<sigma> ! t) = At_lock" using False assms(2,3) by (auto simp: inside_def)
    ultimately show ?thesis using run [OF assms(2)] by (auto split: option.splits)
  qed
qed

subsection \<open>Properties\<close>

text \<open>A schedule names the call that takes each step.\<close>

fun run_threads :: "nat list \<Rightarrow> conc \<Rightarrow> conc option" where
  "run_threads [] \<sigma> = Some \<sigma>"
| "run_threads (t # ts) \<sigma> =
     (if t < length (cs_threads \<sigma>)
      then (case thread_step (cs_store \<sigma>) (cs_mu \<sigma>) (fst (cs_threads \<sigma> ! t)) (snd (cs_threads \<sigma> ! t)) of
              None \<Rightarrow> None
            | Some (s, mu, pc') \<Rightarrow>
                run_threads ts \<lparr>cs_store = s, cs_mu = mu, cs_threads = (cs_threads \<sigma>)[t := (fst (cs_threads \<sigma> ! t), pc')],
                  cs_order = (if snd (cs_threads \<sigma> ! t) = At_lock then cs_order \<sigma> @ [(t, fst (cs_threads \<sigma> ! t))] else cs_order \<sigma>)\<rparr>)
      else None)"

lemma run_threads_reach:
  assumes "run_threads ts \<sigma> = Some \<sigma>'" "conc_reach \<sigma>0 \<sigma>"
  shows "conc_reach \<sigma>0 \<sigma>'"
  using assms
proof (induction ts arbitrary: \<sigma>)
  case (Cons t ts)
  obtain m pc where t: "cs_threads \<sigma> ! t = (m, pc)" by fastforce
  with Cons.prems(1) obtain s mu pc' where step: "t < length (cs_threads \<sigma>)" "thread_step (cs_store \<sigma>) (cs_mu \<sigma>) m pc = Some (s, mu, pc')"
    by (auto split: if_splits option.splits)
  with Cons.IH [OF _ conc_more [OF Cons.prems(2) conc_run [OF run_stepI [OF step(1) t step(2)]]]] Cons.prems(1) t
  show ?case by (cases "pc = At_lock") simp_all
qed simp

text \<open>Two overlapping calls on an empty store: the second waits for the lock until the first has left.\<close>

abbreviation two_calls :: conc where
  "two_calls \<equiv> conc_init NewMemStore\<lparr>cs_threads := [(Call_LoadInitialData [(''x'', ''a'')], At_lock), (Call_Get ''x'', At_lock)]\<rparr>"

abbreviation two_returned :: conc where
  "two_returned \<equiv> \<lparr>cs_store = store_with ''x'' ''a'' 1, cs_mu = \<lparr>rw_writer = False, rw_readers = 0\<rparr>,
     cs_threads = [(Call_LoadInitialData [(''x'', ''a'')], Done Ret_LoadInitialData),
       (Call_Get ''x'', Done (Ret_Get \<lparr>rr_Value = ''a'', rr_Version = 1, rr_Found = True\<rparr>))],
     cs_order = [(0, Call_LoadInitialData [(''x'', ''a'')]), (1, Call_Get ''x'')]\<rparr>"

lemma two_calls_run:
  "conc_reach (conc_init NewMemStore) two_calls" "conc_reach two_calls two_returned"
  "run_step two_calls (two_calls\<lparr>cs_mu := \<lparr>rw_writer = True, rw_readers = 0\<rparr>,
     cs_threads := [(Call_LoadInitialData [(''x'', ''a'')], Load_write [(''x'', ''a'')]), (Call_Get ''x'', At_lock)],
     cs_order := [(0, Call_LoadInitialData [(''x'', ''a'')])]\<rparr>)"
proof -
  from conc_more [OF conc_more [OF conc_refl conc_call [of "conc_init NewMemStore" "Call_LoadInitialData [(''x'', ''a'')]"]] conc_call, of "Call_Get ''x''"]
  show "conc_reach (conc_init NewMemStore) two_calls" by (simp add: conc_init_def)
  have "run_threads [0, 0, 0, 0, 1, 1, 1] two_calls = Some two_returned" by (simp add: conc_init_def NewMemStore_def)
  then show "conc_reach two_calls two_returned" using conc_refl by (rule run_threads_reach)
  show "run_step two_calls (two_calls\<lparr>cs_mu := \<lparr>rw_writer = True, rw_readers = 0\<rparr>,
     cs_threads := [(Call_LoadInitialData [(''x'', ''a'')], Load_write [(''x'', ''a'')]), (Call_Get ''x'', At_lock)],
     cs_order := [(0, Call_LoadInitialData [(''x'', ''a'')])]\<rparr>)"
    using run_stepI [of 0 two_calls "Call_LoadInitialData [(''x'', ''a'')]" At_lock] by (simp add: conc_init_def)
qed

text \<open>\<^bold>\<open>C13.\<close> The store is linearizable: its methods, with their loops interleaved step by step in any way that the
  lock permits, return what they would return if they were run one after the other, each as a whole, in the
  order in which they got the lock; and whenever no writer holds the lock, the store holds what that serial
  run leaves. The order respects time: a call that begins after another one has returned comes after it.\<close>

theorem memstore_linearizable:
  assumes "conc_reach (conc_init s0) \<sigma>" "conc_reach \<sigma> \<sigma>'"
  shows "(\<exists>later. cs_order \<sigma>' = cs_order \<sigma> @ later \<and>
      (\<forall>t m r. t < length (cs_threads \<sigma>) \<and> cs_threads \<sigma> ! t = (m, Done r) \<longrightarrow> (t, m) \<in> set (cs_order \<sigma>)) \<and>
      (\<forall>(t, m) \<in> set later. t < length (cs_threads \<sigma>) \<longrightarrow> cs_threads \<sigma> ! t = (m, At_lock))) \<and>
    distinct (map fst (cs_order \<sigma>')) \<and>
    (case serial s0 (cs_order \<sigma>') of (rs, s) \<Rightarrow>
      (\<forall>t m r. t < length (cs_threads \<sigma>') \<and> cs_threads \<sigma>' ! t = (m, Done r) \<longrightarrow>
         (t, m) \<in> set (cs_order \<sigma>') \<and> map_of rs t = Some r) \<and>
      (\<not> rw_writer (cs_mu \<sigma>') \<longrightarrow> cs_store \<sigma>' = s))"
proof -
  have inv: "conc_inv s0 \<sigma>" by (rule conc_inv_reach [OF assms(1) conc_inv_init])
  have inv': "conc_inv s0 \<sigma>'" by (rule conc_inv_reach [OF assms(2) inv])
  obtain rs s where ser: "serial s0 (cs_order \<sigma>') = (rs, s)" by fastforce
  have done_in: "(t, m) \<in> set (cs_order x)" if "conc_inv s0 x" "t < length (cs_threads x)" "cs_threads x ! t = (m, Done r)" for x t m r
    using that by (auto simp: conc_inv_def order_ok_def)
  have "map_of rs t = Some r" if "t < length (cs_threads \<sigma>')" "cs_threads \<sigma>' ! t = (m, Done r)" for t m r
    using inv' that ser by (auto simp: conc_inv_def results_ok_def)
  moreover have "cs_store \<sigma>' = s" if "\<not> rw_writer (cs_mu \<sigma>')"
    using inv' that ser by (simp add: conc_inv_def results_ok_def)
  moreover have "distinct (map fst (cs_order \<sigma>'))" using inv' by (simp add: conc_inv_def order_ok_def)
  moreover obtain later where "cs_order \<sigma>' = cs_order \<sigma> @ later"
    "\<forall>(t, m) \<in> set later. t < length (cs_threads \<sigma>) \<longrightarrow> cs_threads \<sigma> ! t = (m, At_lock)"
    using order_grows [OF assms(2)] inv by (auto simp: conc_inv_def)
  ultimately show ?thesis using done_in [OF inv] done_in [OF inv'] ser by auto
qed

theorem memstore_linearizable_witness:
  "map_of (fst (serial NewMemStore (cs_order two_returned))) 1 = Some (Ret_Get \<lparr>rr_Value = ''a'', rr_Version = 1, rr_Found = True\<rparr>) \<and>
     cs_store two_returned = snd (serial NewMemStore (cs_order two_returned)) \<and>
     cs_order two_returned = cs_order two_calls @ [(0, Call_LoadInitialData [(''x'', ''a'')]), (1, Call_Get ''x'')]"
proof -
  have r: "cs_threads two_returned ! 1 = (Call_Get ''x'', Done (Ret_Get \<lparr>rr_Value = ''a'', rr_Version = 1, rr_Found = True\<rparr>))"
    "1 < length (cs_threads two_returned)" by simp_all
  have "case serial NewMemStore (cs_order two_returned) of (rs, s) \<Rightarrow>
      map_of rs 1 = Some (Ret_Get \<lparr>rr_Value = ''a'', rr_Version = 1, rr_Found = True\<rparr>) \<and> cs_store two_returned = s"
    using memstore_linearizable [OF two_calls_run(1,2)] r by (auto simp del: serial.simps run_method.simps)
  then show ?thesis by (simp add: conc_init_def case_prod_beta del: serial.simps run_method.simps)
qed

text \<open>\<^bold>\<open>C15.\<close> The store never deadlocks and every call returns: without new calls the calls in progress take only finitely many
  steps, however they are scheduled, and when none can take a step all of them have returned and the lock is
  free. In particular no method unlocks a lock that it does not hold.\<close>

theorem memstore_calls_return:
  assumes "conc_reach (conc_init s0) \<sigma>"
  shows "(\<nexists>f. f 0 = \<sigma> \<and> (\<forall>n. run_step (f n) (f (Suc n)))) \<and>
    ((\<nexists>\<sigma>'. run_step \<sigma> \<sigma>') \<longrightarrow> (\<forall>(m, pc) \<in> set (cs_threads \<sigma>). \<exists>r. pc = Done r) \<and>
       cs_mu \<sigma> = \<lparr>rw_writer = False, rw_readers = 0\<rparr>)"
proof
  have inv: "conc_inv s0 \<sigma>" by (rule conc_inv_reach [OF assms conc_inv_init])
  show "\<nexists>f. f 0 = \<sigma> \<and> (\<forall>n. run_step (f n) (f (Suc n)))"
  proof
    assume "\<exists>f. f 0 = \<sigma> \<and> (\<forall>n. run_step (f n) (f (Suc n)))"
    then obtain f where f: "f 0 = \<sigma>" "\<forall>n. run_step (f n) (f (Suc n))" by blast
    have "conc_inv s0 (f n)" for n using f inv by (induction n) (auto intro: run_step_inv)
    with f(2) have "(work (f (Suc n)), work (f n)) \<in> less_than <*lex*> less_than" for n
      using work_decreases by (simp add: conc_inv_def)
    moreover have "wf (less_than <*lex*> less_than)" by (intro wf_lex_prod wf_less_than)
    ultimately show False by (meson wf_iff_no_infinite_down_chain)
  qed
  show "(\<nexists>\<sigma>'. run_step \<sigma> \<sigma>') \<longrightarrow> (\<forall>(m, pc) \<in> set (cs_threads \<sigma>). \<exists>r. pc = Done r) \<and> cs_mu \<sigma> = \<lparr>rw_writer = False, rw_readers = 0\<rparr>"
  proof
    assume stuck: "\<nexists>\<sigma>'. run_step \<sigma> \<sigma>'"
    then have ret: "\<forall>(m, pc) \<in> set (cs_threads \<sigma>). \<exists>r. pc = Done r"
      using step_enabled [of \<sigma>] inv by (fastforce simp: conc_inv_def in_set_conv_nth)
    then have "filter (inside kind) (cs_threads \<sigma>) = []" for kind by (auto simp: filter_empty_conv)
    from this [of Shared] this [of Exclusive] inv have "\<not> rw_writer (cs_mu \<sigma>)" "rw_readers (cs_mu \<sigma>) = 0"
      by (auto simp: conc_inv_def locks_ok_def)
    then have "cs_mu \<sigma> = \<lparr>rw_writer = False, rw_readers = 0\<rparr>" by (cases "cs_mu \<sigma>") simp
    with ret show "(\<forall>(m, pc) \<in> set (cs_threads \<sigma>). \<exists>r. pc = Done r) \<and> cs_mu \<sigma> = \<lparr>rw_writer = False, rw_readers = 0\<rparr>" by blast
  qed
qed

theorem memstore_calls_return_witness:
  "(\<exists>\<sigma>'. run_step two_calls \<sigma>') \<and> (\<nexists>f. f 0 = two_calls \<and> (\<forall>n. run_step (f n) (f (Suc n))))"
  using memstore_calls_return [OF two_calls_run(1)] two_calls_run(3) by blast

end
