(* ===== verification/Service.thy ===== *)
theory Service
  imports Remote Locking
begin

text \<open>
  A gRPC server whose handlers run to their end on their own, from its \<open>main\<close> function to its exit: the
  storage server (\<open>src/cmd/storage-server/main.go\<close>), and the certifier server in immediate mode
  (\<open>src/cmd/ccaas-server/main.go\<close>, whose \<open>main\<close> is in \<open>Servers\<close>).

  \<^item> A \<open>main\<close> function ends in \<open>log.Fatalf\<close> or in a panic, or it is \<open>Up\<close> when it gets to \<open>srv.Serve\<close>. The
    flags are arguments, with their defaults as definitions. \<open>listen\<close> stands for \<open>net.Listen\<close> on TCP and
    gives the error, if there is one.
  \<^item> \<open>svc_step\<close> is the life of the server: calls are accepted while it serves; each is handled on a goroutine
    of its own; the signal goroutine logs a line and calls \<open>GracefulStop\<close>. \<open>route\<close> is what the library does
    with a call, up to the reply: it finds the method, decodes the request and runs the handler. That a call
    takes effect at one moment is \<open>memstore_linearizable\<close> for the store; the certifier holds its mutex from the
    first line of a method to the last.
  \<^item> \<open>idle\<close> says for which calls in progress \<open>GracefulStop\<close> returns; the library documents that it waits for
    the calls in progress, \<open>waits_for_pending\<close>, and it returns when there are none, \<open>idle []\<close>.
  \<^item> \<open>svc_accepted\<close> records the calls that were accepted; the code does not keep it.
\<close>

subsection \<open>Start\<close>

definition storage_port_default :: int where
  "storage_port_default = 50051"

definition storage_main ::
    "(string \<Rightarrow> string option) \<Rightarrow> int \<Rightarrow> string list \<times> (MemStore \<times> string \<times> (string \<times> MemStore handler) list) boot" where
  "storage_main listen port =
     (let store = NewMemStore;
          srv = StorageService_ServiceDesc MemStore_ops
      in case listen ('':'' @ Itoa port) of
           Some err \<Rightarrow> ([], Fatal (''failed to listen: '' @ err))
         | None \<Rightarrow> ([''Storage server listening on :'' @ Itoa port], Up (store, srv)))"

definition storage_bye :: string where
  "storage_bye = ''shutting down storage server...''"

subsection \<open>Life\<close>

datatype server_phase = Serving | Stopping | Graceful | Exited | Failed

definition alive :: "server_phase \<Rightarrow> bool" where
  "alive ph \<longleftrightarrow> ph \<noteq> Exited \<and> ph \<noteq> Failed"

lemma alive_simps [simp]: "alive Serving" "alive Stopping" "alive Graceful" "\<not> alive Exited" "\<not> alive Failed"
  by (simp_all add: alive_def)

definition waits_for_pending :: "(nat list \<Rightarrow> bool) \<Rightarrow> bool" where
  "waits_for_pending idle \<longleftrightarrow> (\<forall>pend. idle pend \<longrightarrow> pend = [])"

record svc_call =
  sc_id :: nat
  sc_path :: string
  sc_msg :: message

record 'w svc =
  svc_state :: 'w
  svc_phase :: server_phase
  svc_calls :: "svc_call list"
  svc_replies :: "(svc_call \<times> (string + message)) list"
  svc_accepted :: "svc_call list"
  svc_log :: "string list"

definition svc_init :: "'w \<Rightarrow> string list \<Rightarrow> 'w svc" where
  "svc_init w lines =
     \<lparr>svc_state = w, svc_phase = Serving, svc_calls = [], svc_replies = [], svc_accepted = [], svc_log = lines\<rparr>"

inductive svc_step :: "'w invoke \<Rightarrow> string \<Rightarrow> (nat list \<Rightarrow> bool) \<Rightarrow> 'w svc \<Rightarrow> 'w svc \<Rightarrow> bool" for route bye idle where
  svc_accept: "svc_phase sv = Serving \<Longrightarrow> sc_id call \<notin> sc_id ` set (svc_accepted sv) \<Longrightarrow>
    svc_step route bye idle sv (sv\<lparr>svc_calls := svc_calls sv @ [call], svc_accepted := svc_accepted sv @ [call]\<rparr>)"
| svc_handle: "alive (svc_phase sv) \<Longrightarrow> call \<in> set (svc_calls sv) \<Longrightarrow>
    route (svc_state sv) (sc_path call) (sc_msg call) = (r, w) \<Longrightarrow>
    svc_step route bye idle sv
      (sv\<lparr>svc_state := w, svc_calls := remove1 call (svc_calls sv), svc_replies := svc_replies sv @ [(call, r)]\<rparr>)"
| svc_signal: "svc_phase sv = Serving \<Longrightarrow>
    svc_step route bye idle sv (sv\<lparr>svc_phase := Graceful, svc_log := svc_log sv @ [bye]\<rparr>)"
| svc_exit: "svc_phase sv = Graceful \<Longrightarrow> idle (map sc_id (svc_calls sv)) \<Longrightarrow>
    svc_step route bye idle sv (sv\<lparr>svc_phase := Exited\<rparr>)"
| svc_fail: "svc_phase sv = Serving \<Longrightarrow>
    svc_step route bye idle sv (sv\<lparr>svc_phase := Failed, svc_log := svc_log sv @ [''server error: '' @ err]\<rparr>)"

inductive svc_reach :: "'w invoke \<Rightarrow> string \<Rightarrow> (nat list \<Rightarrow> bool) \<Rightarrow> 'w svc \<Rightarrow> 'w svc \<Rightarrow> bool" for route bye idle where
  svc_refl: "svc_reach route bye idle sv sv"
| svc_more: "svc_reach route bye idle sv sv' \<Longrightarrow> svc_step route bye idle sv' sv'' \<Longrightarrow> svc_reach route bye idle sv sv''"

subsection \<open>The calls of a server\<close>

text \<open>Every accepted call is in progress or has one reply, and after the exit none is in progress.\<close>

definition svc_ok :: "'w svc \<Rightarrow> bool" where
  "svc_ok sv \<longleftrightarrow> mset (svc_calls sv) + mset (map fst (svc_replies sv)) = mset (svc_accepted sv) \<and>
     distinct (map sc_id (svc_accepted sv)) \<and> (svc_phase sv = Exited \<longrightarrow> svc_calls sv = [])"

lemma svc_ok_step:
  assumes "svc_step route bye idle sv sv'" "svc_ok sv" "waits_for_pending idle"
  shows "svc_ok sv'"
  using assms(1)
proof cases
  case (svc_handle call r w)
  then have "add_mset call (mset (remove1 call (svc_calls sv))) = mset (svc_calls sv)" by simp
  moreover have "mset (svc_calls sv) + mset (map fst (svc_replies sv)) = mset (svc_accepted sv)" using assms(2) by (simp add: svc_ok_def)
  ultimately have "mset (svc_calls sv') + mset (map fst (svc_replies sv')) = mset (svc_accepted sv')"
    using svc_handle(1) by (simp add: union_mset_add_mset_left [symmetric] del: mset_remove1 union_mset_add_mset_left)
  with svc_handle assms(2) show ?thesis by (auto simp: svc_ok_def)
next
  case svc_exit
  with assms(2,3) show ?thesis by (auto simp: svc_ok_def waits_for_pending_def)
qed (use assms(2) in \<open>auto simp: svc_ok_def\<close>)

lemma svc_ok_reach:
  assumes "svc_reach route bye idle sv sv'" "svc_ok sv" "waits_for_pending idle"
  shows "svc_ok sv'"
  using assms(1,2) by (induction rule: svc_reach.induct) (auto intro: svc_ok_step [OF _ _ assms(3)])

lemma svc_ok_init: "svc_ok (svc_init w lines)"
  by (simp add: svc_ok_def svc_init_def)

lemma graceful_enabled:
  assumes "svc_phase sv = Graceful" "idle []"
  shows "\<exists>sv'. svc_step route bye idle sv sv'"
proof (cases "svc_calls sv")
  case Nil
  then show ?thesis using assms svc_exit [of sv idle route bye] by auto
next
  case (Cons call calls)
  obtain r w where "route (svc_state sv) (sc_path call) (sc_msg call) = (r, w)" by fastforce
  then show ?thesis using Cons assms svc_handle [of sv call route r w bye idle] by auto
qed

lemma graceful_step:
  assumes "svc_step route bye idle sv sv'" "svc_phase sv = Graceful"
  shows "svc_accepted sv' = svc_accepted sv \<and>
    (svc_phase sv' = Exited \<or> svc_phase sv' = Graceful \<and> length (svc_calls sv') < length (svc_calls sv))"
  using assms by (cases rule: svc_step.cases) (auto simp: length_remove1 dest: length_pos_if_in_set)

subsection \<open>Properties\<close>


abbreviation get_call :: svc_call where
  "get_call \<equiv> \<lparr>sc_id = 0, sc_path = StorageService_Get_FullMethodName, sc_msg = M_GetRequest \<lparr>gq_Key = ''x''\<rparr>\<rparr>"


end
