(* ===== verification/Servers.thy ===== *)
theory Servers
  imports Service
begin

text \<open>
  The certifier server, \<open>src/cmd/ccaas-server/main.go\<close>.

  \<^item> \<open>ccaas_main\<close>: from the flags to \<open>srv.Serve\<close>. \<open>dial\<close> stands for \<open>grpc.NewClient\<close> and gives an error or a
    connection to the storage server, \<open>listen\<close> for \<open>net.Listen\<close>. That the connection was made does not mean
    that a storage server answers on it.
  \<^item> In immediate mode the server then lives as in \<open>Service\<close>. \<open>server_step\<close> is its life in epoch mode. A call is
    \<open>arrived\<close> until its handler has done its work: a submission is then in the batch and \<open>waiting\<close> until the
    handler receives the result and responds; a synchronisation, which takes the certifier's mutex for all
    that it does, is one step and has its response. The signal goroutine calls \<open>Stop\<close>, which returns when
    \<open>doneCh\<close> is closed, and then \<open>GracefulStop\<close>; calls are accepted until then. Between \<open>Stop\<close> and the drain
    the goroutine may still take a tick that had fired before.
  \<^item> As in \<open>Service\<close>, \<open>idle\<close> says for which calls in progress \<open>GracefulStop\<close> returns, and \<open>sv_calls\<close> records the
    calls that were accepted; the code does not keep it.
  \<^item> \<open>server_safe\<close>: what the storage server holds is the serial result of the requests that were answered
    as committed. \<open>calls_ok\<close>, \<open>drained\<close> and \<open>stranded\<close>: which calls get an answer, and which do not.
\<close>

subsection \<open>Start\<close>

record ccaas_flags =
  cf_port :: int
  cf_storageAddr :: string
  cf_epochMs :: int

definition ccaas_defaults :: ccaas_flags where
  "ccaas_defaults = \<lparr>cf_port = 50052, cf_storageAddr = ''localhost:50051'', cf_epochMs = 0\<rparr>"

datatype certifier = Immediate_mode ImmediateCertifier | Epoch_mode EpochCertifier

definition new_certifier :: "'s invoke \<Rightarrow> int \<Rightarrow> 's \<Rightarrow> string list \<times> (certifier \<times> 's) boot" where
  "new_certifier storageConn epochMs s =
     (let storeClient = GRPCStoreClient_ops storageConn
      in if epochMs > 0
         then (case NewEpochCertifier storeClient s (wrap64 (epochMs * 10 ^ 6)) of
                 (epochCertifier, s') \<Rightarrow>
                   (case EpochCertifier_Start epochCertifier of
                      Inl p \<Rightarrow> ([], Panicked p)
                    | Inr c \<Rightarrow> ([''Using epoch-based certification ('' @ Itoa epochMs @ ''ms)''], Up (Epoch_mode c, s'))))
         else (case NewImmediateCertifier storeClient s of
                 (c, s') \<Rightarrow> ([''Using immediate certification''], Up (Immediate_mode c, s'))))"

definition ccaas_main ::
    "(string \<Rightarrow> string + 's invoke) \<Rightarrow> (string \<Rightarrow> string option) \<Rightarrow> ccaas_flags \<Rightarrow> 's \<Rightarrow> string list \<times> (certifier \<times> 's) boot" where
  "ccaas_main dial listen flags s =
     (case dial (cf_storageAddr flags) of
        Inl err \<Rightarrow> ([], Fatal (''failed to connect to storage at '' @ cf_storageAddr flags @ '': '' @ err))
      | Inr storageConn \<Rightarrow>
          (case new_certifier storageConn (cf_epochMs flags) s of
             (lines, Up (certifier, s')) \<Rightarrow>
               (case listen ('':'' @ Itoa (cf_port flags)) of
                  Some err \<Rightarrow> (lines, Fatal (''failed to listen: '' @ err))
                | None \<Rightarrow> (lines @ [''CCaaS server listening on :'' @ Itoa (cf_port flags) @
                                    '', connected to storage at '' @ cf_storageAddr flags], Up (certifier, s')))
           | res \<Rightarrow> res))"

definition ccaas_bye :: string where
  "ccaas_bye = ''shutting down CCaaS server...''"

subsection \<open>Life in epoch mode\<close>

datatype server_call = Submit_call TxnRequest | Sync_call

datatype server_reply = Result_reply TxnResult | Sync_reply

record 's server =
  sv_life :: "'s life_state"
  sv_phase :: server_phase
  sv_arrived :: "(nat \<times> server_call) list"
  sv_waiting :: "nat list"
  sv_responses :: "(nat \<times> server_reply) list"
  sv_calls :: "(nat \<times> server_call) list"

definition in_progress :: "'s server \<Rightarrow> nat list" where
  "in_progress sv = map fst (sv_arrived sv) @ sv_waiting sv"

definition fresh_call :: "'s server \<Rightarrow> nat \<Rightarrow> bool" where
  "fresh_call sv ch \<longleftrightarrow> ch \<notin> fst ` set (sv_calls sv)"

inductive server_step ::
    "'s Store \<Rightarrow> (pendingTxn list \<Rightarrow> pendingTxn list) \<Rightarrow> (nat list \<Rightarrow> bool) \<Rightarrow> 's server \<Rightarrow> 's server \<Rightarrow> bool"
  for ops srt idle where
  sv_arrive: "sv_phase sv = Serving \<or> sv_phase sv = Stopping \<Longrightarrow> fresh_call sv ch \<Longrightarrow>
    server_step ops srt idle sv
      (sv\<lparr>sv_arrived := sv_arrived sv @ [(ch, call)], sv_calls := sv_calls sv @ [(ch, call)]\<rparr>)"
| sv_submit: "(ch, Submit_call req) \<in> set (sv_arrived sv) \<Longrightarrow> epoch_life ops srt (sv_life sv) (Submit ch req) x \<Longrightarrow>
    alive (sv_phase sv) \<Longrightarrow> server_step ops srt idle sv
      (sv\<lparr>sv_life := x, sv_arrived := removeAll (ch, Submit_call req) (sv_arrived sv), sv_waiting := ch # sv_waiting sv\<rparr>)"
| sv_respond: "ch \<in> set (sv_waiting sv) \<Longrightarrow> EpochCertifier_Receive (snd (snd (sv_life sv))) ch = Some r \<Longrightarrow>
    alive (sv_phase sv) \<Longrightarrow> server_step ops srt idle sv
      (sv\<lparr>sv_waiting := removeAll ch (sv_waiting sv), sv_responses := sv_responses sv @ [(ch, Result_reply r)]\<rparr>)"
| sv_sync: "(ch, Sync_call) \<in> set (sv_arrived sv) \<Longrightarrow>
    EpochCertifier_SyncFromStorage ops (fst (sv_life sv)) (fst (snd (sv_life sv))) = (c, s) \<Longrightarrow>
    alive (sv_phase sv) \<Longrightarrow> server_step ops srt idle sv
      (sv\<lparr>sv_life := (c, s, snd (snd (sv_life sv))), sv_arrived := removeAll (ch, Sync_call) (sv_arrived sv),
          sv_responses := sv_responses sv @ [(ch, Sync_reply)]\<rparr>)"
| sv_run: "ev = Tick \<or> ev = Drain \<Longrightarrow> epoch_life ops srt (sv_life sv) ev x \<Longrightarrow>
    alive (sv_phase sv) \<Longrightarrow> server_step ops srt idle sv (sv\<lparr>sv_life := x\<rparr>)"
| sv_signal: "sv_phase sv = Serving \<Longrightarrow> epoch_life ops srt (sv_life sv) Stop x \<Longrightarrow>
    server_step ops srt idle sv (sv\<lparr>sv_life := x, sv_phase := Stopping\<rparr>)"
| sv_stopped: "sv_phase sv = Stopping \<Longrightarrow> doneCh_closed (fst (sv_life sv)) \<Longrightarrow>
    server_step ops srt idle sv (sv\<lparr>sv_phase := Graceful\<rparr>)"
| sv_exit: "sv_phase sv = Graceful \<Longrightarrow> idle (in_progress sv) \<Longrightarrow>
    server_step ops srt idle sv (sv\<lparr>sv_phase := Exited\<rparr>)"
| sv_fail: "sv_phase sv = Serving \<Longrightarrow> server_step ops srt idle sv (sv\<lparr>sv_phase := Failed\<rparr>)"

inductive server_reach ::
    "'s Store \<Rightarrow> (pendingTxn list \<Rightarrow> pendingTxn list) \<Rightarrow> (nat list \<Rightarrow> bool) \<Rightarrow> 's server \<Rightarrow> 's server \<Rightarrow> bool"
  for ops srt idle where
  server_refl: "server_reach ops srt idle sv sv"
| server_more: "server_reach ops srt idle sv sv' \<Longrightarrow> server_step ops srt idle sv' sv'' \<Longrightarrow> server_reach ops srt idle sv sv''"

definition server_init :: "EpochCertifier \<Rightarrow> 's \<Rightarrow> 's server" where
  "server_init c s =
     \<lparr>sv_life = (c, s, []), sv_phase = Serving, sv_arrived = [], sv_waiting = [], sv_responses = [], sv_calls = []\<rparr>"

subsection \<open>The calls in progress\<close>

text \<open>Every waiting call has its transaction in the batch or its answer in the channel, and the goroutine runs
  until it closes \<open>doneCh\<close>. Every call that was accepted is in progress or has a response, which is the
  certifier's answer, and the batch holds the requests of the calls.\<close>

definition calls_ok :: "'s server \<Rightarrow> bool" where
  "calls_ok sv \<longleftrightarrow> (case sv_life sv of (c, s, chs) \<Rightarrow>
     distinct (map p_resultCh (currentBatch c)) \<and> (\<forall>p \<in> set (currentBatch c). map_of chs (p_resultCh p) = None) \<and>
     (\<forall>ch \<in> set (sv_waiting sv). map_of chs ch \<noteq> None \<or> ch \<in> p_resultCh ` set (currentBatch c)) \<and>
     runners c = (if doneCh_closed c then 0 else 1) \<and> (sv_phase sv \<noteq> Serving \<and> sv_phase sv \<noteq> Failed \<longrightarrow> stopCh_closed c))"

definition replies_ok :: "'s server \<Rightarrow> bool" where
  "replies_ok sv \<longleftrightarrow> (case sv_life sv of (c, s, chs) \<Rightarrow>
     distinct (map fst (sv_calls sv)) \<and> set (sv_arrived sv) \<subseteq> set (sv_calls sv) \<and>
     fst ` set (sv_calls sv) \<subseteq> set (in_progress sv) \<union> fst ` set (sv_responses sv) \<and>
     (\<forall>p \<in> set (currentBatch c). (p_resultCh p, Submit_call (p_req p)) \<in> set (sv_calls sv)) \<and>
     (\<forall>ch r. (ch, Result_reply r) \<in> set (sv_responses sv) \<longrightarrow> map_of chs ch = Some r))"

text \<open>A turn of the goroutine answers the whole batch.\<close>

lemma turn_answers:
  assumes "epoch_life ops srt (c, s, chs) ev (c', s', chs')" "ev = Tick \<or> ev = Drain" "sortSlice_spec txn_key srt"
    and "distinct (map p_resultCh (currentBatch c))" "\<forall>p \<in> set (currentBatch c). map_of chs (p_resultCh p) = None"
  shows "currentBatch c' = [] \<and> (\<forall>ch. ch \<in> p_resultCh ` set (currentBatch c) \<or> map_of chs ch \<noteq> None \<longrightarrow> map_of chs' ch \<noteq> None) \<and>
    (\<forall>ch r. map_of chs ch = Some r \<longrightarrow> map_of chs' ch = Some r)"
proof -
  obtain c0 s0 chs0 where p: "processEpoch ops srt c s chs = (LoopDone, c0, s0, chs0)" "currentBatch c0 = []"
    "\<forall>p \<in> set (currentBatch c). \<exists>r. EpochCertifier_Receive chs0 (p_resultCh p) = Some r \<and> res_TxnID r = txn_key p"
    "\<forall>ch. ch \<notin> p_resultCh ` set (currentBatch c) \<longrightarrow> map_of chs0 ch = map_of chs ch"
    using processEpoch_answers [OF assms(3-5), of ops s] by blast
  have "currentBatch c' = currentBatch c0 \<and> chs' = chs0"
    using assms(1) by (cases rule: epoch_life.cases) (use assms(2) p(1) in auto)
  moreover have "map_of chs0 ch = Some r" if "map_of chs ch = Some r" for ch r
  proof -
    have "ch \<notin> p_resultCh ` set (currentBatch c)" using assms(5) that by auto
    with p(4) that show ?thesis by simp
  qed
  moreover have "map_of chs0 ch \<noteq> None" if "ch \<in> p_resultCh ` set (currentBatch c)" for ch
    using p(3) that by (fastforce simp: EpochCertifier_Receive_def)
  ultimately show ?thesis using p(2) by auto
qed

lemma processEpoch_flags:
  assumes "processEpoch ops srt c s chs = (e, c', s', chs')"
  shows "doneCh_closed c' = doneCh_closed c" "stopCh_closed c' = stopCh_closed c"
  by (subst processEpoch_frame [OF assms], simp)+

lemma life_flags:
  assumes "epoch_life ops srt (c, s, chs) ev (c', s', chs')" "ev \<noteq> Start"
  shows "runners c' = runners c - of_bool (ev = Drain) \<and> doneCh_closed c' = (doneCh_closed c \<or> ev = Drain) \<and>
    stopCh_closed c' = (stopCh_closed c \<or> ev = Stop) \<and> (ev = Tick \<or> ev = Drain \<longrightarrow> 0 < runners c)"
  using assms
  by (cases rule: epoch_life.cases)
     (auto simp: EpochCertifier_Submit_def EpochCertifier_Stop_def processEpoch_flags processEpoch_runners
       split: option.splits if_splits)

lemma life_stop_frame:
  "epoch_life ops srt (c, s, chs) Stop (c', s', chs') \<Longrightarrow> currentBatch c' = currentBatch c \<and> chs' = chs"
  by (erule epoch_life.cases) (auto simp: EpochCertifier_Stop_def split: option.splits if_splits)

lemma sync_frame:
  "EpochCertifier_SyncFromStorage ops c s = (c', s') \<Longrightarrow> currentBatch c' = currentBatch c \<and> runners c' = runners c \<and>
   doneCh_closed c' = doneCh_closed c \<and> stopCh_closed c' = stopCh_closed c"
  by (auto simp: EpochCertifier_SyncFromStorage_def split: prod.splits)

lemma calls_ok_step:
  assumes "calls_ok sv" "server_step ops srt idle sv sv'" "sortSlice_spec txn_key srt"
  shows "calls_ok sv'"
proof -
  obtain c s chs where l: "sv_life sv = (c, s, chs)" by (cases "sv_life sv")
  note ok = assms(1) [unfolded calls_ok_def l prod.case]
  show ?thesis
    using assms(2)
  proof (cases rule: server_step.cases)
    case (sv_submit ch req x)
    then have x: "x = (EpochCertifier_Submit c ch req, s, chs)" "ch \<notin> p_resultCh ` set (currentBatch c)" "map_of chs ch = None"
      by (auto simp: l elim: life_submitE)
    show ?thesis using ok x(2,3) by (auto simp: calls_ok_def sv_submit(1) x(1) EpochCertifier_Submit_def)
  next
    case (sv_run ev x)
    obtain c' s' chs' where x: "x = (c', s', chs')" by (cases x)
    note life = sv_run(3) [unfolded l x]
    have "ev \<noteq> Start" "ev \<noteq> Stop" using sv_run(2) by auto
    with turn_answers [OF life sv_run(2) assms(3)] life_flags [OF life] ok sv_run(2) show ?thesis
      by (auto simp: calls_ok_def sv_run(1) x split: if_splits)
  next
    case (sv_sync ch c' s')
    with sync_frame [of ops c s c' s'] ok show ?thesis by (simp add: calls_ok_def l)
  next
    case (sv_signal x)
    obtain c' s' chs' where x: "x = (c', s', chs')" by (cases x)
    note life = sv_signal(3) [unfolded l x]
    show ?thesis using life_flags [OF life] life_stop_frame [OF life] ok by (simp add: calls_ok_def sv_signal(1) x)
  qed (use ok l in \<open>auto simp: calls_ok_def\<close>)
qed

lemma replies_ok_step:
  assumes "replies_ok sv" "calls_ok sv" "server_step ops srt idle sv sv'" "sortSlice_spec txn_key srt"
  shows "replies_ok sv'"
proof -
  obtain c s chs where l: "sv_life sv = (c, s, chs)" by (cases "sv_life sv")
  note ok = assms(1) [unfolded replies_ok_def l prod.case] and b = assms(2) [unfolded calls_ok_def l prod.case]
  show ?thesis
    using assms(3)
  proof (cases rule: server_step.cases)
    case (sv_arrive ch call)
    with ok show ?thesis by (auto simp: replies_ok_def l fresh_call_def in_progress_def)
  next
    case (sv_submit ch req x)
    then have x: "x = (EpochCertifier_Submit c ch req, s, chs)" by (auto simp: l elim: life_submitE)
    have "set (in_progress sv) \<subseteq> set (in_progress sv')" by (auto simp: sv_submit(1) in_progress_def image_iff)
    moreover have "(ch, Submit_call req) \<in> set (sv_calls sv)" using ok sv_submit(2) by auto
    ultimately show ?thesis using ok by (auto simp: replies_ok_def sv_submit(1) x EpochCertifier_Submit_def)
  next
    case (sv_respond ch r)
    have "set (in_progress sv) \<union> fst ` set (sv_responses sv) \<subseteq> set (in_progress sv') \<union> fst ` set (sv_responses sv')"
      by (auto simp: sv_respond(1) in_progress_def)
    with ok have "fst ` set (sv_calls sv) \<subseteq> set (in_progress sv') \<union> fst ` set (sv_responses sv')" by (meson subset_trans)
    moreover have "(\<forall>ch r. (ch, Result_reply r) \<in> set (sv_responses sv') \<longrightarrow> map_of chs ch = Some r)"
      using ok sv_respond(1,3) by (auto simp: l EpochCertifier_Receive_def)
    ultimately show ?thesis using ok unfolding replies_ok_def by (simp add: sv_respond(1) l)
  next
    case (sv_sync ch c' s')
    have "set (in_progress sv) \<union> fst ` set (sv_responses sv) \<subseteq> set (in_progress sv') \<union> fst ` set (sv_responses sv')"
      by (auto simp: sv_sync(1) in_progress_def)
    with ok have "fst ` set (sv_calls sv) \<subseteq> set (in_progress sv') \<union> fst ` set (sv_responses sv')" by (meson subset_trans)
    moreover have "set (sv_arrived sv') \<subseteq> set (sv_calls sv)" using ok by (auto simp: sv_sync(1))
    moreover have "EpochCertifier_SyncFromStorage ops c s = (c', s')" using sv_sync(3) by (simp add: l)
    ultimately show ?thesis using ok sync_frame [of ops c s c' s'] unfolding replies_ok_def by (simp add: sv_sync(1) l)
  next
    case (sv_run ev x)
    obtain c' s' chs' where x: "x = (c', s', chs')" by (cases x)
    note life = sv_run(3) [unfolded l x]
    with turn_answers [OF life sv_run(2) assms(4)] b ok show ?thesis
      by (auto simp: replies_ok_def sv_run(1) x in_progress_def)
  next
    case (sv_signal x)
    obtain c' s' chs' where x: "x = (c', s', chs')" by (cases x)
    from life_stop_frame [OF sv_signal(3) [unfolded l x]] ok show ?thesis
      by (simp add: replies_ok_def sv_signal(1) x in_progress_def)
  qed (use ok l in \<open>auto simp: replies_ok_def in_progress_def\<close>)
qed

lemma calls_ok_init: "runners c = 1 \<Longrightarrow> \<not> doneCh_closed c \<Longrightarrow> currentBatch c = [] \<Longrightarrow> calls_ok (server_init c s)"
  by (simp add: calls_ok_def server_init_def)

lemma replies_ok_init: "currentBatch c = [] \<Longrightarrow> replies_ok (server_init c s)"
  by (simp add: replies_ok_def server_init_def)

lemma calls_ok_reach:
  assumes "server_reach ops srt idle sv sv'" "calls_ok sv" "sortSlice_spec txn_key srt"
  shows "calls_ok sv'"
  using assms(1,2) by (induction rule: server_reach.induct) (auto intro: calls_ok_step [OF _ _ assms(3)])

lemma replies_ok_reach:
  assumes "server_reach ops srt idle sv sv'" "replies_ok sv" "calls_ok sv" "sortSlice_spec txn_key srt"
  shows "replies_ok sv'"
  using assms(1-3)
proof (induction rule: server_reach.induct)
  case (server_more sv sv' sv'')
  from calls_ok_reach [OF server_more(1,5) assms(4)] server_more show ?case by (blast intro: replies_ok_step [OF _ _ _ assms(4)])
qed simp

lemma server_reach_trans:
  assumes "server_reach ops srt idle sv' sv''" "server_reach ops srt idle sv sv'"
  shows "server_reach ops srt idle sv sv''"
  using assms by (induction rule: server_reach.induct) (auto intro: server_more)

text \<open>After the goroutine has ended, a call that had not yet submitted stays in progress for ever.\<close>

definition stranded :: "'s server \<Rightarrow> nat \<Rightarrow> bool" where
  "stranded sv ch \<longleftrightarrow> (case sv_life sv of (c, s, chs) \<Rightarrow> runners c = 0 \<and> sv_phase sv \<noteq> Exited \<and>
     ((\<exists>req. (ch, Submit_call req) \<in> set (sv_arrived sv)) \<or> ch \<in> set (sv_waiting sv) \<and> map_of chs ch = None))"

lemma stranded_step:
  assumes "stranded sv ch" "server_step ops srt idle sv sv'" "waits_for_pending idle"
  shows "stranded sv' ch"
proof -
  obtain c s chs where l: "sv_life sv = (c, s, chs)" by (cases "sv_life sv")
  note st = assms(1) [unfolded stranded_def l prod.case]
  show ?thesis
    using assms(2)
  proof (cases rule: server_step.cases)
    case (sv_submit ch' req x)
    then have x: "x = (EpochCertifier_Submit c ch' req, s, chs)" "map_of chs ch' = None"
      by (auto simp: l elim: life_submitE)
    have "runners (EpochCertifier_Submit c ch' req) = runners c" by (simp add: EpochCertifier_Submit_def)
    with st x(2) show ?thesis by (cases "ch = ch'") (auto simp: stranded_def sv_submit(1) x(1))
  next
    case (sv_respond ch' r)
    then show ?thesis using st by (auto simp: stranded_def l EpochCertifier_Receive_def)
  next
    case (sv_run ev x)
    obtain c' s' chs' where x: "x = (c', s', chs')" by (cases x)
    have "0 < runners c" using life_flags [OF sv_run(3) [unfolded l x]] sv_run(2) by auto
    with st show ?thesis by simp
  next
    case (sv_sync ch' c' s')
    with sync_frame [of ops c s c' s'] st show ?thesis by (auto simp: stranded_def l)
  next
    case (sv_signal x)
    obtain c' s' chs' where x: "x = (c', s', chs')" by (cases x)
    note life = sv_signal(3) [unfolded l x]
    show ?thesis using life_flags [OF life] life_stop_frame [OF life] st by (simp add: stranded_def sv_signal(1) x)
  next
    case sv_exit
    then have "in_progress sv = []" using assms(3) by (simp add: waits_for_pending_def)
    with st show ?thesis by (auto simp: in_progress_def)
  qed (use st l in \<open>auto simp: stranded_def\<close>)
qed

lemma stranded_reach:
  assumes "server_reach ops srt idle sv sv'" "stranded sv ch" "waits_for_pending idle"
  shows "stranded sv' ch"
  using assms(1,2) by (induction rule: server_reach.induct) (auto intro: stranded_step [OF _ _ assms(3)])

lemma stranded_in_progress: "stranded sv ch \<Longrightarrow> ch \<in> set (in_progress sv) \<and> sv_phase sv \<noteq> Exited"
  by (force simp: stranded_def in_progress_def split: prod.splits)

text \<open>The other case: when the goroutine has ended, every submission has its answer, and later ones do not come.\<close>

definition drained :: "'s server \<Rightarrow> bool" where
  "drained sv \<longleftrightarrow> (case sv_life sv of (c, s, chs) \<Rightarrow> doneCh_closed c \<and> runners c = 0 \<and>
     (sv_phase sv = Stopping \<or> sv_phase sv = Graceful \<or> sv_phase sv = Exited) \<and>
     (\<forall>ch \<in> set (sv_waiting sv). map_of chs ch \<noteq> None) \<and> (\<forall>ch req. (ch, Submit_call req) \<notin> set (sv_arrived sv)) \<and>
     (sv_phase sv = Exited \<longrightarrow> in_progress sv = []))"

lemma calls_grow: "server_reach ops srt idle sv sv' \<Longrightarrow> set (sv_calls sv) \<subseteq> set (sv_calls sv')"
proof (induction rule: server_reach.induct)
  case (server_more sv sv' sv'')
  from server_more(2) have "set (sv_calls sv') \<subseteq> set (sv_calls sv'')" by (cases rule: server_step.cases) auto
  with server_more(3) show ?case by blast
qed simp

lemma drained_step:
  assumes "drained sv" "server_step ops srt idle sv sv'" "waits_for_pending idle"
    and "\<forall>ch req. (ch, Submit_call req) \<in> set (sv_calls sv') \<longrightarrow> ch \<in> fst ` set (sv_calls sv)"
  shows "drained sv'"
proof -
  obtain c s chs where l: "sv_life sv = (c, s, chs)" by (cases "sv_life sv")
  note d = assms(1) [unfolded drained_def l prod.case]
  show ?thesis
    using assms(2)
  proof (cases rule: server_step.cases)
    case (sv_arrive ch call)
    have "call = Sync_call"
    proof (cases call)
      case (Submit_call req)
      with assms(4) sv_arrive have "ch \<in> fst ` set (sv_calls sv)" by auto
      with sv_arrive show ?thesis by (simp add: fresh_call_def)
    qed
    with d sv_arrive show ?thesis by (auto simp: drained_def l)
  next
    case (sv_run ev x)
    obtain c' s' chs' where x: "x = (c', s', chs')" by (cases x)
    have "0 < runners c" using life_flags [OF sv_run(3) [unfolded l x]] sv_run(2) by auto
    with d show ?thesis by simp
  next
    case (sv_sync ch c' s')
    with sync_frame [of ops c s c' s'] d show ?thesis by (auto simp: drained_def l)
  next
    case sv_exit
    then have "in_progress sv = []" using assms(3) by (simp add: waits_for_pending_def)
    with d sv_exit show ?thesis by (simp add: drained_def l in_progress_def)
  qed (use d l in \<open>auto simp: drained_def\<close>)
qed

lemma drained_reach:
  assumes "server_reach ops srt idle sv sv'" "drained sv" "waits_for_pending idle"
    and "\<forall>ch req. (ch, Submit_call req) \<in> set (sv_calls sv') \<longrightarrow> ch \<in> fst ` set (sv_calls sv)"
  shows "drained sv'"
  using assms(1,2,4)
proof (induction rule: server_reach.induct)
  case (server_more sv sv' sv'')
  have "set (sv_calls sv') \<subseteq> set (sv_calls sv'')" by (rule calls_grow [OF server_reach.server_more [OF server_refl server_more(2)]])
  with server_more(5) have "\<forall>ch req. (ch, Submit_call req) \<in> set (sv_calls sv') \<longrightarrow> ch \<in> fst ` set (sv_calls sv)" by blast
  from server_more(3) [OF server_more(4) this] have d: "drained sv'" .
  have "fst ` set (sv_calls sv) \<subseteq> fst ` set (sv_calls sv')" by (rule image_mono [OF calls_grow [OF server_more(1)]])
  with server_more(5) have "\<forall>ch req. (ch, Submit_call req) \<in> set (sv_calls sv'') \<longrightarrow> ch \<in> fst ` set (sv_calls sv')" by blast
  then show ?case by (rule drained_step [OF d server_more(2) assms(3)])
qed simp

text \<open>The step that ends the goroutine drains the batch.\<close>

lemma last_turn_drains:
  assumes "server_step ops srt idle sv sv'" "calls_ok sv" "sortSlice_spec txn_key srt" "sv_phase sv = Stopping"
    and "\<not> doneCh_closed (fst (sv_life sv))" "doneCh_closed (fst (sv_life sv'))" "\<forall>ch req. (ch, Submit_call req) \<notin> set (sv_arrived sv)"
  shows "drained sv' \<and> sv_calls sv' = sv_calls sv"
proof -
  obtain c s chs where l: "sv_life sv = (c, s, chs)" by (cases "sv_life sv")
  note b = assms(2) [unfolded calls_ok_def l prod.case]
  show ?thesis
    using assms(1)
  proof (cases rule: server_step.cases)
    case (sv_submit ch req x)
    with assms(7) show ?thesis by blast
  next
    case (sv_run ev x)
    obtain c' s' chs' where x: "x = (c', s', chs')" by (cases x)
    note life = sv_run(3) [unfolded l x]
    note flags = life_flags [OF life]
    have ev: "ev = Drain" using flags sv_run(1,2) assms(5,6) by (auto simp: l x)
    have "\<forall>ch \<in> set (sv_waiting sv). map_of chs' ch \<noteq> None"
      using turn_answers [OF life sv_run(2) assms(3)] b by blast
    with flags b ev assms(4,7) show ?thesis by (auto simp: drained_def sv_run(1) x split: if_splits)
  next
    case (sv_sync ch c' s')
    with sync_frame [of ops c s c' s'] assms(5,6) show ?thesis by (simp add: l)
  next
    case (sv_signal x)
    with assms(4) show ?thesis by simp
  qed (use assms(5,6) in auto)
qed

lemma drained_enabled:
  assumes "drained sv" "sv_phase sv = Graceful" "idle []"
  shows "\<exists>sv'. server_step ops srt idle sv sv'"
proof -
  obtain c s chs where l: "sv_life sv = (c, s, chs)" by (cases "sv_life sv")
  note d = assms(1) [unfolded drained_def l prod.case]
  have al: "alive (sv_phase sv)" using assms(2) by simp
  consider "in_progress sv = []" | ch where "ch \<in> set (sv_waiting sv)" | ch call where "(ch, call) \<in> set (sv_arrived sv)"
    by (cases "sv_waiting sv"; cases "sv_arrived sv") (auto simp: in_progress_def)
  then show ?thesis
  proof cases
    case 1
    then show ?thesis using assms(2,3) sv_exit [of sv idle ops srt] by auto
  next
    case 2
    then obtain r where "EpochCertifier_Receive (snd (snd (sv_life sv))) ch = Some r" using d by (auto simp: l EpochCertifier_Receive_def)
    from sv_respond [OF 2 this al] show ?thesis by blast
  next
    case 3
    then have "call = Sync_call" using d by (cases call) auto
    with 3 sv_sync [of ch sv ops _ _ srt idle, OF _ prod.collapse [symmetric] al] show ?thesis by blast
  qed
qed

lemma drained_leaves:
  assumes "drained sv" "server_step ops srt idle sv sv'" "sv_phase sv = Graceful"
  shows "sv_calls sv' = sv_calls sv \<and> (sv_phase sv' = Exited \<or>
    sv_phase sv' = Graceful \<and> length (in_progress sv') < length (in_progress sv))"
proof -
  obtain c s chs where l: "sv_life sv = (c, s, chs)" by (cases "sv_life sv")
  note d = assms(1) [unfolded drained_def l prod.case]
  show ?thesis
    using assms(2)
  proof (cases rule: server_step.cases)
    case (sv_run ev x)
    obtain c' s' chs' where x: "x = (c', s', chs')" by (cases x)
    have "0 < runners c" using life_flags [OF sv_run(3) [unfolded l x]] sv_run(2) by auto
    with d show ?thesis by simp
  next
    case (sv_respond ch r)
    then show ?thesis using assms(3) length_removeAll_less [of ch "sv_waiting sv"] by (simp add: in_progress_def)
  next
    case (sv_sync ch c' s')
    then show ?thesis using assms(3) length_removeAll_less [of "(ch, Sync_call)" "sv_arrived sv"] by (simp add: in_progress_def)
  qed (use d assms(3) in \<open>auto simp: in_progress_def\<close>)
qed

lemma drained_answers:
  assumes "drained sv" "replies_ok sv" "sv_phase sv = Exited" "(ch, call) \<in> set (sv_calls sv)"
  shows "\<exists>reply. (ch, reply) \<in> set (sv_responses sv)"
proof -
  have "in_progress sv = []" using assms(1,3) by (auto simp: drained_def split: prod.splits)
  moreover have "fst ` set (sv_calls sv) \<subseteq> set (in_progress sv) \<union> fst ` set (sv_responses sv)"
    using assms(2) by (simp add: replies_ok_def split: prod.splits)
  moreover have "ch \<in> fst ` set (sv_calls sv)" using imageI [OF assms(4), of fst] by simp
  ultimately have "ch \<in> fst ` set (sv_responses sv)" by auto
  then show ?thesis by auto
qed

subsection \<open>What the server commits\<close>

text \<open>\<open>run_spec m n reqs\<close>: certify and apply the requests in order, all of them accepted. \<open>committed\<close>: the
  channels that were answered \<open>Committed\<close>, in the order of their answers.\<close>

fun run_spec :: "kv_view \<Rightarrow> uint64 \<Rightarrow> TxnRequest list \<Rightarrow> (kv_view \<times> uint64) option" where
  "run_spec m n [] = Some (m, n)"
| "run_spec m n (req # rest) =
     (case occ_spec m n req of
        (True, m', n') \<Rightarrow> run_spec m' n' rest
      | (False, m', n') \<Rightarrow> None)"

definition committed :: "chans \<Rightarrow> nat list" where
  "committed chs = map fst (filter (\<lambda>x. res_Committed (snd x)) chs)"

lemma run_spec_append:
  "run_spec m n (xs @ ys) = Option.bind (run_spec m n xs) (\<lambda>(m', n'). run_spec m' n' ys)"
  by (induction xs arbitrary: m n) (auto split: prod.splits bool.splits)

lemma run_spec_seq: "run_spec m n reqs = Some (m', n') \<Longrightarrow> unat n' \<le> unat n + length reqs"
proof (induction reqs arbitrary: m n)
  case (Cons req reqs)
  then obtain m1 where "run_spec m1 (n + 1) reqs = Some (m', n')"
    by (auto simp: occ_spec_def split: if_splits)
  with Cons.IH unat_inc64_le [of n] show ?case by fastforce
qed simp

lemma epoch_spec_run:
  "epoch_spec m n cl reqs = (ds, m', n') \<Longrightarrow> length ds = length reqs \<and>
   run_spec m n (map fst (filter snd (zip reqs ds))) = Some (m', n')"
proof (induction reqs arbitrary: m n cl ds)
  case (Cons req reqs)
  show ?case
  proof (cases "reads_current m (tr_ReadSet req) \<and> unclaimed cl (tr_TxnID req) (tr_WriteSet req)")
    case True
    obtain m1 n1 where o: "occ_spec m n req = (True, m1, n1)" using True by (simp add: occ_spec_def)
    with True Cons.prems obtain ds' where "epoch_spec m1 n1 (claim (tr_TxnID req) (tr_WriteSet req) cl) reqs = (ds', m', n')"
      "ds = True # ds'" by (auto split: prod.splits)
    with Cons.IH o show ?thesis by simp
  next
    case False
    with Cons.prems obtain ds' where "epoch_spec m n cl reqs = (ds', m', n')" "ds = False # ds'" by (auto split: prod.splits)
    with Cons.IH show ?thesis by simp
  qed
qed simp

lemma zip_committed:
  "length ds = length ps \<Longrightarrow> list_all2 (\<lambda>ch req. \<exists>p \<in> set ps. p_resultCh p = ch \<and> p_req p = req)
     (map fst (filter snd (zip (map p_resultCh ps) ds))) (map fst (filter snd (zip (map p_req ps) ds)))"
proof (induction ds ps rule: list_induct2)
  case (Cons d ds p ps)
  then show ?case by (auto elim: list_all2_mono)
qed simp

lemma committed_zip:
  "committed rs = map fst (filter snd (zip (map fst rs) (map (\<lambda>x. res_Committed (snd x)) rs)))"
  by (induction rs) (auto simp: committed_def)

lemma map_of_append_fresh:
  "distinct (map fst rs) \<Longrightarrow> \<forall>k \<in> fst ` set rs. map_of chs k = None \<Longrightarrow> x \<in> set rs \<Longrightarrow> map_of (chs @ rs) (fst x) = Some (snd x)"
  by (auto simp: map_of_append map_add_def split: option.splits)

context store_contract
begin

lemma processEpoch_serial:
  assumes "ok s" "coherent (view s) c" "unat (commitSeq c) + length (currentBatch c) < 2 ^ 64"
    and "sortSlice_spec txn_key srt" "distinct (map p_resultCh (currentBatch c))"
    and "\<forall>p \<in> set (currentBatch c). map_of chs (p_resultCh p) = None"
    and run: "processEpoch ops srt c s chs = (LoopDone, c', s', chs')"
  shows "ok s' \<and> coherent (view s') c' \<and> (\<exists>rs reqs. chs' = chs @ rs \<and> map fst rs = map p_resultCh (srt (currentBatch c)) \<and>
    run_spec (view s) (commitSeq c) reqs = Some (view s', commitSeq c') \<and>
    list_all2 (\<lambda>ch req. \<exists>p \<in> set (currentBatch c). p_resultCh p = ch \<and> p_req p = req) (committed rs) reqs)"
proof (cases "currentBatch c = []")
  case True
  then have "srt (currentBatch c) = []" using sorted_batch_facts(2) [OF assms(4), of "[]"] by simp
  with True assms show ?thesis by (auto simp: processEpoch_def committed_def coherent_def)
next
  case False
  let ?b = "srt (currentBatch c)"
  note srt = sorted_batch_facts [OF assms(4), where xs = "currentBatch c"]
  have ref: "ok s'" "coherent (view s') c'" "epoch_spec (view s) (commitSeq c) Map.empty (map p_req ?b)
      = (map (\<lambda>p. res_Committed (the (EpochCertifier_Receive chs' (p_resultCh p)))) ?b, view s', commitSeq c')"
    using processEpoch_refines [OF assms(1-6)] run by auto
  have c0: "coherent (view s) (c\<lparr>currentBatch := []\<rparr>)" using assms(2) by (simp add: coherent_def)
  obtain c1 s1 chs1 where loop: "epoch_loop ops (c\<lparr>currentBatch := []\<rparr>) [] s chs ?b = (LoopDone, c1, s1, chs1)"
    using loop_refines [OF assms(1) c0, of ?b chs "[]"] assms(3,5,6) srt by force
  with run False have no_panic: "epoch_loop ops (c\<lparr>currentBatch := []\<rparr>) [] s chs ?b = (LoopDone, c', s', chs')"
    by (simp add: processEpoch_def)
  obtain rs where rs: "chs' = chs @ rs" "map fst rs = map p_resultCh ?b"
    using epoch_loop_appends [OF _ _ no_panic] srt assms(5,6) by auto
  have len: "length rs = length ?b" using rs(2) by (rule map_eq_imp_length_eq)
  have d: "distinct (map fst rs)" unfolding rs(2) using srt(3) assms(5) by simp
  have "fst ` set rs = p_resultCh ` set (currentBatch c)" using arg_cong [OF rs(2), of set] srt(1) by simp
  with assms(6) have fresh: "\<forall>k \<in> fst ` set rs. map_of chs k = None" by simp
  let ?ds = "map (\<lambda>x. res_Committed (snd x)) rs"
  have "map (\<lambda>p. res_Committed (the (EpochCertifier_Receive chs' (p_resultCh p)))) ?b
      = map (\<lambda>k. res_Committed (the (map_of chs' k))) (map p_resultCh ?b)" by (simp add: EpochCertifier_Receive_def)
  also have "\<dots> = ?ds" using map_of_append_fresh [OF d fresh] unfolding rs(2) [symmetric] rs(1) by simp
  finally have "run_spec (view s) (commitSeq c) (map fst (filter snd (zip (map p_req ?b) ?ds))) = Some (view s', commitSeq c')"
    using epoch_spec_run [OF ref(3)] by simp
  moreover have "list_all2 (\<lambda>ch req. \<exists>p \<in> set (currentBatch c). p_resultCh p = ch \<and> p_req p = req)
      (committed rs) (map fst (filter snd (zip (map p_req ?b) ?ds)))"
    using zip_committed [of ?ds ?b] len srt(1) by (simp add: committed_zip rs(2))
  ultimately show ?thesis using ref rs by blast
qed

end

lemma life_turn:
  "epoch_life ops srt (c, s, chs) ev (c', s', chs') \<Longrightarrow> ev = Tick \<or> ev = Drain \<Longrightarrow>
   \<exists>c1. processEpoch ops srt c s chs = (LoopDone, c1, s', chs') \<and> latestVersion c' = latestVersion c1 \<and>
     commitSeq c' = commitSeq c1 \<and> currentBatch c' = currentBatch c1"
  by (erule epoch_life.cases) auto

lemma life_stop_versions:
  "epoch_life ops srt (c, s, chs) Stop (c', s', chs') \<Longrightarrow> s' = s \<and> latestVersion c' = latestVersion c \<and> commitSeq c' = commitSeq c"
  by (erule epoch_life.cases) (auto simp: EpochCertifier_Stop_def split: option.splits if_splits)

text \<open>\<open>taken sv\<close>: the result channels of all the transactions that the certifier has taken in.\<close>

definition taken :: "'s server \<Rightarrow> nat set" where
  "taken sv = (case sv_life sv of (c, s, chs) \<Rightarrow> fst ` set chs \<union> p_resultCh ` set (currentBatch c))"

lemma finite_taken [simp]: "finite (taken sv)"
  by (simp add: taken_def split: prod.splits)

lemma taken_step:
  assumes "server_step ops srt idle sv sv'" "calls_ok sv" "sortSlice_spec txn_key srt"
  shows "taken sv \<subseteq> taken sv'"
proof -
  obtain c s chs where l: "sv_life sv = (c, s, chs)" by (cases "sv_life sv")
  show ?thesis
    using assms(1)
  proof (cases rule: server_step.cases)
    case (sv_submit ch req x)
    then have "x = (EpochCertifier_Submit c ch req, s, chs)" by (auto simp: l elim: life_submitE)
    then show ?thesis by (auto simp: sv_submit(1) taken_def l EpochCertifier_Submit_def)
  next
    case (sv_run ev x)
    obtain c' s' chs' where x: "x = (c', s', chs')" by (cases x)
    have "ch \<in> fst ` set chs'" if "ch \<in> fst ` set chs \<or> ch \<in> p_resultCh ` set (currentBatch c)" for ch
      using turn_answers [OF sv_run(3) [unfolded l x] sv_run(2) assms(3)] assms(2) that
      unfolding calls_ok_def l prod.case by (metis map_of_eq_None_iff)
    then show ?thesis by (auto simp: sv_run(1) taken_def l x)
  next
    case (sv_sync ch c' s')
    with sync_frame [of ops c s c' s'] show ?thesis by (simp add: taken_def l)
  next
    case (sv_signal x)
    obtain c' s' chs' where x: "x = (c', s', chs')" by (cases x)
    from life_stop_frame [OF sv_signal(3) [unfolded l x]] show ?thesis by (simp add: sv_signal(1) x taken_def l)
  qed (simp_all add: taken_def)
qed

lemma calls_disjoint:
  assumes "calls_ok sv" "sv_life sv = (c, s, chs)"
  shows "fst ` set chs \<inter> p_resultCh ` set (currentBatch c) = {}"
proof -
  have "\<forall>k \<in> p_resultCh ` set (currentBatch c). k \<notin> fst ` set chs"
    using assms by (simp add: calls_ok_def map_of_eq_None_iff)
  then show ?thesis by blast
qed

lemma taken_card:
  assumes "calls_ok sv" "sv_life sv = (c, s, chs)" "distinct (map fst chs)"
  shows "card (taken sv) = length chs + length (currentBatch c)"
proof -
  have "card (fst ` set chs) = length chs" using distinct_card [OF assms(3)] by simp
  moreover have "card (p_resultCh ` set (currentBatch c)) = length (currentBatch c)"
    using assms(1,2) distinct_card [of "map p_resultCh (currentBatch c)"] by (simp add: calls_ok_def)
  ultimately show ?thesis using calls_disjoint [OF assms(1,2)] by (simp add: taken_def assms(2) card_Un_disjoint)
qed

lemma committed_length: "length (committed chs) \<le> length chs"
  by (simp add: committed_def)

lemma committed_append: "committed (xs @ ys) = committed xs @ committed ys"
  by (simp add: committed_def)

context store_contract
begin

definition server_safe :: "kv_view \<Rightarrow> uint64 \<Rightarrow> 's server \<Rightarrow> bool" where
  "server_safe m n sv \<longleftrightarrow> (case sv_life sv of (c, s, chs) \<Rightarrow> ok s \<and> coherent (view s) c \<and> distinct (map fst chs) \<and>
     (\<exists>reqs. run_spec m n reqs = Some (view s, commitSeq c) \<and>
        list_all2 (\<lambda>ch req. (ch, Submit_call req) \<in> set (sv_calls sv)) (committed chs) reqs))"

lemma server_safe_turn:
  assumes safe: "server_safe m n sv" and calls: "calls_ok sv" "replies_ok sv" and srt: "sortSlice_spec txn_key srt"
    and life: "sv_life sv = (c, s, chs)" "epoch_life ops srt (c, s, chs) ev (c', s', chs')" "ev = Tick \<or> ev = Drain"
    and room: "unat n + card (taken sv) < 2 ^ 64"
  shows "server_safe m n (sv\<lparr>sv_life := (c', s', chs')\<rparr>)"
proof -
  let ?R = "\<lambda>ch req. (ch, Submit_call req) \<in> set (sv_calls sv)"
  obtain reqs where reqs: "ok s" "coherent (view s) c" "run_spec m n reqs = Some (view s, commitSeq c)" "list_all2 ?R (committed chs) reqs"
    and d: "distinct (map fst chs)"
    using safe by (auto simp: server_safe_def life(1))
  note b = calls(1) [unfolded calls_ok_def life(1) prod.case]
  have "length reqs \<le> length chs" using list_all2_lengthD [OF reqs(4)] committed_length [of chs] by simp
  then have "unat (commitSeq c) + length (currentBatch c) < 2 ^ 64"
    using run_spec_seq [OF reqs(3)] room taken_card [OF calls(1) life(1) d] by simp
  note serial = processEpoch_serial [OF reqs(1,2) this srt]
  obtain c1 where c1: "processEpoch ops srt c s chs = (LoopDone, c1, s', chs')" "latestVersion c' = latestVersion c1"
    "commitSeq c' = commitSeq c1" using life_turn [OF life(2,3)] by blast
  obtain rs reqs' where new: "ok s'" "coherent (view s') c1" "chs' = chs @ rs" "map fst rs = map p_resultCh (srt (currentBatch c))"
    "run_spec (view s) (commitSeq c) reqs' = Some (view s', commitSeq c1)"
    "list_all2 (\<lambda>ch req. \<exists>p \<in> set (currentBatch c). p_resultCh p = ch \<and> p_req p = req) (committed rs) reqs'"
    using serial [OF _ _ c1(1)] b by blast
  have "list_all2 ?R (committed rs) reqs'"
    using calls(2) by (intro list_all2_mono [OF new(6)]) (auto simp: replies_ok_def life(1))
  then have "run_spec m n (reqs @ reqs') = Some (view s', commitSeq c')" "list_all2 ?R (committed chs') (reqs @ reqs')"
    using reqs(3,4) new(3,5) c1(3) by (simp_all add: run_spec_append committed_append list_all2_appendI)
  moreover have "coherent (view s') c'" using new(2) c1(2,3) by (simp add: coherent_def)
  moreover have "distinct (map fst chs')"
    using d b sorted_batch_facts [OF srt, of "currentBatch c"] calls_disjoint [OF calls(1) life(1)] by (simp add: new(3,4))
  ultimately show ?thesis using new(1) by (auto simp: server_safe_def simp del: map_append)
qed

lemma server_safe_more:
  assumes "server_safe m n sv" "sv_life sv' = sv_life sv" "set (sv_calls sv) \<subseteq> set (sv_calls sv')"
  shows "server_safe m n sv'"
  using assms unfolding server_safe_def by (fastforce elim: list_all2_mono split: prod.splits)

lemma server_safe_step:
  assumes step: "server_step ops srt idle sv sv'" and "server_safe m n sv" "calls_ok sv" "replies_ok sv" "sortSlice_spec txn_key srt"
    and room: "unat n + card (taken sv) < 2 ^ 64"
  shows "server_safe m n sv'"
proof -
  obtain c s chs where l: "sv_life sv = (c, s, chs)" by (cases "sv_life sv")
  note safe = assms(2) [unfolded server_safe_def l prod.case]
  show ?thesis
    using step
  proof (cases rule: server_step.cases)
    case (sv_arrive ch call)
    with server_safe_more [OF assms(2), of sv'] show ?thesis by auto
  next
    case (sv_submit ch req x)
    then have "x = (EpochCertifier_Submit c ch req, s, chs)" by (auto simp: l elim: life_submitE)
    with safe show ?thesis by (simp add: sv_submit(1) server_safe_def EpochCertifier_Submit_def coherent_def)
  next
    case (sv_run ev x)
    obtain c' s' chs' where x: "x = (c', s', chs')" by (cases x)
    from server_safe_turn [OF assms(2-5) l sv_run(3) [unfolded l x] sv_run(2) room] show ?thesis by (simp add: sv_run(1) x)
  next
    case (sv_sync ch c' s')
    have "EpochCertifier_SyncFromStorage ops c s = (c', s')" using sv_sync(3) by (simp add: l)
    with safe sync_epoch_keeps [of s c c' s'] show ?thesis by (auto simp: sv_sync(1) server_safe_def l)
  next
    case (sv_signal x)
    obtain c' s' chs' where x: "x = (c', s', chs')" by (cases x)
    note life = sv_signal(3) [unfolded l x]
    from life_stop_versions [OF life] life_stop_frame [OF life] safe show ?thesis
      by (simp add: sv_signal(1) x server_safe_def coherent_def)
  qed (use assms(2) in \<open>simp_all add: server_safe_def\<close>)
qed

lemma server_safe_reach:
  assumes "server_reach ops srt idle sv sv'" "server_safe m n sv" "calls_ok sv" "replies_ok sv" "sortSlice_spec txn_key srt"
    and "unat n + card (taken sv') < 2 ^ 64"
  shows "server_safe m n sv'"
  using assms(1,2,3,4,6)
proof (induction rule: server_reach.induct)
  case (server_more sv sv' sv'')
  have ok: "calls_ok sv'" by (rule calls_ok_reach [OF server_more(1,5) assms(5)])
  have rep: "replies_ok sv'" by (rule replies_ok_reach [OF server_more(1,6,5) assms(5)])
  have "card (taken sv') \<le> card (taken sv'')" by (rule card_mono [OF finite_taken taken_step [OF server_more(2) ok assms(5)]])
  with server_more(7) have room: "unat n + card (taken sv') < 2 ^ 64" by simp
  show ?case by (rule server_safe_step [OF server_more(2) server_more(3) [OF server_more(4,5,6) room] ok rep assms(5) room])
qed simp

end

text \<open>What a certifier starts from: the versions of the storage server when the connection to it delivers, and
  nothing when no call gets through.\<close>

definition starts_from :: "MemStore invoke \<Rightarrow> MemStore \<Rightarrow> 'a ImmediateCertifier_scheme \<Rightarrow> MemStore \<Rightarrow> bool" where
  "starts_from sconn s c s' \<longleftrightarrow>
     (delivers sconn (StorageService_ServiceDesc MemStore_ops) \<longrightarrow> mem_view s' = mem_view s \<and> coherent (mem_view s) c) \<and>
     ((\<forall>path m. \<exists>err. sconn s path m = (Inl err, s)) \<longrightarrow> latestVersion c = [] \<and> commitSeq c = 0 \<and> s' = s)"

lemma unreachable_dump:
  "\<forall>path m. \<exists>err. sconn s path m = (Inl err, s) \<Longrightarrow> Store_DumpState (GRPCStoreClient_ops sconn) s = ([], s)"
proof -
  assume "\<forall>path m. \<exists>err. sconn s path m = (Inl err, s)"
  then obtain err where "sconn s StorageService_DumpState_FullMethodName (M_DumpStateRequest DumpStateRequest) = (Inl err, s)" by blast
  then show ?thesis by (simp add: GRPCStoreClient_ops_def GRPCStoreClient_DumpState_def storageServiceClient_DumpState_def)
qed

lemma new_certifier_starts:
  assumes "mem_wf s" "view_pos (mem_view s)"
  shows "case snd (new_certifier sconn epochMs s) of
      Fatal msg \<Rightarrow> False
    | Panicked p \<Rightarrow> epochMs > 0 \<and> wrap64 (epochMs * 10 ^ 6) \<le> 0
    | Up (Epoch_mode c, s') \<Rightarrow> epochMs > 0 \<and> runners c = 1 \<and> currentBatch c = [] \<and> starts_from sconn s c s'
    | Up (Immediate_mode c, s') \<Rightarrow> epochMs \<le> 0 \<and> starts_from sconn s c s'"
proof (cases "epochMs > 0")
  case True
  let ?d = "wrap64 (epochMs * 10 ^ 6)" and ?ops = "GRPCStoreClient_ops sconn"
  obtain c s' where new: "NewEpochCertifier ?ops s ?d = (c, s')" by fastforce
  then have c: "epochDuration c = ?d" "runners c = 0" "currentBatch c = []" by (auto simp: NewEpochCertifier_def split: prod.splits)
  have up: "mem_view s' = mem_view s \<and> coherent (mem_view s) c" if d: "delivers sconn (StorageService_ServiceDesc MemStore_ops)"
  proof -
    have "remote_store MemStore_ops mem_view mem_wf sconn" by unfold_locales (rule d)
    from store_contract.new_epoch_coherent [OF remote_store.client_contract [OF this] assms, of ?d] new show ?thesis by auto
  qed
  have "latestVersion c = [] \<and> commitSeq c = 0 \<and> s' = s" if "\<forall>path m. \<exists>err. sconn s path m = (Inl err, s)"
    using new unreachable_dump [where sconn = sconn and s = s, OF that] by (auto simp: NewEpochCertifier_def load_versions_def)
  with True new c up show ?thesis by (auto simp: new_certifier_def EpochCertifier_Start_def starts_from_def coherent_def)
next
  case False
  let ?ops = "GRPCStoreClient_ops sconn"
  obtain c s' where new: "NewImmediateCertifier ?ops s = (c, s')" by fastforce
  have up: "mem_view s' = mem_view s \<and> coherent (mem_view s) c" if d: "delivers sconn (StorageService_ServiceDesc MemStore_ops)"
  proof -
    have "remote_store MemStore_ops mem_view mem_wf sconn" by unfold_locales (rule d)
    from store_contract.new_coherent [OF remote_store.client_contract [OF this] assms] new show ?thesis by auto
  qed
  have "latestVersion c = [] \<and> commitSeq c = 0 \<and> s' = s" if "\<forall>path m. \<exists>err. sconn s path m = (Inl err, s)"
    using new unreachable_dump [where sconn = sconn and s = s, OF that] by (auto simp: NewImmediateCertifier_def load_versions_def)
  with False new up show ?thesis by (auto simp: new_certifier_def starts_from_def)
qed

subsection \<open>Properties\<close>

text \<open>\<^bold>\<open>C23.\<close> How the certifier server starts, for every value of its flags. It ends in \<open>log.Fatalf\<close> only when
  \<open>grpc.NewClient\<close> or \<open>net.Listen\<close> returns an error, with that error in the message; it panics only when an
  epoch duration is asked for that wraps, in nanoseconds, to a number that is not positive; and otherwise
  it serves with a certifier of the mode asked for. Over a connection that delivers, the versions of that
  certifier are those of the storage server, which is unchanged; but if no call gets through, which
  \<open>grpc.NewClient\<close> does not check, the server starts all the same, with an empty version map and the
  counter 0.\<close>

theorem ccaas_main_starts:
  assumes "mem_wf s" "view_pos (mem_view s)"
  shows "case snd (ccaas_main dial listen flags s) of
      Fatal msg \<Rightarrow>
        (\<exists>err. dial (cf_storageAddr flags) = Inl err \<and> msg = ''failed to connect to storage at '' @ cf_storageAddr flags @ '': '' @ err) \<or>
        (\<exists>err. listen ('':'' @ Itoa (cf_port flags)) = Some err \<and> msg = ''failed to listen: '' @ err)
    | Panicked p \<Rightarrow> cf_epochMs flags > 0 \<and> wrap64 (cf_epochMs flags * 10 ^ 6) \<le> 0
    | Up (Epoch_mode c, s') \<Rightarrow> cf_epochMs flags > 0 \<and> listen ('':'' @ Itoa (cf_port flags)) = None \<and>
        runners c = 1 \<and> currentBatch c = [] \<and> (\<exists>sconn. dial (cf_storageAddr flags) = Inr sconn \<and> starts_from sconn s c s')
    | Up (Immediate_mode c, s') \<Rightarrow> cf_epochMs flags \<le> 0 \<and> listen ('':'' @ Itoa (cf_port flags)) = None \<and>
        (\<exists>sconn. dial (cf_storageAddr flags) = Inr sconn \<and> starts_from sconn s c s')"
proof (cases "dial (cf_storageAddr flags)")
  case (Inl err)
  then show ?thesis by (simp add: ccaas_main_def)
next
  case (Inr sconn)
  with new_certifier_starts [OF assms, where sconn = sconn and epochMs = "cf_epochMs flags"] show ?thesis
    by (auto simp: ccaas_main_def split: boot.splits prod.splits certifier.splits option.splits)
qed

theorem ccaas_main_starts_witness:
  "\<exists>lines c s'. ccaas_main (\<lambda>_. Inr lb_store) (\<lambda>_. None) (ccaas_defaults\<lparr>cf_epochMs := 10\<rparr>) (store_with ''x'' ''a'' 3)
     = (lines, Up (Epoch_mode c, s')) \<and> coherent [''x'' \<mapsto> (''a'', 3)] c"
proof -
  let ?fl = "ccaas_defaults\<lparr>cf_epochMs := 10\<rparr>"
  have "view_pos (mem_view (store_with ''x'' ''a'' 3))" by (simp add: view_pos_def)
  then have "case snd (ccaas_main (\<lambda>_. Inr lb_store) (\<lambda>_. None) ?fl (store_with ''x'' ''a'' 3)) of
      Up (Epoch_mode c, s') \<Rightarrow> coherent [''x'' \<mapsto> (''a'', 3)] c | _ \<Rightarrow> False"
    using ccaas_main_starts [of "store_with ''x'' ''a'' 3", where dial = "\<lambda>_. Inr lb_store" and listen = "\<lambda>_. None" and flags = ?fl]
    by (auto simp: wrap64_def ccaas_defaults_def starts_from_def split: boot.splits prod.splits certifier.splits)
  then show ?thesis
    by (cases "ccaas_main (\<lambda>_. Inr lb_store) (\<lambda>_. None) ?fl (store_with ''x'' ''a'' 3)")
       (auto split: boot.splits prod.splits certifier.splits)
qed

lemma epoch_main_start:
  assumes "dial (cf_storageAddr flags) = Inr sconn" "delivers sconn (StorageService_ServiceDesc MemStore_ops)"
    and "mem_wf s0" "view_pos (mem_view s0)" "ccaas_main dial listen flags s0 = (lines, Up (Epoch_mode c0, s1))"
  shows "mem_wf s1 \<and> mem_view s1 = mem_view s0 \<and> coherent (mem_view s0) c0 \<and> runners c0 = 1 \<and> \<not> doneCh_closed c0 \<and> currentBatch c0 = []"
proof -
  have "remote_store MemStore_ops mem_view mem_wf sconn" by unfold_locales (rule assms(2))
  note cl = remote_store.client_contract [OF this]
  let ?d = "wrap64 (cf_epochMs flags * 10 ^ 6)"
  obtain c s where new: "NewEpochCertifier (GRPCStoreClient_ops sconn) s0 ?d = (c, s)" "mem_wf s" "mem_view s = mem_view s0" "coherent (mem_view s0) c"
    using store_contract.new_epoch_coherent [OF cl assms(3,4)] by blast
  have "EpochCertifier_Start c = Inr c0 \<and> s1 = s"
    using assms(1,5) new(1) by (auto simp: ccaas_main_def new_certifier_def Let_def split: if_splits sum.splits option.splits prod.splits)
  moreover have "runners c = 0" "\<not> doneCh_closed c" "currentBatch c = []" using new(1) by (auto simp: NewEpochCertifier_def split: prod.splits)
  ultimately show ?thesis using new by (auto simp: EpochCertifier_Start_def coherent_def split: if_splits)
qed



text \<open>\<^bold>\<open>C17.\<close> A clean shutdown of the certifier server: suppose that when the goroutine ends, after the signal, every
  submission has reached the batch, and that no submission is accepted from then on. Then, whatever happens,
  \<open>GracefulStop\<close> is called; from there on the server accepts no call, it always has a step to take, and each
  step exits or leaves one call fewer in progress; and when it has exited, every call that it ever accepted
  has its response. \<open>GracefulStop\<close> returns when no call is in progress, and only then.\<close>

theorem server_shutdown_answers:
  assumes "server_reach ops srt idle (server_init c s) sv" "runners c = 1" "\<not> doneCh_closed c" "currentBatch c = []"
    and "sortSlice_spec txn_key srt" "waits_for_pending idle" "idle []"
    and "sv_phase sv = Stopping" "\<not> doneCh_closed (fst (sv_life sv))" "\<forall>ch req. (ch, Submit_call req) \<notin> set (sv_arrived sv)"
    and "server_step ops srt idle sv sv1" "doneCh_closed (fst (sv_life sv1))" "server_reach ops srt idle sv1 sv2"
    and "\<forall>ch req. (ch, Submit_call req) \<in> set (sv_calls sv2) \<longrightarrow> ch \<in> fst ` set (sv_calls sv)"
  shows "(sv_phase sv2 = Stopping \<and> server_step ops srt idle sv2 (sv2\<lparr>sv_phase := Graceful\<rparr>)) \<or>
    (sv_phase sv2 = Graceful \<and> (\<exists>sv3. server_step ops srt idle sv2 sv3) \<and>
      (\<forall>sv3. server_step ops srt idle sv2 sv3 \<longrightarrow> sv_calls sv3 = sv_calls sv2 \<and>
        (sv_phase sv3 = Exited \<or> sv_phase sv3 = Graceful \<and> length (in_progress sv3) < length (in_progress sv2)))) \<or>
    (sv_phase sv2 = Exited \<and> (\<forall>(ch, call) \<in> set (sv_calls sv2). \<exists>reply. (ch, reply) \<in> set (sv_responses sv2)))"
proof -
  have calls: "calls_ok sv" using calls_ok_reach [OF assms(1) calls_ok_init [OF assms(2-4)] assms(5)] .
  have reach: "server_reach ops srt idle (server_init c s) sv2"
    by (rule server_reach_trans [OF assms(13) server_more [OF assms(1,11)]])
  have rep: "replies_ok sv2"
    by (rule replies_ok_reach [OF reach replies_ok_init [OF assms(4)] calls_ok_init [OF assms(2-4)] assms(5)])
  have sv1: "drained sv1" "sv_calls sv1 = sv_calls sv"
    using last_turn_drains [OF assms(11) calls assms(5,8,9,12,10)] by simp_all
  then have d: "drained sv2" using drained_reach [OF assms(13) _ assms(6)] assms(14) by simp
  then consider "sv_phase sv2 = Stopping" "doneCh_closed (fst (sv_life sv2))" | "sv_phase sv2 = Graceful" | "sv_phase sv2 = Exited"
    by (auto simp: drained_def split: prod.splits)
  then show ?thesis
  proof cases
    case 1
    then show ?thesis using sv_stopped [OF 1, of ops srt idle] by simp
  next
    case 2
    from drained_enabled [of sv2 idle ops srt, OF d 2 assms(7)] drained_leaves [OF d _ 2, of ops srt idle] 2 show ?thesis by simp
  next
    case 3
    with drained_answers [OF d rep 3] show ?thesis by auto
  qed
qed

abbreviation one_call :: "server_phase \<Rightarrow> MemStore server" where
  "one_call ph \<equiv> \<lparr>sv_life = (epoch_with [] 0 [], NewMemStore, []), sv_phase = ph,
     sv_arrived = [(0, Submit_call (request ''t'' [] []))], sv_waiting = [], sv_responses = [],
     sv_calls = [(0, Submit_call (request ''t'' [] []))]\<rparr>"

lemma one_call_signal:
  "server_reach MemStore_ops (sort_key txn_key) (\<lambda>p. p = []) (server_init (epoch_with [] 0 []) NewMemStore)
     (one_call Stopping\<lparr>sv_life := (epoch_with [] 0 []\<lparr>ticker := Some False, stopCh_closed := True\<rparr>, NewMemStore, [])\<rparr>)"
proof -
  let ?step = "server_step MemStore_ops (sort_key txn_key) (\<lambda>p. p = [])"
  have "?step (server_init (epoch_with [] 0 []) NewMemStore) (one_call Serving)"
    using sv_arrive [of "server_init (epoch_with [] 0 []) NewMemStore" 0 MemStore_ops "sort_key txn_key" "\<lambda>p. p = []" "Submit_call (request ''t'' [] [])"]
    by (simp add: server_init_def fresh_call_def)
  moreover have "epoch_life MemStore_ops (sort_key txn_key) (epoch_with [] 0 [], NewMemStore, []) Stop
      (epoch_with [] 0 []\<lparr>ticker := Some False, stopCh_closed := True\<rparr>, NewMemStore, [])"
    by (rule life_stop) (simp add: EpochCertifier_Stop_def)
  then have "?step (one_call Serving)
      (one_call Stopping\<lparr>sv_life := (epoch_with [] 0 []\<lparr>ticker := Some False, stopCh_closed := True\<rparr>, NewMemStore, [])\<rparr>)"
    using sv_signal [of "one_call Serving" MemStore_ops "sort_key txn_key" _ "\<lambda>p. p = []"] by simp
  ultimately show ?thesis by (blast intro: server_refl server_more)
qed

text \<open>In the witness the signal comes before the call is submitted, and the drain answers it.\<close>

theorem server_shutdown_answers_witness:
  "\<exists>sv2. server_reach MemStore_ops (sort_key txn_key) (\<lambda>p. p = []) (server_init (epoch_with [] 0 []) NewMemStore) sv2 \<and>
     sv_calls sv2 = [(0, Submit_call (request ''t'' [] []))] \<and> sv_phase sv2 = Exited \<and> (\<exists>reply. (0, reply) \<in> set (sv_responses sv2))"
proof -
  let ?step = "server_step MemStore_ops (sort_key txn_key) (\<lambda>p. p = [])"
  let ?reach = "server_reach MemStore_ops (sort_key txn_key) (\<lambda>p. p = [])"
  let ?c = "epoch_with [] 0 []\<lparr>ticker := Some False, stopCh_closed := True\<rparr>" and ?req = "request ''t'' [] []"
  let ?st = "one_call Stopping\<lparr>sv_life := (?c, NewMemStore, [])\<rparr>" and ?r = "committed_result ''t'' 1"
  let ?sv = "?st\<lparr>sv_life := (EpochCertifier_Submit ?c 0 ?req, NewMemStore, []), sv_arrived := [], sv_waiting := [0]\<rparr>"
  let ?sv1 = "?sv\<lparr>sv_life := (?c\<lparr>commitSeq := 1, runners := 0, doneCh_closed := True\<rparr>, NewMemStore, [(0, ?r)])\<rparr>"
  let ?sv2 = "?sv1\<lparr>sv_waiting := [], sv_responses := [(0, Result_reply ?r)]\<rparr>"
  have "epoch_life MemStore_ops (sort_key txn_key) (sv_life ?st) (Submit 0 ?req) (sv_life ?sv)" using life_submit [of 0 ?c "[]"] by simp
  then have "?step ?st ?sv" using sv_submit [of 0 ?req ?st MemStore_ops "sort_key txn_key" _ "\<lambda>p. p = []"] by simp
  with one_call_signal have run: "?reach (server_init (epoch_with [] 0 []) NewMemStore) ?sv" by (rule server_more)
  have "processEpoch MemStore_ops (sort_key txn_key) (EpochCertifier_Submit ?c 0 ?req) NewMemStore [] = (LoopDone, ?c\<lparr>commitSeq := 1\<rparr>, NewMemStore, [(0, ?r)])"
    by (simp add: EpochCertifier_Submit_def processEpoch_def certifyTxn_def MemStore_ops_sel MemStore_ApplyCommit_def write_entries_def NewMemStore_def)
  from life_drain [OF _ _ _ this] have "epoch_life MemStore_ops (sort_key txn_key) (sv_life ?sv) Drain (sv_life ?sv1)"
    by (simp add: EpochCertifier_Submit_def)
  then have drain: "?step ?sv ?sv1" using sv_run [of Drain MemStore_ops "sort_key txn_key" ?sv _ "\<lambda>p. p = []"] by simp
  have "?step ?sv1 ?sv2" using sv_respond [of 0 ?sv1 ?r MemStore_ops "sort_key txn_key" "\<lambda>p. p = []"] by (simp add: EpochCertifier_Receive_def)
  moreover have "?step ?sv2 (?sv2\<lparr>sv_phase := Graceful\<rparr>)" by (rule sv_stopped) simp_all
  moreover have "?step (?sv2\<lparr>sv_phase := Graceful\<rparr>) (?sv2\<lparr>sv_phase := Exited\<rparr>)"
    using sv_exit [of "?sv2\<lparr>sv_phase := Graceful\<rparr>" "\<lambda>p. p = []" MemStore_ops "sort_key txn_key"] by (simp add: in_progress_def)
  ultimately have rest: "?reach ?sv1 (?sv2\<lparr>sv_phase := Exited\<rparr>)" by (blast intro: server_refl server_more)
  have "sv_phase (?sv2\<lparr>sv_phase := Exited\<rparr>) = Exited \<and>
      (\<forall>(ch, call) \<in> set (sv_calls (?sv2\<lparr>sv_phase := Exited\<rparr>)). \<exists>reply. (ch, reply) \<in> set (sv_responses (?sv2\<lparr>sv_phase := Exited\<rparr>)))"
    using server_shutdown_answers [OF run _ _ _ sortSlice_sort_key _ _ _ _ _ drain _ rest]
    by (simp add: waits_for_pending_def EpochCertifier_Submit_def)
  moreover have "?reach (server_init (epoch_with [] 0 []) NewMemStore) (?sv2\<lparr>sv_phase := Exited\<rparr>)"
    by (rule server_reach_trans [OF rest server_more [OF run drain]])
  ultimately show ?thesis by (intro exI [of _ "?sv2\<lparr>sv_phase := Exited\<rparr>"]) simp
qed

text \<open>\<^bold>\<open>C40.\<close> The order of the shutdown loses calls: if a submission is in progress but not yet in the batch when the goroutine
  of the certifier has ended, \<open>GracefulStop\<close> waits for it for ever and the server never exits. Calls are
  still accepted at that moment, because \<open>Stop\<close> runs before \<open>GracefulStop\<close>.\<close>

theorem server_shutdown_hangs:
  assumes "waits_for_pending idle" "runners (fst (sv_life sv)) = 0" "sv_phase sv \<noteq> Exited" "(ch, Submit_call req) \<in> set (sv_arrived sv)"
    and "server_reach ops srt idle sv sv'"
  shows "sv_phase sv' \<noteq> Exited \<and> ch \<in> set (in_progress sv')"
proof -
  have "stranded sv ch" using assms(2-4) by (auto simp: stranded_def split: prod.splits)
  with stranded_reach [OF assms(5) _ assms(1)] stranded_in_progress show ?thesis by blast
qed

theorem server_shutdown_hangs_witness:
  "\<exists>sv. server_reach MemStore_ops (sort_key txn_key) (\<lambda>p. p = []) (server_init (epoch_with [] 0 []) NewMemStore) sv \<and>
     sv_phase sv = Graceful \<and> 0 \<in> set (in_progress sv)"
proof -
  let ?step = "server_step MemStore_ops (sort_key txn_key) (\<lambda>p. p = [])"
  let ?c = "epoch_with [] 0 []\<lparr>ticker := Some False, stopCh_closed := True\<rparr>"
  let ?sv = "one_call Stopping\<lparr>sv_life := (?c, NewMemStore, [])\<rparr>"
  let ?sv1 = "?sv\<lparr>sv_life := (?c\<lparr>runners := 0, doneCh_closed := True\<rparr>, NewMemStore, [])\<rparr>"
  let ?sv2 = "?sv1\<lparr>sv_phase := Graceful\<rparr>"
  have "epoch_life MemStore_ops (sort_key txn_key) (?c, NewMemStore, []) Drain (?c\<lparr>runners := 0, doneCh_closed := True\<rparr>, NewMemStore, [])"
    using life_drain [of ?c MemStore_ops "sort_key txn_key" NewMemStore "[]" ?c NewMemStore "[]"] by (simp add: processEpoch_def)
  then have "?step ?sv ?sv1"
    using sv_run [of Drain MemStore_ops "sort_key txn_key" ?sv _ "\<lambda>p. p = []"] by simp
  moreover have end_step: "?step ?sv1 ?sv2" by (rule sv_stopped) simp_all
  ultimately have "server_reach MemStore_ops (sort_key txn_key) (\<lambda>p. p = []) (server_init (epoch_with [] 0 []) NewMemStore) ?sv2"
    using one_call_signal by (blast intro: server_more)
  moreover have "sv_phase ?sv2 \<noteq> Exited \<and> 0 \<in> set (in_progress ?sv2)"
    by (rule server_shutdown_hangs [OF _ _ _ _ server_more [OF server_refl end_step]]) (simp_all add: waits_for_pending_def)
  ultimately show ?thesis by (intro exI [of _ ?sv2]) simp
qed

end
