(* ===== verification/Fleet.thy ===== *)
theory Fleet
  imports Remote
begin

text \<open>
  Several client processes at work on one pair of servers. Each process has an engine of its own
  (\<open>execution.NewEngine\<close> in \<open>src/cmd/demo\<close> and \<open>src/cmd/benchmark\<close>), so the processes draw their
  transaction ids from the same sequence, and each may call \<open>SyncFromStorage\<close> of the certifier service at
  any time, as both commands do when they start.

  \<^item> \<open>fleet_step\<close>: a step of \<open>sys_step\<close> with the engine of one process; a process that starts; a call of
    \<open>SyncFromStorage\<close>, the argument \<open>sync\<close>. A transaction that was submitted by a process that ends is
    a \<open>Waiting\<close> client whose answer nobody uses. Both commands of the repository also load their data when
    they start. In a fleet the first process has done so, and \<open>fleet_launch\<close> is a process that joins on the
    data that is there; what a second load does to the transactions in progress is
    \<open>reload_accepts_stale_read\<close>, and it is why loading is not a step of the fleet.
  \<^item> \<open>fleet_contract\<close> adds the law of \<open>sync\<close> to \<open>certifier_contract\<close>: a certifier in agreement with the
    store stays as it is. Serializability of the whole fleet follows from the laws.
  \<^item> The last part shows what does not carry over to several processes or to a connection that fails.
\<close>

record 'w fleet =
  fl_sys :: "'w sys"
  fl_engines :: "nat \<Rightarrow> Engine"

inductive fleet_step :: "'w World \<Rightarrow> ('w \<Rightarrow> 'w \<Rightarrow> bool) \<Rightarrow> 'w fleet \<Rightarrow> 'w fleet \<Rightarrow> bool" for W sync where
  fleet_process: "sys_step W ((fl_sys \<phi>)\<lparr>sys_engine := fl_engines \<phi> p\<rparr>) ev \<sigma> \<Longrightarrow>
    fleet_step W sync \<phi> \<lparr>fl_sys = \<sigma>, fl_engines = (fl_engines \<phi>)(p := sys_engine \<sigma>)\<rparr>"
| fleet_launch: "fleet_step W sync \<phi> (\<phi>\<lparr>fl_engines := (fl_engines \<phi>)(p := NewEngine)\<rparr>)"
| fleet_sync: "sync (sys_world (fl_sys \<phi>)) w \<Longrightarrow> fleet_step W sync \<phi> (\<phi>\<lparr>fl_sys := (fl_sys \<phi>)\<lparr>sys_world := w\<rparr>\<rparr>)"

inductive fleet_reach :: "'w World \<Rightarrow> ('w \<Rightarrow> 'w \<Rightarrow> bool) \<Rightarrow> 'w fleet \<Rightarrow> 'w fleet \<Rightarrow> bool" for W sync where
  fleet_refl: "fleet_reach W sync \<phi> \<phi>"
| fleet_more: "fleet_reach W sync \<phi> \<phi>' \<Longrightarrow> fleet_step W sync \<phi>' \<phi>'' \<Longrightarrow> fleet_reach W sync \<phi> \<phi>''"

definition fleet_init :: "'w \<Rightarrow> 'w fleet" where
  "fleet_init w = \<lparr>fl_sys = sys_init w, fl_engines = (\<lambda>_. NewEngine)\<rparr>"

abbreviation fleet_hist :: "'w fleet \<Rightarrow> txn_op list list" where
  "fleet_hist \<phi> \<equiv> sys_hist (fl_sys \<phi>)"

abbreviation fleet_world :: "'w fleet \<Rightarrow> 'w" where
  "fleet_world \<phi> \<equiv> sys_world (fl_sys \<phi>)"

text \<open>The call of \<open>SyncFromStorage\<close> in the two deployments. The epoch certifier takes the mutex that
  \<open>processEpoch\<close> holds while it certifies a batch, so the call finds its goroutine outside the loop.\<close>

definition remote_sync :: "(ImmediateCertifier \<times> 's) invoke \<Rightarrow> ImmediateCertifier \<times> 's \<Rightarrow> ImmediateCertifier \<times> 's \<Rightarrow> bool" where
  "remote_sync cconn w w' \<longleftrightarrow> w' = GRPCCertifierClient_SyncFromStorage cconn w"

inductive epoch_sync :: "'s Store \<Rightarrow> 's epoch_state \<Rightarrow> 's epoch_state \<Rightarrow> bool" for ops where
  epoch_syncI: "EpochCertifier_SyncFromStorage ops c s = (c', s') \<Longrightarrow> epoch_sync ops (c, s, None) (c', s', None)"

inductive_cases epoch_syncE: "epoch_sync ops w w'"

text \<open>A run of one process is a run of the fleet.\<close>

lemma sys_reach_fleet:
  assumes "sys_reach W (sys_init w) \<sigma>"
  shows "fleet_reach W sync (fleet_init w) \<lparr>fl_sys = \<sigma>, fl_engines = (\<lambda>_. NewEngine)(p := sys_engine \<sigma>)\<rparr>"
  using assms
proof (induction "sys_init w" \<sigma> rule: sys_reach.induct)
  case reach_refl
  have "fleet_init w = \<lparr>fl_sys = sys_init w, fl_engines = (\<lambda>_. NewEngine)(p := sys_engine (sys_init w))\<rparr>"
    by (simp add: fleet_init_def sys_init_def fun_eq_iff)
  then show ?case by (metis fleet_refl)
next
  case (reach_step \<sigma>' ev \<sigma>'')
  let ?\<phi> = "\<lparr>fl_sys = \<sigma>', fl_engines = (\<lambda>_. NewEngine)(p := sys_engine \<sigma>')\<rparr>"
  have "fleet_step W sync ?\<phi> \<lparr>fl_sys = \<sigma>'', fl_engines = (fl_engines ?\<phi>)(p := sys_engine \<sigma>'')\<rparr>"
    using reach_step(3) by (intro fleet_process [where ev = ev]) simp
  with reach_step(2) show ?case by (auto intro: fleet_more)
qed

text \<open>A process runs, another one starts and synchronises the certifier.\<close>

lemma fleet_run_sync:
  assumes "sys_reach W (sys_init w) \<sigma>" "sync (sys_world \<sigma>) w'"
  shows "\<exists>\<phi>. fleet_reach W sync (fleet_init w) \<phi> \<and> fleet_hist \<phi> = sys_hist \<sigma> \<and> fleet_world \<phi> = w' \<and> fl_engines \<phi> 1 = NewEngine"
proof -
  let ?\<phi> = "\<lparr>fl_sys = \<sigma>, fl_engines = (\<lambda>_. NewEngine)(0 := sys_engine \<sigma>)\<rparr>"
  have "fleet_reach W sync (fleet_init w) ?\<phi>" by (rule sys_reach_fleet [OF assms(1)])
  from fleet_more [OF fleet_more [OF this fleet_launch] fleet_sync] assms(2)
  show ?thesis by (intro exI [of _ "?\<phi>\<lparr>fl_engines := (fl_engines ?\<phi>)(1 := NewEngine), fl_sys := \<sigma>\<lparr>sys_world := w'\<rparr>\<rparr>"]) simp
qed

subsection \<open>The contract and serializability\<close>

locale fleet_contract = certifier_contract W wview wseq wok
  for W :: "'w World" and wview :: "'w \<Rightarrow> kv_view" and wseq :: "'w \<Rightarrow> uint64" and wok :: "'w \<Rightarrow> bool" +
  fixes sync :: "'w \<Rightarrow> 'w \<Rightarrow> bool"
  assumes w_sync: "wok w \<Longrightarrow> sync w w' \<Longrightarrow> wok w' \<and> wview w' = wview w \<and> wseq w' = wseq w"
begin

lemma fleet_inv_step:
  assumes "fleet_step W sync \<phi> \<phi>'" "sys_inv w0 (fl_sys \<phi>)" "unat (wseq w0) + length (fleet_hist \<phi>') + 1 < 2 ^ 64"
  shows "sys_inv w0 (fl_sys \<phi>')"
  using assms(1)
proof cases
  case (fleet_process p ev \<sigma>)
  have "sys_inv w0 ((fl_sys \<phi>)\<lparr>sys_engine := fl_engines \<phi> p\<rparr>)" using assms(2) by (simp add: sys_inv_def)
  with fleet_process assms(3) show ?thesis by (auto intro: sys_inv_step)
next
  case (fleet_launch p)
  with assms(2) show ?thesis by simp
next
  case (fleet_sync w)
  with assms(2) w_sync [OF _ fleet_sync(2)] show ?thesis by (auto simp: sys_inv_def intro!: sys_inv_world)
qed

lemma fleet_hist_grows: "fleet_step W sync \<phi> \<phi>' \<Longrightarrow> length (fleet_hist \<phi>) \<le> length (fleet_hist \<phi>')"
  by (erule fleet_step.cases) (auto dest: hist_grows)

lemma fleet_inv_reach:
  assumes "fleet_reach W sync (fleet_init w0) \<phi>" "wok w0" "unat (wseq w0) + length (fleet_hist \<phi>) + 1 < 2 ^ 64"
  shows "sys_inv w0 (fl_sys \<phi>)"
  using assms
proof (induction "fleet_init w0" \<phi> rule: fleet_reach.induct)
  case fleet_refl
  then show ?case by (simp add: fleet_init_def sys_inv_init)
next
  case (fleet_more \<phi>' \<phi>'')
  then have "sys_inv w0 (fl_sys \<phi>')" using fleet_hist_grows [OF fleet_more(3)] by simp
  then show ?case using fleet_more(3,5) by (blast intro: fleet_inv_step)
qed

lemma fleet_runs_serializable:
  assumes "wok w0" "fleet_reach W sync (fleet_init w0) \<phi>" "unat (wseq w0) + length (fleet_hist \<phi>) + 1 < 2 ^ 64"
  shows "replay (db_of (wview w0)) (concat (fleet_hist \<phi>)) = Some (db_of (wview (fleet_world \<phi>)))"
  using fleet_inv_reach [OF assms(2,1,3)] by (simp add: sys_inv_def)

end

subsection \<open>Both deployments keep the contract\<close>

sublocale store_contract \<subseteq> epoch_fleet: fleet_contract "epoch_world ops srt"
  "\<lambda>w. view (fst (snd w))" "\<lambda>w. commitSeq (fst w)" "\<lambda>w. ok (fst (snd w)) \<and> coherent (view (fst (snd w))) (fst w)"
  "epoch_sync ops"
  for srt
  by unfold_locales (auto elim!: epoch_syncE dest: sync_epoch_keeps)

sublocale remote_system \<subseteq> remote_fleet: fleet_contract "remote_world sconn cconn" "\<lambda>w. view (snd w)"
  "\<lambda>w. commitSeq (fst w)" "\<lambda>w. ok (snd w) \<and> coherent (view (snd w)) (fst w)" "remote_sync cconn"
proof unfold_locales
  fix w w'
  assume w: "ok (snd w) \<and> coherent (view (snd w)) (fst w)" and "remote_sync cconn w w'"
  then have "w' = ImmediateCertifier_SyncFromStorage (GRPCStoreClient_ops sconn) (fst w) (snd w)"
    by (simp add: remote_sync_def client_SyncFromStorage [OF cert_conn] ImmediateCertifier_cert_def split_beta)
  with w client.sync_keeps [of "snd w" "fst w" "fst w'" "snd w'"]
  show "(ok (snd w') \<and> coherent (view (snd w')) (fst w')) \<and> view (snd w') = view (snd w) \<and> commitSeq (fst w') = commitSeq (fst w)"
    by simp
qed

context store_contract
begin

lemma epoch_fleet_contract:
  "fleet_contract (epoch_world ops srt) (\<lambda>w. view (fst (snd w))) (\<lambda>w. commitSeq (fst w))
     (\<lambda>w. ok (fst (snd w)) \<and> coherent (view (fst (snd w))) (fst w)) (epoch_sync ops)"
  by unfold_locales

end

context remote_system
begin

lemma remote_fleet_contract:
  "fleet_contract (remote_world sconn cconn) (\<lambda>w. view (snd w)) (\<lambda>w. commitSeq (fst w))
     (\<lambda>w. ok (snd w) \<and> coherent (view (snd w)) (fst w)) (remote_sync cconn)"
  by unfold_locales

end

subsection \<open>Properties\<close>

text \<open>\<^bold>\<open>C10.\<close> Serializability of the remote deployment, from the start-up sequence of its commands: data is
  loaded through the storage client and the certifier is synchronised through its client, whatever the
  storage server and the certifier held before; then any number of client processes, each with an engine
  of its own, run transactions through the two gRPC clients and synchronise the certifier again, in any
  interleaving. Running the committed transactions one after the other on the old contents overwritten by
  the loaded data succeeds and gives the contents of the storage server.\<close>

theorem fleet_serializable:
  assumes conn: "delivers sconn (StorageService_ServiceDesc MemStore_ops)"
      "delivers cconn (CertifierService_ServiceDesc (ImmediateCertifier_cert (GRPCStoreClient_ops sconn)))"
    and s: "mem_wf s" "view_pos (mem_view s)" "gomap_wf d"
    and start: "GRPCCertifierClient_SyncFromStorage cconn (c, GRPCStoreClient_LoadInitialData sconn s d) = w0"
    and run: "fleet_reach (remote_world sconn cconn) (remote_sync cconn) (fleet_init w0) \<phi>"
      "unat (commitSeq (fst w0)) + length (fleet_hist \<phi>) + 1 < 2 ^ 64"
  shows "replay (db_of (mem_view s) ++ map_of d) (concat (fleet_hist \<phi>)) = Some (db_of (mem_view (snd (fleet_world \<phi>))))"
proof -
  have "remote_system MemStore_ops mem_view mem_wf sconn cconn" by unfold_locales (rule conn)+
  then have fl: "fleet_contract (remote_world sconn cconn) (\<lambda>w. mem_view (snd w)) (\<lambda>w. commitSeq (fst w))
    (\<lambda>w. mem_wf (snd w) \<and> coherent (mem_view (snd w)) (fst w)) (remote_sync cconn)"
    by (rule remote_system.remote_fleet_contract)
  note w0 = remote_start [OF conn s start]
  from fleet_contract.fleet_runs_serializable [OF fl w0(1) run] w0(2) show ?thesis by simp
qed

theorem fleet_serializable_witness:
  "\<exists>\<phi>. fleet_reach (remote_world lb_store lb_cert) (remote_sync lb_cert)
          (fleet_init (GRPCCertifierClient_SyncFromStorage lb_cert
             (\<lparr>latestVersion = [], commitSeq = 0\<rparr>, GRPCStoreClient_LoadInitialData lb_store NewMemStore [(''x'', ''a'')]))) \<phi> \<and>
     fleet_hist \<phi> = [[RdOp ''x'' ''a'', WrOp ''x'' ''b'']] \<and> db_of (mem_view (snd (fleet_world \<phi>))) = [''x'' \<mapsto> ''b'']"
proof -
  let ?w0 = "(\<lparr>latestVersion = [(''x'', 1)], commitSeq = 1\<rparr>, store_with ''x'' ''a'' 1)"
  obtain \<sigma> where \<sigma>: "sys_reach (remote_world lb_store lb_cert) (sys_init ?w0) \<sigma>" "sys_hist \<sigma> = [[RdOp ''x'' ''a'', WrOp ''x'' ''b'']]"
    using remote_rmw_run(1) by blast
  have "remote_sync lb_cert (sys_world \<sigma>) (GRPCCertifierClient_SyncFromStorage lb_cert (sys_world \<sigma>))" by (simp add: remote_sync_def)
  from fleet_run_sync [where sync = "remote_sync lb_cert", OF \<sigma>(1) this] obtain \<phi> where run: "fleet_reach (remote_world lb_store lb_cert) (remote_sync lb_cert) (fleet_init ?w0) \<phi>"
    "fleet_hist \<phi> = [[RdOp ''x'' ''a'', WrOp ''x'' ''b'']]" using \<sigma>(2) by auto
  have d: "gomap_wf [(''x'', ''a'')]" "view_pos (mem_view NewMemStore)" by (simp_all add: gomap_wf_def view_pos_def)
  have "db_of (mem_view (snd (fleet_world \<phi>))) = [''x'' \<mapsto> ''b'']"
    using fleet_serializable [OF loopback_storage loopback_certifier mem_wf_NewMemStore d(2,1) remote_rmw_run(2) run(1)] run(2)
    by (simp add: db_of_def)
  with run remote_rmw_run(2) show ?thesis by auto
qed

text \<open>\<^bold>\<open>C11.\<close> Serializability with the epoch certifier behind gRPC, from the start-up sequence of the commands: data is
  loaded through the storage client and the certifier, in whatever state it is, is synchronised; then
  several client processes run transactions and synchronise the certifier between epochs. Requests and
  results pass through the message conversions of client and server, and the certifier reads and writes the
  storage server through its client. Running the committed transactions one after the other on the old
  contents overwritten by the loaded data succeeds and gives the contents of the storage server.\<close>

theorem fleet_epoch_serializable:
  assumes conn: "delivers sconn (StorageService_ServiceDesc MemStore_ops)"
    and s: "mem_wf s" "view_pos (mem_view s)" "gomap_wf d"
    and start: "epoch_resync (GRPCStoreClient_ops sconn) (epoch_load sconn (c, s, None) d) = w0"
    and run: "fleet_reach (remote_epoch_world sconn srt) (epoch_sync (GRPCStoreClient_ops sconn)) (fleet_init w0) \<phi>"
      "unat (commitSeq (fst w0)) + length (fleet_hist \<phi>) + 1 < 2 ^ 64"
  shows "replay (db_of (mem_view s) ++ map_of d) (concat (fleet_hist \<phi>)) = Some (db_of (mem_view (fst (snd (fleet_world \<phi>)))))"
proof -
  have "remote_store MemStore_ops mem_view mem_wf sconn" by unfold_locales (rule conn)
  note cl = remote_store.client_contract [OF this]
  note w0 = remote_epoch_start [OF conn s start]
  from fleet_contract.fleet_runs_serializable [OF store_contract.epoch_fleet_contract [OF cl], of w0 srt \<phi>] run w0(1,2)
  show ?thesis by (simp add: remote_epoch_world_eq)
qed

theorem fleet_epoch_serializable_witness:
  "\<exists>\<phi>. fleet_reach (remote_epoch_world lb_store (sort_key txn_key)) (epoch_sync (GRPCStoreClient_ops lb_store))
         (fleet_init (epoch_resync (GRPCStoreClient_ops lb_store) (epoch_load lb_store
            (epoch_with [] 0 []\<lparr>ticker := None, runners := 0\<rparr>, NewMemStore, None) [(''x'', ''a'')]))) \<phi> \<and>
     fleet_hist \<phi> = [[RdOp ''x'' ''a'', WrOp ''x'' ''b'']] \<and> db_of (mem_view (fst (snd (fleet_world \<phi>)))) = [''x'' \<mapsto> ''b'']"
proof -
  let ?W = "remote_epoch_world lb_store (sort_key txn_key)" and ?sync = "epoch_sync (GRPCStoreClient_ops lb_store)"
  let ?w0 = "(epoch_with [(''x'', 1)] 1 []\<lparr>ticker := None, runners := 0\<rparr>, store_with ''x'' ''a'' 1, None)"
  obtain \<sigma> where \<sigma>: "sys_reach ?W (sys_init ?w0) \<sigma>" "sys_hist \<sigma> = [[RdOp ''x'' ''a'', WrOp ''x'' ''b'']]"
    using remote_epoch_rmw_run(1) by blast
  obtain \<phi> where run: "fleet_reach ?W ?sync (fleet_init ?w0) \<phi>" "fleet_hist \<phi> = [[RdOp ''x'' ''a'', WrOp ''x'' ''b'']]"
    using sys_reach_fleet [OF \<sigma>(1), of ?sync 0] \<sigma>(2) by auto
  have d: "gomap_wf [(''x'', ''a'')]" "view_pos (mem_view NewMemStore)" by (simp_all add: gomap_wf_def view_pos_def)
  have "db_of (mem_view (fst (snd (fleet_world \<phi>)))) = [''x'' \<mapsto> ''b'']"
    using fleet_epoch_serializable [OF loopback_storage mem_wf_NewMemStore d(2,1) remote_epoch_rmw_run(2) run(1)] run(2)
    by (simp add: db_of_def)
  with run remote_epoch_rmw_run(2) show ?thesis by auto
qed

subsection \<open>What does not carry over\<close>

lemma mset_pair: "mset xs = {#a, b#} \<Longrightarrow> xs = [a, b] \<or> xs = [b, a]"
  by (cases xs; cases "tl xs") (auto simp: add_eq_conv_ex)

text \<open>Two transactions that write a common key in one epoch: the first in the order of the sort commits, and the
  second commits if it has the same id and has read no key that the first writes.\<close>

lemma two_writers:
  assumes "mem_wf s" "coherent (mem_view s) c" "currentBatch c = []" "unat (commitSeq c) + 2 < 2 ^ 64" "sortSlice_spec txn_key srt"
    and reads: "reads_current (mem_view s) (tr_ReadSet q1)" "reads_current (mem_view s) (tr_ReadSet q2)"
    and k: "k \<in> we_Key ` set (tr_WriteSet q1)" "k \<in> we_Key ` set (tr_WriteSet q2)" and "a \<noteq> b"
    and p: "p1 = \<lparr>p_req = q1, p_resultCh = a\<rparr>" "p2 = \<lparr>p_req = q2, p_resultCh = b\<rparr>"
  shows "\<exists>c' s' chs r1 r2. processEpoch MemStore_ops srt (EpochCertifier_Submit (EpochCertifier_Submit c a q1) b q2) s [] = (LoopDone, c', s', chs) \<and>
    EpochCertifier_Receive chs a = Some r1 \<and> EpochCertifier_Receive chs b = Some r2 \<and>
    (res_Committed r1 \<and> res_Committed r2 \<longleftrightarrow> tr_TxnID q1 = tr_TxnID q2 \<and>
       re_Key ` set (tr_ReadSet (p_req (srt [p1, p2] ! 1))) \<inter> we_Key ` set (tr_WriteSet (p_req (srt [p1, p2] ! 0))) = {})"
proof -
  let ?c = "EpochCertifier_Submit (EpochCertifier_Submit c a q1) b q2" and ?n = "commitSeq c"
  have b: "currentBatch ?c = [p1, p2]" "coherent (mem_view s) ?c" "commitSeq ?c = ?n"
    using assms(2,3) by (simp_all add: EpochCertifier_Submit_def coherent_def p)
  have "mset (srt [p1, p2]) = {#p1, p2#}" using assms(5) by (simp add: sortSlice_spec_def)
  then have srt: "srt [p1, p2] = [p1, p2] \<or> srt [p1, p2] = [p2, p1]" by (rule mset_pair)
  obtain c' s' chs where run: "processEpoch MemStore_ops srt ?c s [] = (LoopDone, c', s', chs)"
    "epoch_spec (mem_view s) ?n Map.empty (map p_req (srt [p1, p2]))
      = (map (\<lambda>p. res_Committed (the (EpochCertifier_Receive chs (p_resultCh p)))) (srt [p1, p2]), mem_view s', commitSeq c')"
    using mem.processEpoch_refines [OF assms(1) b(2) _ assms(5), of "[]"] b assms(4) \<open>a \<noteq> b\<close> by (auto simp: p)
  have "ver_of (mem_view s) x \<noteq> ?n + 1" for x
    using ver_of_le [of "mem_view s" ?n x] less_inc64 [of ?n "ver_of (mem_view s) x"] assms(2,4) by (auto simp: coherent_def)
  then have fresh: "reads_current (view_writes (stamp (?n + 1) ws) (mem_view s)) rs \<longleftrightarrow> re_Key ` set rs \<inter> we_Key ` set ws = {}"
    if "reads_current (mem_view s) rs" for rs ws
    using that by (auto simp: reads_current_def ver_of_commit)
  have claimed: "unclaimed (claim i ws Map.empty) j ws' \<longleftrightarrow> i = j"
    if "k \<in> we_Key ` set ws" "k \<in> we_Key ` set ws'" for i j ws ws'
  proof
    show "i = j" if u: "unclaimed (claim i ws Map.empty) j ws'"
    proof -
      obtain w where "w \<in> set ws'" "we_Key w = k" using \<open>k \<in> we_Key ` set ws'\<close> by blast
      with u \<open>k \<in> we_Key ` set ws\<close> show ?thesis by (auto simp: unclaimed_def claim_def)
    qed
  qed (auto simp: unclaimed_def claim_def)
  have "res_Committed (the (EpochCertifier_Receive chs a)) \<and> res_Committed (the (EpochCertifier_Receive chs b)) \<longleftrightarrow> tr_TxnID q1 = tr_TxnID q2 \<and>
      re_Key ` set (tr_ReadSet (p_req (srt [p1, p2] ! 1))) \<inter> we_Key ` set (tr_WriteSet (p_req (srt [p1, p2] ! 0))) = {}"
    using srt
  proof
    assume o: "srt [p1, p2] = [p1, p2]"
    then show ?thesis using run(2) reads k fresh [of "tr_ReadSet q2" "tr_WriteSet q1"] claimed [of "tr_WriteSet q1" "tr_WriteSet q2"]
      by (auto simp: p occ_spec_def unclaimed_def split: if_splits)
  next
    assume o: "srt [p1, p2] = [p2, p1]"
    then show ?thesis using run(2) reads k fresh [of "tr_ReadSet q1" "tr_WriteSet q2"] claimed [of "tr_WriteSet q2" "tr_WriteSet q1"]
      by (auto simp: p occ_spec_def unclaimed_def split: if_splits)
  qed
  moreover obtain r1 r2 where "EpochCertifier_Receive chs a = Some r1" "EpochCertifier_Receive chs b = Some r2"
    using processEpoch_answers [OF assms(5), of ?c "[]" MemStore_ops s] b(1) \<open>a \<noteq> b\<close> run(1) by (auto simp: p)
  ultimately show ?thesis using run(1) by auto
qed

text \<open>\<^bold>\<open>C14.\<close> First writer wins only between transactions of different ids. Take a transaction of one process and one of
  another process, both with current reads, that write a common key and are alone in an epoch: they both
  commit exactly when their engines have given out equally many ids and the one that is certified second has
  read no key that the first writes. Two processes that have just started give out the same ids; that their
  transactions do not both commit is then left to the check of the reads, which a blind write passes.\<close>

theorem processes_share_ids:
  assumes "mem_wf s" "coherent (mem_view s) c" "currentBatch c = []" "unat (commitSeq c) + 2 < 2 ^ 64" "sortSlice_spec txn_key srt"
    and "Engine_Begin e1 = (t1, e1')" "tr_TxnID q1 = txn_ID t1" "Engine_Begin e2 = (t2, e2')" "tr_TxnID q2 = txn_ID t2"
    and "reads_current (mem_view s) (tr_ReadSet q1)" "reads_current (mem_view s) (tr_ReadSet q2)"
    and "k \<in> we_Key ` set (tr_WriteSet q1)" "k \<in> we_Key ` set (tr_WriteSet q2)"
    and "p1 = \<lparr>p_req = q1, p_resultCh = 0\<rparr>" "p2 = \<lparr>p_req = q2, p_resultCh = 1\<rparr>"
  shows "\<exists>c' s' chs r1 r2. processEpoch MemStore_ops srt (EpochCertifier_Submit (EpochCertifier_Submit c 0 q1) 1 q2) s [] = (LoopDone, c', s', chs) \<and>
    EpochCertifier_Receive chs 0 = Some r1 \<and> EpochCertifier_Receive chs 1 = Some r2 \<and>
    (res_Committed r1 \<and> res_Committed r2 \<longleftrightarrow> eng_idCounter e1 = eng_idCounter e2 \<and>
       re_Key ` set (tr_ReadSet (p_req (srt [p1, p2] ! 1))) \<inter> we_Key ` set (tr_WriteSet (p_req (srt [p1, p2] ! 0))) = {})"
proof -
  have "tr_TxnID q1 = tr_TxnID q2 \<longleftrightarrow> eng_idCounter e1 = eng_idCounter e2"
    using assms(6-9) by (auto simp: Engine_Begin_def Let_def fmt_d_inj)
  with two_writers [OF assms(1-5,10-13) _ assms(14,15)] show ?thesis by simp
qed

text \<open>In the witness both transactions are the first of their process, one a blind write, the other one
  a read of another key and a write.\<close>

theorem processes_share_ids_witness:
  "\<exists>c' s' chs r1 r2. processEpoch MemStore_ops (sort_key txn_key)
       (EpochCertifier_Submit (EpochCertifier_Submit (epoch_with [(''x'', 3)] 3 []) 0 (request (''txn-'' @ fmt_d 1) [] [(''x'', ''b'')]))
          1 (request (''txn-'' @ fmt_d 1) [(''y'', 0)] [(''x'', ''c'')])) (store_with ''x'' ''a'' 3) [] = (LoopDone, c', s', chs) \<and>
     EpochCertifier_Receive chs 0 = Some r1 \<and> EpochCertifier_Receive chs 1 = Some r2 \<and> res_Committed r1 \<and> res_Committed r2"
proof -
  let ?q1 = "request (''txn-'' @ fmt_d 1) [] [(''x'', ''b'')]" and ?q2 = "request (''txn-'' @ fmt_d 1) [(''y'', 0)] [(''x'', ''c'')]"
  obtain t e where b: "Engine_Begin NewEngine = (t, e)" by fastforce
  then have "tr_TxnID ?q1 = txn_ID t" "tr_TxnID ?q2 = txn_ID t" by (auto simp: Engine_Begin_def NewEngine_def Let_def)
  moreover have "reads_current (mem_view (store_with ''x'' ''a'' 3)) (tr_ReadSet ?q1)"
    "reads_current (mem_view (store_with ''x'' ''a'' 3)) (tr_ReadSet ?q2)"
    "coherent (mem_view (store_with ''x'' ''a'' 3)) (epoch_with [(''x'', 3)] 3 [])"
    by (simp_all add: reads_current_def ver_of_def coherent_store_with)
  ultimately show ?thesis
    using processes_share_ids [OF mem_wf_store_with _ _ _ sortSlice_sort_key b _ b _ _ _ _ _ refl refl,
        of "''x''" "''a''" 3 "epoch_with [(''x'', 3)] 3 []" ?q1 ?q2 "''x''"]
    by (auto simp: sort_key_def)
qed

text \<open>\<^bold>\<open>C28.\<close> A second start-up lets a stale read through: a transaction has read a key at version 1, the version
  every loaded key gets; then another process loads a different value for that key and synchronises the
  certifier, as \<open>demo\<close> and \<open>benchmark\<close> do when they start in remote mode. The certifier, back in agreement
  with the store, accepts the first transaction, although what it read is not what the store holds and the
  commit runs in no serial order after the load.\<close>

theorem reload_accepts_stale_read:
  assumes conn: "delivers sconn (StorageService_ServiceDesc MemStore_ops)"
      "delivers cconn (CertifierService_ServiceDesc (ImmediateCertifier_cert (GRPCStoreClient_ops sconn)))"
    and s: "mem_wf s" "view_pos (mem_view s)" "gomap_wf d"
    and old: "mem_view s k = Some (v, 1)" and new: "map_of d k = Some v'" "v \<noteq> v'"
    and txn: "Engine_Begin e = (txn, e')" "Engine_Read (GRPCStoreClient_Get sconn) s txn k = ((x, None), txn', s1)"
    and start: "GRPCCertifierClient_SyncFromStorage cconn (c, GRPCStoreClient_LoadInitialData sconn s d) = w0"
    and room: "seq_room (commitSeq (fst w0))"
  shows "x = v \<and> replay (db_of (mem_view (snd w0))) [RdOp k x] = None \<and>
    (\<exists>r txn'' w. Engine_Commit (Cert_SubmitCommit (GRPCCertifierClient_cert cconn)) w0 txn' = (Inr (r, None), txn'', w) \<and> res_Committed r)"
proof -
  note w0 = remote_start [OF conn s start]
  have "GRPCStoreClient_Get sconn s k = (\<lparr>rr_Value = v, rr_Version = 1, rr_Found = True\<rparr>, s)"
    using old by (simp add: client_Get [OF conn(1)] MemStore_ops_sel MemStore_Get_view view_result_def)
  with txn have x: "x = v" and req: "Commit_request txn' = Inr (request (txn_ID txn) [(k, 1)] [])"
    by (auto simp: Engine_Begin_def Engine_Read_def Commit_request_def checkActive_def Let_def)
  have db: "db_of (mem_view (snd w0)) k = Some v'" using w0(2) new(1) by simp
  have "ver_of (mem_view (snd w0)) k = 1"
    using w0(3) new(1) by (simp add: ver_of_def)
  then have "reads_current (mem_view (snd w0)) [\<lparr>re_Key = k, re_VersionSeen = 1\<rparr>]" by (simp add: reads_current_def)
  moreover have "remote_store MemStore_ops mem_view mem_wf sconn" by unfold_locales (rule conn)
  ultimately obtain r c' s' where "ImmediateCertifier_SubmitCommit (GRPCStoreClient_ops sconn) (fst w0) (snd w0) (request (txn_ID txn) [(k, 1)] []) = (Inr r, c', s')"
    "res_Committed r"
    using store_contract.submit_refines [OF remote_store.client_contract _ _ room, of MemStore_ops mem_view mem_wf sconn "snd w0" "request (txn_ID txn) [(k, 1)] []"] w0(1)
    by (auto simp: occ_spec_def split: if_splits)
  then show ?thesis using x db new(2)
    by (simp add: Engine_Commit_def req GRPCCertifierClient_cert_def client_SubmitCommit [OF conn(2)] ImmediateCertifier_cert_def split_beta)
qed

theorem reload_accepts_stale_read_witness:
  "\<exists>e' txn txn' s1. Engine_Begin NewEngine = (txn, e') \<and>
     Engine_Read (GRPCStoreClient_Get lb_store) (store_with ''x'' ''a'' 1) txn ''x'' = ((''a'', None), txn', s1) \<and>
     (\<exists>r txn'' w. Engine_Commit (Cert_SubmitCommit (GRPCCertifierClient_cert lb_cert))
        (\<lparr>latestVersion = [(''x'', 1)], commitSeq = 1\<rparr>, store_with ''x'' ''b'' 1) txn' = (Inr (r, None), txn'', w) \<and> res_Committed r)"
proof -
  let ?s = "store_with ''x'' ''a'' 1" and ?d = "[(''x'', ''b'')]" and ?w0 = "(\<lparr>latestVersion = [(''x'', 1)], commitSeq = 1\<rparr>, store_with ''x'' ''b'' 1)"
  obtain txn e' where b: "Engine_Begin NewEngine = (txn, e')" by (cases "Engine_Begin NewEngine")
  then obtain txn' s1 where r: "Engine_Read (GRPCStoreClient_Get lb_store) ?s txn ''x'' = ((''a'', None), txn', s1)"
    by (auto simp: Engine_Begin_def Engine_Read_def checkActive_def Let_def rpc_simps MemStore_Get_def)
  have ld: "GRPCStoreClient_LoadInitialData lb_store ?s ?d = store_with ''x'' ''b'' 1"
    by (simp add: client_LoadInitialData [OF loopback_storage] MemStore_ops_sel MemStore_LoadInitialData_def)
  have start: "GRPCCertifierClient_SyncFromStorage lb_cert (\<lparr>latestVersion = [(''x'', 1)], commitSeq = 1\<rparr>, GRPCStoreClient_LoadInitialData lb_store ?s ?d) = ?w0"
    unfolding ld by (simp add: rpc_simps ImmediateCertifier_SyncFromStorage_def)
  have d: "view_pos (mem_view ?s)" "gomap_wf ?d" "mem_view ?s ''x'' = Some (''a'', 1)" "map_of ?d ''x'' = Some ''b''" "''a'' \<noteq> ''b''"
    "seq_room (commitSeq (fst ?w0))" by (simp_all add: view_pos_def gomap_wf_def seq_room_def)
  from reload_accepts_stale_read [OF loopback_storage loopback_certifier mem_wf_store_with d(1-5) b r start d(6)] b r
  show ?thesis by blast
qed

text \<open>\<^bold>\<open>C29.\<close> A lost response hides a commit: when the certifier server handles \<open>SubmitCommit\<close> but the response
  does not arrive, the client reports the transaction as aborted although its writes are in the store and
  the certifier has counted it. Calling \<open>SubmitCommit\<close> again aborts a request that read one of the keys it
  wrote, and applies a request without reads a second time.\<close>

theorem lost_response_commits:
  assumes conn: "delivers sconn (StorageService_ServiceDesc MemStore_ops)"
      "delivers good (CertifierService_ServiceDesc (ImmediateCertifier_cert (GRPCStoreClient_ops sconn)))"
    and lossy: "\<forall>path m. lossy (c, s) path m = (Inl err, snd (good (c, s) path m))"
    and st: "mem_wf s" "coherent (mem_view s) c" "unat (commitSeq c) + 2 < 2 ^ 64" "reads_current (mem_view s) (tr_ReadSet req)"
  shows "\<exists>w. GRPCCertifierClient_SubmitCommit lossy (c, s) req = (aborted_result (tr_TxnID req) err, w) \<and>
    occ_spec (mem_view s) (commitSeq c) req = (True, mem_view (snd w), commitSeq (fst w)) \<and>
    (res_Committed (fst (GRPCCertifierClient_SubmitCommit good w req)) \<longleftrightarrow>
       re_Key ` set (tr_ReadSet req) \<inter> we_Key ` set (tr_WriteSet req) = {})"
proof -
  have "remote_store MemStore_ops mem_view mem_wf sconn" by unfold_locales (rule conn)
  note cl = remote_store.client_contract [OF this]
  have room: "seq_room (commitSeq c)" using st(3) by (simp add: seq_room_def)
  obtain r c' s' where sub: "ImmediateCertifier_SubmitCommit (GRPCStoreClient_ops sconn) c s req = (Inr r, c', s')" "mem_wf s'"
    "coherent (mem_view s') c'" "occ_spec (mem_view s) (commitSeq c) req = (True, mem_view s', commitSeq c')"
    using store_contract.submit_refines [OF cl st(1,2) room, of req] st(4) by (auto simp: occ_spec_def)
  have first: "GRPCCertifierClient_SubmitCommit lossy (c, s) req = (aborted_result (tr_TxnID req) err, (c', s'))"
    using lossy sub(1) by (simp add: GRPCCertifierClient_SubmitCommit_def certifierServiceClient_SubmitCommit_def
        delivers_certifier [OF conn(2)] GRPCCertifierServer_SubmitCommit_def
        ImmediateCertifier_cert_def)
  have n: "commitSeq c' = commitSeq c + 1" "mem_view s' = view_writes (stamp (commitSeq c + 1) (tr_WriteSet req)) (mem_view s)"
    using sub(4) st(4) by (auto simp: occ_spec_def)
  have room': "seq_room (commitSeq c')" using st(3) unat_inc64_le [of "commitSeq c"] by (simp add: n(1) seq_room_def)
  have "ver_of (mem_view s) k \<noteq> commitSeq c + 1" for k
    using ver_of_le [of "mem_view s" "commitSeq c" k] less_inc64 [of "commitSeq c" "ver_of (mem_view s) k"] st(2) room
    by (auto simp: coherent_def seq_room_def)
  then have "reads_current (mem_view s') (tr_ReadSet req) \<longleftrightarrow> re_Key ` set (tr_ReadSet req) \<inter> we_Key ` set (tr_WriteSet req) = {}"
    using st(4) by (auto simp: reads_current_def n(2) ver_of_commit)
  moreover obtain r' w' where "ImmediateCertifier_SubmitCommit (GRPCStoreClient_ops sconn) c' s' req = (Inr r', w')"
    "res_Committed r' \<longleftrightarrow> reads_current (mem_view s') (tr_ReadSet req)"
    using store_contract.submit_refines [OF cl sub(2,3) room', of req] by (auto simp: occ_spec_def split: if_splits)
  ultimately show ?thesis using first sub(4)
    by (simp add: client_SubmitCommit [OF conn(2)] ImmediateCertifier_cert_def)
qed

theorem lost_response_commits_witness:
  "\<exists>w. GRPCCertifierClient_SubmitCommit (\<lambda>w path m. (Inl ''reset'', snd (lb_cert w path m)))
         (\<lparr>latestVersion = [(''x'', 3)], commitSeq = 3\<rparr>, store_with ''x'' ''a'' 3) (request ''t'' [] [(''x'', ''b'')])
       = (aborted_result ''t'' ''reset'', w) \<and> mem_view (snd w) = [''x'' \<mapsto> (''b'', 4)] \<and>
     res_Committed (fst (GRPCCertifierClient_SubmitCommit lb_cert w (request ''t'' [] [(''x'', ''b'')])))"
proof -
  let ?lossy = "\<lambda>w path m. (Inl ''reset'', snd (lb_cert w path m))" and ?c = "\<lparr>latestVersion = [(''x'', 3)], commitSeq = 3\<rparr>"
  have l: "\<forall>path m. ?lossy (?c, store_with ''x'' ''a'' 3) path m = (Inl ''reset'', snd (lb_cert (?c, store_with ''x'' ''a'' 3) path m))" by simp
  have "coherent (mem_view (store_with ''x'' ''a'' 3)) ?c" "unat (commitSeq ?c) + 2 < 2 ^ 64" "reads_current (mem_view (store_with ''x'' ''a'' 3)) []"
    by (simp_all add: coherent_store_with reads_current_def)
  with lost_response_commits [where lossy = ?lossy and good = lb_cert and sconn = lb_store and c = ?c and s = "store_with ''x'' ''a'' 3" and err = "''reset''"
      and req = "request ''t'' [] [(''x'', ''b'')]", OF loopback_storage loopback_certifier l mem_wf_store_with]
  show ?thesis by (auto simp: occ_spec_def view_writes_def stamp_def reads_current_def)
qed

end
