(* ===== verification/Spec2Isabelle.thy ===== *)
theory Spec2Isabelle
  imports Demo Benchmark Servers Fleet
begin

text \<open>
  \<^bold>\<open>Verification of CCaaS, a concurrency-control service\<close>

  The program certifies transactions optimistically. Clients run transactions through an execution
  engine, which reads from a versioned key-value store, buffers writes, and submits the read and write
  sets to a certifier. The certifier compares the versions read with the versions it knows and, when
  they are current, applies the writes to the store under a new sequence number. There are two
  certifiers, one that decides each transaction at once and one that decides batches on a timer; store
  and certifier can be in the client's process or behind gRPC. Three commands use all this: a bank
  demo, a benchmark, and the two servers.

  \<^bold>\<open>Theories and sources\<close>

  \<^item> \<open>Prelude\<close>: 64-bit words, Go maps as association lists (\<open>gomap\<close>), shared lemmas and the collections
    \<open>map_simps\<close> and \<open>rpc_simps\<close>.
  \<^item> \<open>GoStd\<close>: the parts of Go's library used on strings and numbers: \<open>Itoa\<close>, \<open>Atoi\<close>, the verbs \<open>%d\<close> and
    \<open>%q\<close>, what \<open>sort.Slice\<close> promises, and how a command ends. \<open>Floats\<close>: \<open>float64\<close> arithmetic as exact arithmetic followed by
    rounding to 53 bits.
  \<^item> \<open>Types\<close> (\<open>src/pkg/types/types.go\<close>): the structs as records.
  \<^item> \<open>Storage\<close> (\<open>src/pkg/storage/storage.go\<close>): the interface \<open>Store\<close> as a record of operations, \<open>MemStore\<close> and
    all its methods, each in one step. The locale \<open>store_contract\<close> states the laws of a store over an abstract
    view, key to value and version; \<open>MemStore\<close> interprets it. \<open>Locking\<close> has the same methods in interleaved
    steps, with the read-write lock and each turn of their loops, and shows that one step is enough.
  \<^item> \<open>Certifier\<close>: the state both certifiers share, \<open>coherent\<close> (certifier and store agree on every version),
    and the specification \<open>occ_spec\<close> of one optimistic decision.
  \<^item> \<open>Immediate\<close> (\<open>src/pkg/ccaas/immediate.go\<close>): constructor, \<open>SyncFromStorage\<close>, \<open>SubmitCommit\<close>.
  \<^item> \<open>Epoch\<close> (\<open>src/pkg/ccaas/epoch.go\<close>): constructor, \<open>Start\<close>, \<open>Stop\<close>, submission, \<open>certifyTxn\<close>, \<open>processEpoch\<close>
    with the deferred recovery from a panic, and the life cycle \<open>epoch_life\<close> as a step relation.
  \<^item> \<open>Execution\<close> (\<open>src/pkg/execution/execution.go\<close>): \<open>Begin\<close>, \<open>Read\<close>, \<open>Write\<close>, \<open>Commit\<close>, \<open>Abort\<close>.
  \<^item> \<open>System\<close>: engine, certifier, store and any number of clients, interleaved (\<open>sys_step\<close>). The locale
    \<open>certifier_contract\<close> states what a client may rely on; serializability is proved once, in it. Both
    certifiers over any store satisfy it (\<open>sublocale\<close>).
  \<^item> \<open>Rpc\<close> (\<open>src/pkg/storage/grpc_client.go\<close>, \<open>grpc_server.go\<close>, the generated stubs and handlers in
    \<open>src/proto/ccaspb\<close>) and \<open>Remote\<close> (\<open>src/pkg/ccaas/grpc_client.go\<close>, \<open>grpc_server.go\<close>): messages, clients,
    servers and service tables. A connection is a parameter \<open>invoke\<close>, and so is what unmarshalling makes of
    the bytes of a call (\<open>decoder\<close>); \<open>delivers\<close> says that the connection passes each call with a request of
    the method's type to the registered handler. \<open>Remote\<close> also has what a client command finds behind its
    two addresses (\<open>ccaas\<close>: a certifier server in either mode) and how it starts. The locales \<open>remote_store\<close> and \<open>remote_system\<close> show that a remote store
    and a remote certifier satisfy the contracts of the local ones.
  \<^item> \<open>Fleet\<close>: several client processes, each with its own engine (\<open>execution.NewEngine\<close>), on one pair of servers,
    and calls of \<open>SyncFromStorage\<close> at any time, after the start of the first process, which loads its data. The locale \<open>fleet_contract\<close> extends \<open>certifier_contract\<close> by the law
    of that call; both remote deployments satisfy it.
  \<^item> \<open>Bank\<close> and \<open>Demo\<close> (\<open>src/cmd/demo/main.go\<close>): the transfer clients and the final check; whole runs, local
    and remote, and what they print.
  \<^item> \<open>Metrics\<close> (\<open>src/pkg/metrics/metrics.go\<close>): the collector and its report.
  \<^item> \<open>Benchmark\<close> (\<open>src/pkg/benchmark/workload.go\<close>, \<open>driver.go\<close>, \<open>src/cmd/benchmark/main.go\<close>): workloads, key
    picking, clients, runs, and the command with its error exits.
  \<^item> \<open>Service\<close> (\<open>src/cmd/storage-server/main.go\<close>): start-up of the storage server, and the life of a server whose
    handlers end on their own, which is also that of the certifier server in immediate mode. How the library
    routes a call is a parameter.
  \<^item> \<open>Servers\<close> (\<open>src/cmd/ccaas-server/main.go\<close>): start-up of the certifier server, and its life and shutdown in
    epoch mode with its calls in progress.

  \<^bold>\<open>What is shown\<close>

  \<^item> Serializability: every interleaving of clients, with either certifier, local or remote, and remote also
    from several processes that synchronise the certifier at will, is equivalent to running the committed
    transactions one after the other in commit order.
  \<^item> Refinement: \<open>SubmitCommit\<close> and \<open>processEpoch\<close> implement their specifications; an epoch of one
    transaction is an immediate decision; an epoch's outcome does not depend on the order of arrival; two
    transactions with different ids committed in one epoch write different keys; the store is linearizable.
  \<^item> Liveness: an epoch ends and answers every submitter, also when the store panics. Calls on the store never
    deadlock and return. The certifier server finishes its shutdown, with a response for every accepted call,
    if every submission is in the batch before the final drain; the storage server, and the certifier server
    in immediate mode, always do.
  \<^item> The certifier server in epoch mode, from its \<open>main\<close> function to any reachable state: the storage server
    holds the serial result of exactly the requests that were answered as committed.
  \<^item> The engine: reads see own writes, read and write sets are consistent, a decided transaction stays
    decided.
  \<^item> Transparency and round trips of the two gRPC services; what each handler of the storage service does,
    whatever it is sent.
  \<^item> The commands, local, and remote over working connections with a certifier in either mode: the bank demo
    prints PASS, with exact counts and abort rate; the benchmark loses no increment and its report agrees with
    the store; the servers serve, or end with the error that they met.
  \<^item> Reports: index and rank of the 95th percentile, bounds of average, abort rate and throughput, with the
    rounding of \<open>float64\<close>.
  \<^item> Flaws: what happens after the store refuses a commit, after a failed remote call or a lost response, on a
    submission after the final drain, when two processes use the same transaction id, when one loads data
    while another runs, when a command or a server starts and the servers it needs are down, and when more
    keys are asked for than exist.

  \<^bold>\<open>How code becomes definitions\<close>

  \<^item> A method that holds a mutex for its whole body is atomic; for the store, with its read-write lock, this is
    proved (\<open>memstore_linearizable\<close>). \<open>processEpoch\<close> releases the mutex of the
    batch before it certifies; in \<open>System\<close> its loop is therefore split into one step per transaction, with readers and
    submissions in between, and the two forms are shown to have the same outcomes. \<open>Servers\<close> uses the whole
    function: nothing the server does meanwhile touches what the loop reads or writes, except that new
    submissions go into the next batch.
  \<^item> A panic is \<open>Inl\<close> of a sum, an error a value. A counter is a \<open>64 word\<close>; the properties about runs assume
    that the sequence counter does not wrap, and say so. An \<open>int\<close> is an \<open>int\<close> with \<open>wrap64\<close> where the code
    computes with it.
  \<^item> A loop over a slice is structural recursion. The loop of \<open>pickKeys\<close> may run forever: it is a
    \<open>partial_function\<close> with \<open>None\<close> for a loop that does not end, and it is proved to return under a fair
    generator. No definition uses fuel.
  \<^item> After the signal the goroutine of the epoch certifier may find a tick and \<open>stopCh\<close> ready at once, and
    \<open>select\<close> may take either: a \<open>Tick\<close> after \<open>Stop\<close> is therefore a step of \<open>epoch_life\<close>. The theorems about a
    shutdown speak of every run, not of one that exists.
  \<^item> Parameters: the connection (\<open>invoke\<close>), the decoding of a message (\<open>decoder\<close>), \<open>grpc.NewClient\<close> (\<open>dial\<close>) and \<open>net.Listen\<close> (\<open>listen\<close>),
    the random generator (\<open>Rng\<close>, with \<open>rng_ok\<close> and \<open>fair\<close>), the sort (\<open>sortSlice_spec\<close>),
    the clock, and when \<open>GracefulStop\<close> returns (\<open>waits_for_pending\<close>).

  \<^bold>\<open>Not modelled\<close>

  The parsing of flags (their values and defaults are modelled), what happens inside listening sockets and
  signal delivery, message-size limits, the exhaustion of memory (so also the panic of \<open>make\<close> in \<open>pickKeys\<close>
  for a count beyond the address space), and the formatting of the printed numbers: input and output around
  the modelled components. The reflection code of the generated messages:
  plumbing of the protobuf runtime; the message structs, stubs, handlers and service tables are modelled.
  Contexts, deadlines and interceptors of gRPC: the program passes background contexts and installs no
  interceptor. Tests, scripts and infrastructure.
\<close>

end
